(* ===== verification/Prelude.thy ===== *)
theory Prelude
  imports Main "HOL-Library.Word" "HOL-Library.Monad_Syntax"
begin

unbundle bit_operations_syntax

text \<open>
  Shared vocabulary of the development: the C integer types, the bit macros the sources
  use, and the control-flow combinators that stand for the two idioms of this code base:
  "ret = f(); if (ret < 0) return ret;" and a chain of such statements.
\<close>

section \<open>Machine integers\<close>

type_synonym u8 = "8 word"
type_synonym u16 = "16 word"
type_synonym u32 = "32 word"
type_synonym u64 = "64 word"

named_theorems dev_eval \<open>unfolding rules that evaluate the model on closed terms\<close>

definition BIT :: "nat \<Rightarrow> u32" where
  [dev_eval]: "BIT n = push_bit n 1"

lemma bit_BIT: "bit (BIT k) n \<longleftrightarrow> n = k \<and> k < 32"
  by (auto simp: BIT_def bit_simps)

text \<open>A 32-bit object read from memory byte by byte on the little-endian target.\<close>

definition le32 :: "u8 list \<Rightarrow> u32" where
  [dev_eval]: "le32 bs = foldr (\<lambda>b acc. ucast b OR push_bit 8 acc) (take 4 bs) 0"

text \<open>A write to an element of a C array. C gives a write out of bounds no meaning, and in the driver
  it would fall on the next member of the struct; here it leaves no array at all, so that the length
  shows it.\<close>

definition store :: "'a list \<Rightarrow> nat \<Rightarrow> 'a \<Rightarrow> 'a list" where
  "store xs i v = (if i < length xs then xs[i := v] else [])"

lemma store_in [simp]: "i < length xs \<Longrightarrow> store xs i v = xs[i := v]"
  by (simp add: store_def)

lemma set_store: "y \<in> set (store xs i v) \<Longrightarrow> y = v \<or> y \<in> set xs"
  using set_update_subset_insert [of xs i v] by (auto simp: store_def split: if_splits)

text \<open>Signed reading of 32-bit words.\<close>

lemma sint_of_int32: "- (2 ^ 31) \<le> k \<Longrightarrow> k < 2 ^ 31 \<Longrightarrow> sint (word_of_int k :: u32) = k"
  by (simp add: signed_of_int signed_take_bit_int_eq_self)

lemma sint_bounds32: "- (2 ^ 31) \<le> sint (n :: u32)" "sint (n :: u32) < 2 ^ 31"
  using sint_greater_eq [of n] sint_less [of n] by simp_all

lemma sint_dec: "0 < sint (n :: u32) \<Longrightarrow> sint (n - 1) = sint n - 1"
  using sint_of_int32 [of "sint n - 1"] sint_bounds32 [of n] by simp

lemma sint_neg: "- (2 ^ 31) < sint (n :: u32) \<Longrightarrow> sint (- n) = - sint n"
  using sint_of_int32 [of "- sint n"] sint_bounds32 [of n] by simp

section \<open>Early returns\<close>

text \<open>
  A driver function takes the state and yields \<open>Some (ret, state)\<close>, where \<open>ret\<close> is its C
  return value, or \<open>None\<close> when it does not return (a polling loop that never ends, or a fault).
\<close>

type_synonym 's cmd = "'s \<Rightarrow> (int \<times> 's) option"

definition then_ok :: "'s cmd \<Rightarrow> 's cmd \<Rightarrow> 's cmd" where
  "then_ok m k s = do { (ret, s1) \<leftarrow> m s; if ret < 0 then Some (ret, s1) else k s1 }"

fun run_cmds :: "'s cmd list \<Rightarrow> 's cmd" where
  "run_cmds [] s = Some (0, s)"
| "run_cmds [m] s = m s"
| "run_cmds (m # n # ms) s = then_ok m (run_cmds (n # ms)) s"

lemma run_cmds_fun: "run_cmds [m] = m" "run_cmds (m # n # ms) = then_ok m (run_cmds (n # ms))"
  by (rule ext, simp)+

text \<open>An entry of a table of shell commands: its name, help, handler and, if the shell is to check them,
  the numbers of mandatory words (the command's own name is the first) and of optional ones.\<close>

datatype 'c subcmd =
    SHELL_CMD_ARG (sub_name: string) (sub_help: string) (sub_handler: 'c) nat nat
  | SHELL_CMD (sub_name: string) (sub_help: string) (sub_handler: 'c)

primrec admits :: "'c subcmd \<Rightarrow> nat \<Rightarrow> bool" where
  "admits (SHELL_CMD_ARG n h c mandatory optional) argc \<longleftrightarrow> argc \<in> {mandatory..mandatory + optional}"
| "admits (SHELL_CMD n h c) argc \<longleftrightarrow> True"

end
