(* ===== verification/Float_Grid.thy ===== *)
theory Float_Grid
  imports Prelude Complex_Main
begin

text \<open>
  Correct rounding to the nearest floating-point number, ties to even. The nonnegative
  numbers of an IEEE-754 binary format, read as unsigned bit patterns, are an increasing
  sequence \<open>mag p 0, mag p 1, \<dots>\<close> (the unit is the smallest subnormal), so a real is rounded
  by a binary search for the pattern at or below it and one comparison with the midpoint.
  The locale \<open>float_grid\<close> is the interface between such a sequence and rounding: it holds
  the facts about rounding (monotone, exact on the grid, half a gap off at most), and it is
  shown for the grid of every binary format (\<open>mag_grid\<close>).
\<close>

section \<open>Binary search on bit patterns\<close>

primrec greatest :: "(nat \<Rightarrow> bool) \<Rightarrow> nat \<Rightarrow> nat \<Rightarrow> nat" where
  "greatest P 0 acc = acc"
| "greatest P (Suc k) acc =
     (if P (acc + 2 ^ k) then greatest P k (acc + 2 ^ k) else greatest P k acc)"

lemma greatest_numeral [dev_eval]:
  "greatest P (numeral v) acc =
    (if P (acc + 2 ^ pred_numeral v) then greatest P (pred_numeral v) (acc + 2 ^ pred_numeral v)
     else greatest P (pred_numeral v) acc)"
  by (simp add: numeral_eq_Suc)

lemma greatest_one [dev_eval]:
  "greatest P 1 acc = (if P (acc + 1) then acc + 1 else acc)"
  by simp

lemma greatest_bounds: "acc \<le> greatest P k acc \<and> greatest P k acc < acc + 2 ^ k"
proof (induction k arbitrary: acc)
  case (Suc k)
  show ?case
    using Suc [of acc] Suc [of "acc + 2 ^ k"] by auto
qed simp

lemma greatest_sat: "P acc \<Longrightarrow> P (greatest P k acc)"
  by (induction k arbitrary: acc) auto

lemma greatest_above:
  assumes anti: "\<And>m n. m \<le> n \<Longrightarrow> P n \<Longrightarrow> P m"
  shows "greatest P k acc < m \<Longrightarrow> m < acc + 2 ^ k \<Longrightarrow> \<not> P m"
proof (induction k arbitrary: acc)
  case (Suc k)
  show ?case
  proof (cases "P (acc + 2 ^ k)")
    case True
    with Suc.prems show ?thesis by (intro Suc.IH [of "acc + 2 ^ k"]) simp_all
  next
    case False
    then have g: "greatest P k acc < m" using Suc.prems by simp
    show ?thesis
    proof (cases "m < acc + 2 ^ k")
      case True
      with g show ?thesis by (rule Suc.IH)
    next
      case notlt: False
      with False anti show ?thesis by (meson not_less)
    qed
  qed
qed simp

section \<open>Rounding to nearest, ties to even\<close>

text \<open>
  \<open>ge t\<close> and \<open>gt t\<close> tell whether \<open>t\<close>, counted in half units, is at most (is below) the
  number to round; \<open>tp\<close> is the pattern of infinity, \<open>k\<close> the number of bits of a pattern.
\<close>

definition rnd_by :: "(nat \<Rightarrow> nat) \<Rightarrow> nat \<Rightarrow> nat \<Rightarrow> (nat \<Rightarrow> bool) \<Rightarrow> (nat \<Rightarrow> bool) \<Rightarrow> nat" where
  [dev_eval]: "rnd_by g tp k ge gt =
    (let n = greatest (\<lambda>n. n \<le> tp \<and> ge (2 * g n)) k 0; t = g n + g (Suc n)
     in if n = tp then n
        else if gt t then Suc n
        else if ge t then (if even n then n else Suc n)
        else n)"

definition rnd_real :: "(nat \<Rightarrow> nat) \<Rightarrow> nat \<Rightarrow> nat \<Rightarrow> real \<Rightarrow> nat" where
  "rnd_real g tp k x = rnd_by g tp k (\<lambda>t. real t \<le> 2 * x) (\<lambda>t. real t < 2 * x)"

definition rnd_frac :: "(nat \<Rightarrow> nat) \<Rightarrow> nat \<Rightarrow> nat \<Rightarrow> nat \<Rightarrow> nat \<Rightarrow> nat" where
  [dev_eval]: "rnd_frac g tp k a b = rnd_by g tp k (\<lambda>t. t * b \<le> 2 * a) (\<lambda>t. t * b < 2 * a)"

definition rnd_sqrt :: "(nat \<Rightarrow> nat) \<Rightarrow> nat \<Rightarrow> nat \<Rightarrow> nat \<Rightarrow> nat" where
  [dev_eval]: "rnd_sqrt g tp k a = rnd_by g tp k (\<lambda>t. t * t \<le> 4 * a) (\<lambda>t. t * t < 4 * a)"

lemma rnd_frac_real:
  assumes "0 < b"
  shows "rnd_frac g tp k a b = rnd_real g tp k (real a / real b)"
proof -
  have "t * b \<le> 2 * a \<longleftrightarrow> real t \<le> 2 * (real a / real b)" for t
    using assms by (simp add: field_simps flip: of_nat_mult)
      (metis (mono_tags) of_nat_le_iff of_nat_mult of_nat_numeral)
  moreover have "t * b < 2 * a \<longleftrightarrow> real t < 2 * (real a / real b)" for t
    using assms by (simp add: field_simps flip: of_nat_mult)
      (metis (mono_tags) of_nat_less_iff of_nat_mult of_nat_numeral)
  ultimately show ?thesis by (simp add: rnd_frac_def rnd_real_def)
qed

lemma rnd_sqrt_real: "rnd_sqrt g tp k a = rnd_real g tp k (sqrt (real a))"
proof -
  have s: "2 * sqrt (real a) = sqrt (real (4 * a))"
    by (simp add: real_sqrt_mult)
  have "t * t \<le> 4 * a \<longleftrightarrow> real t \<le> 2 * sqrt (real a)" for t
    unfolding s by (metis abs_of_nat of_nat_le_iff of_nat_mult real_sqrt_abs2 real_sqrt_le_iff)
  moreover have "t * t < 4 * a \<longleftrightarrow> real t < 2 * sqrt (real a)" for t
    unfolding s by (metis abs_of_nat of_nat_less_iff of_nat_mult real_sqrt_abs2 real_sqrt_less_iff)
  ultimately show ?thesis by (simp add: rnd_sqrt_def rnd_real_def)
qed

section \<open>The interface: an increasing grid of representable numbers\<close>

locale float_grid =
  fixes g :: "nat \<Rightarrow> nat" and tp k :: nat
  assumes grid_zero: "g 0 = 0"
    and grid_less: "g n < g (Suc n)"
    and top_less: "tp < 2 ^ k"
begin

lemma strict_mono_grid: "strict_mono g"
  using grid_less by (rule strict_mono_Suc_iff [THEN iffD2, rule_format])

lemma grid_less_iff: "g m < g n \<longleftrightarrow> m < n"
  using strict_mono_grid by (rule strict_mono_less)

lemma grid_le_iff: "g m \<le> g n \<longleftrightarrow> m \<le> n"
  using strict_mono_grid by (rule strict_mono_less_eq)

text \<open>The pattern at or below a number.\<close>

definition below :: "real \<Rightarrow> nat" where
  "below x = greatest (\<lambda>n. n \<le> tp \<and> real (2 * g n) \<le> 2 * x) k 0"

lemma below_le_top: "0 \<le> x \<Longrightarrow> below x \<le> tp"
  unfolding below_def
  using greatest_sat [of "\<lambda>n. n \<le> tp \<and> real (2 * g n) \<le> 2 * x" 0 k] grid_zero by auto

lemma grid_below_le: "0 \<le> x \<Longrightarrow> real (g (below x)) \<le> x"
  unfolding below_def
  using greatest_sat [of "\<lambda>n. n \<le> tp \<and> real (2 * g n) \<le> 2 * x" 0 k] grid_zero by auto

lemma below_unique:
  assumes "0 \<le> x" "below x < m" "m \<le> tp"
  shows "x < real (g m)"
proof -
  let ?P = "\<lambda>n. n \<le> tp \<and> real (2 * g n) \<le> 2 * x"
  have anti: "?P i" if "i \<le> j" "?P j" for i j
    using that grid_le_iff [of i j] by (smt (verit) le_trans mult_le_mono2 of_nat_le_iff)
  have "greatest ?P k 0 < m" using assms(2) by (simp add: below_def)
  moreover have "m < 0 + 2 ^ k" using assms(3) top_less by simp
  ultimately have "\<not> ?P m"
    using anti by (intro greatest_above [of ?P k 0 m]) blast+
  with assms(3) show ?thesis by simp
qed

lemma below_ge: "0 \<le> x \<Longrightarrow> m \<le> tp \<Longrightarrow> real (g m) \<le> x \<Longrightarrow> m \<le> below x"
  using below_unique [of x m] by (meson not_le)

lemma below_mono: "0 \<le> x \<Longrightarrow> x \<le> y \<Longrightarrow> below x \<le> below y"
  by (meson below_ge below_le_top dual_order.trans grid_below_le)

lemma below_grid: "m \<le> tp \<Longrightarrow> below (real (g m)) = m"
  by (metis below_ge below_le_top grid_below_le grid_le_iff le_antisym of_nat_0_le_iff
      of_nat_le_iff order_refl)

abbreviation (input) rnd :: "real \<Rightarrow> nat" where
  "rnd x \<equiv> rnd_real g tp k x"

lemma rnd_unfold:
  "rnd x = (let n = below x; t = real (g n + g (Suc n)) in
     if n = tp then n else if t < 2 * x then Suc n
     else if t = 2 * x then (if even n then n else Suc n) else n)"
  by (simp add: rnd_real_def rnd_by_def below_def Let_def)

lemma rnd_bounds: "below x \<le> rnd x \<and> rnd x \<le> Suc (below x)"
  by (simp add: rnd_unfold Let_def)

lemma rnd_le_top: "0 \<le> x \<Longrightarrow> rnd x \<le> tp"
  using below_le_top [of x] by (simp add: rnd_unfold Let_def)

text \<open>A representable number rounds to itself.\<close>

lemma rnd_grid:
  assumes "m \<le> tp"
  shows "rnd (real (g m)) = m"
proof -
  have b: "below (real (g m)) = m" using assms by (rule below_grid)
  have "real (g m) < real (g (Suc m))" using grid_less [of m] by (simp only: of_nat_less_iff)
  then have "\<not> real (g m + g (Suc m)) \<le> 2 * real (g m)" by simp
  then show ?thesis unfolding rnd_unfold b Let_def by auto
qed

text \<open>Rounding is monotone.\<close>

lemma rnd_mono:
  assumes "0 \<le> x" "x \<le> y"
  shows "rnd x \<le> rnd y"
proof (cases "below x = below y")
  case True
  define t where "t = real (g (below y) + g (Suc (below y)))"
  have "t < 2 * y" if "t < 2 * x" using that assms(2) by linarith
  moreover have "t < 2 * y \<or> t = 2 * y" if "t = 2 * x" using that assms(2) by linarith
  ultimately show ?thesis by (auto simp only: rnd_unfold Let_def True t_def [symmetric] split: if_split)
next
  case False
  with below_mono [OF assms] have "Suc (below x) \<le> below y" by simp
  with rnd_bounds [of x] rnd_bounds [of y] show ?thesis by linarith
qed

lemma rnd_ge: "m \<le> tp \<Longrightarrow> real (g m) \<le> x \<Longrightarrow> m \<le> rnd x"
  using rnd_mono [of "real (g m)" x] rnd_grid [of m] by simp

lemma rnd_le: "m \<le> tp \<Longrightarrow> 0 \<le> x \<Longrightarrow> x \<le> real (g m) \<Longrightarrow> rnd x \<le> m"
  using rnd_mono [of x "real (g m)"] rnd_grid [of m] by simp

text \<open>A number below the midpoint after a pattern does not round above that pattern.\<close>

lemma rnd_le_mid:
  assumes "m < tp" "0 \<le> x" "2 * x < real (g m + g (Suc m))"
  shows "rnd x \<le> m"
proof -
  have "g m + g (Suc m) \<le> 2 * g (Suc m)" using grid_less [of m] by simp
  with assms(3) have "x < real (g (Suc m))" by linarith
  then have "below x < Suc m"
    using assms grid_below_le [of x] grid_less_iff [of "below x" "Suc m"]
    by (meson le_less_trans of_nat_less_iff)
  with assms show ?thesis by (cases "below x = m") (auto simp: rnd_unfold Let_def)
qed

text \<open>The error of rounding is at most half the gap it falls into.\<close>

lemma rnd_error:
  assumes "0 \<le> x" "below x < tp"
  shows "2 * \<bar>real (g (rnd x)) - x\<bar> \<le> real (g (Suc (below x)) - g (below x))"
proof -
  have "real (g (below x)) \<le> x" using assms(1) by (rule grid_below_le)
  moreover have "x < real (g (Suc (below x)))" using assms by (intro below_unique) simp_all
  ultimately show ?thesis
    using assms(2) grid_less [of "below x"]
    by (auto simp: rnd_unfold Let_def of_nat_diff abs_if)
qed

end

section \<open>The binary formats\<close>

text \<open>\<open>mag p n\<close> is the number the bit pattern \<open>n\<close> stands for in a format with \<open>p\<close> mantissa
  bits, in units of the smallest subnormal: exponent field zero is the subnormal range.\<close>

definition mag :: "nat \<Rightarrow> nat \<Rightarrow> nat" where
  "mag p n =
    (if n div 2 ^ p = 0 then n else (2 ^ p + n mod 2 ^ p) * 2 ^ (n div 2 ^ p - 1))"

definition gap :: "nat \<Rightarrow> nat \<Rightarrow> nat" where
  "gap p n = 2 ^ (n div 2 ^ p - 1)"

lemma gap_pos: "0 < gap p n"
  by (simp add: gap_def)

lemma mag_Suc: "mag p (Suc n) = mag p n + gap p n"
proof (cases "Suc n mod 2 ^ p = 0")
  case True
  then have m: "n mod 2 ^ p = 2 ^ p - 1"
    by (metis Suc_eq_plus1 diff_Suc_1 mod_Suc zero_neq_one nat.simps(3))
  have d: "Suc n div 2 ^ p = Suc (n div 2 ^ p)" using True by (simp add: div_Suc)
  have n: "n = n div 2 ^ p * 2 ^ p + (2 ^ p - 1)" using m by (metis div_mult_mod_eq)
  show ?thesis
  proof (cases "n div 2 ^ p")
    case 0
    with n have "n = 2 ^ p - 1" by simp
    with 0 True d show ?thesis by (simp add: mag_def gap_def)
  next
    case (Suc e)
    have "mag p (Suc n) = 2 ^ p * 2 ^ Suc e" using True d Suc by (simp add: mag_def)
    moreover have "mag p n + gap p n = Suc (2 ^ p + (2 ^ p - 1)) * 2 ^ e"
      using Suc m by (simp add: mag_def gap_def del: One_nat_def Suc_diff_1)
    moreover have "Suc (2 ^ p + (2 ^ p - 1)) = (2 * 2 ^ p :: nat)" by simp
    ultimately show ?thesis by (metis mult.assoc mult.commute power_Suc)
  qed
next
  case False
  then have m: "Suc n mod 2 ^ p = Suc (n mod 2 ^ p)" by (auto simp: mod_Suc split: if_splits)
  have d: "Suc n div 2 ^ p = n div 2 ^ p" using False by (simp add: div_Suc)
  show ?thesis using m d by (simp add: mag_def gap_def)
qed

lemma mag_zero [dev_eval]: "mag p 0 = 0"
  by (simp add: mag_def)

lemmas mag_numeral [dev_eval] = mag_def [where n = "numeral v"] for v
lemmas mag_one [dev_eval] = mag_def [where n = 1]

text \<open>In the normal range a gap is a fixed fraction of the number before it.\<close>

lemma mag_normal:
  assumes "2 ^ p \<le> n"
  shows "2 ^ p * gap p n \<le> mag p n" and "mag p n < 2 ^ Suc p * gap p n"
proof -
  have "n div 2 ^ p \<noteq> 0" using assms by (simp add: div_eq_0_iff)
  then have m: "mag p n = (2 ^ p + n mod 2 ^ p) * gap p n" by (simp add: mag_def gap_def)
  show "2 ^ p * gap p n \<le> mag p n" by (simp add: m)
  have "n mod 2 ^ p < 2 ^ p" by simp
  then have "2 ^ p + n mod 2 ^ p < 2 ^ Suc p" by simp
  then show "mag p n < 2 ^ Suc p * gap p n"
    unfolding m using gap_pos by (simp add: mult_strict_right_mono)
qed

text \<open>The pattern of infinity of a format with \<open>p\<close> mantissa and \<open>e\<close> exponent bits.\<close>

definition inf_ix :: "nat \<Rightarrow> nat \<Rightarrow> nat" where
  [dev_eval]: "inf_ix p e = (2 ^ e - 1) * 2 ^ p"

lemma mag_grid: "0 < e \<Longrightarrow> float_grid (mag p) (inf_ix p e) (e + p)"
  by unfold_locales (simp_all add: mag_zero mag_Suc gap_pos inf_ix_def power_add diff_mult_distrib)

end
