(* ===== verification/C_Float.thy ===== *)
theory C_Float
  imports Float_Grid
begin

text \<open>
  C's \<open>float\<close> and \<open>double\<close> as IEEE-754 binary numbers with round-to-nearest-even, as the
  Cortex-M33's FPU (and the compiler's soft double) compute them. A number is its sign and
  the rest of its bit pattern; a \<open>float\<close> object is the 32-bit pattern itself, so that
  moving it through a union of \<open>float\<close> and \<open>uint32_t\<close> keeps its bits. All NaN results of
  arithmetic are one quiet NaN; the sources only ever compare them.
\<close>

section \<open>Arithmetic on sign and pattern\<close>

type_synonym fpn = "bool \<times> nat"

text \<open>The exponent of the unit: the smallest subnormal is two to the minus \<open>ux\<close>.\<close>

definition ux :: "nat \<Rightarrow> nat \<Rightarrow> nat" where
  [dev_eval]: "ux p e = 2 ^ (e - 1) - 2 + p"

definition qnan :: "nat \<Rightarrow> nat \<Rightarrow> fpn" where
  [dev_eval]: "qnan p e = (False, inf_ix p e + 2 ^ (p - 1))"

fun ival :: "nat \<Rightarrow> fpn \<Rightarrow> int" where
  "ival p (s, n) = (if s then - int (mag p n) else int (mag p n))"

fun fkey :: "fpn \<Rightarrow> int" where
  "fkey (s, n) = (if s then - int n else int n)"

definition fp_nan :: "nat \<Rightarrow> nat \<Rightarrow> fpn \<Rightarrow> bool" where
  [dev_eval]: "fp_nan p e x \<longleftrightarrow> inf_ix p e < snd x"

definition fp_lt :: "nat \<Rightarrow> nat \<Rightarrow> fpn \<Rightarrow> fpn \<Rightarrow> bool" where
  [dev_eval]: "fp_lt p e x y \<longleftrightarrow> \<not> fp_nan p e x \<and> \<not> fp_nan p e y \<and> fkey x < fkey y"

definition fp_le :: "nat \<Rightarrow> nat \<Rightarrow> fpn \<Rightarrow> fpn \<Rightarrow> bool" where
  [dev_eval]: "fp_le p e x y \<longleftrightarrow> \<not> fp_nan p e x \<and> \<not> fp_nan p e y \<and> fkey x \<le> fkey y"

fun fp_neg :: "fpn \<Rightarrow> fpn" where
  "fp_neg (s, n) = (\<not> s, n)"

abbreviation rfrac :: "nat \<Rightarrow> nat \<Rightarrow> nat \<Rightarrow> nat \<Rightarrow> nat" where
  "rfrac p e \<equiv> rnd_frac (mag p) (inf_ix p e) (e + p)"

fun fp_add :: "nat \<Rightarrow> nat \<Rightarrow> fpn \<Rightarrow> fpn \<Rightarrow> fpn" where
  "fp_add p e (sa, na) (sb, nb) =
    (let i = inf_ix p e; z = ival p (sa, na) + ival p (sb, nb)
     in if i < na \<or> i < nb then qnan p e
        else if na = i then (if nb = i \<and> sa \<noteq> sb then qnan p e else (sa, i))
        else if nb = i then (sb, i)
        else if z = 0 then (sa \<and> sb, 0)
        else (z < 0, rfrac p e (nat \<bar>z\<bar>) 1))"

definition fp_sub :: "nat \<Rightarrow> nat \<Rightarrow> fpn \<Rightarrow> fpn \<Rightarrow> fpn" where
  [dev_eval]: "fp_sub p e x y = fp_add p e x (fp_neg y)"

fun fp_mul :: "nat \<Rightarrow> nat \<Rightarrow> fpn \<Rightarrow> fpn \<Rightarrow> fpn" where
  "fp_mul p e (sa, na) (sb, nb) =
    (let i = inf_ix p e; s = (sa \<noteq> sb)
     in if i < na \<or> i < nb then qnan p e
        else if na = i \<or> nb = i then (if na = 0 \<or> nb = 0 then qnan p e else (s, i))
        else (s, rfrac p e (mag p na * mag p nb) (2 ^ ux p e)))"

fun fp_div :: "nat \<Rightarrow> nat \<Rightarrow> fpn \<Rightarrow> fpn \<Rightarrow> fpn" where
  "fp_div p e (sa, na) (sb, nb) =
    (let i = inf_ix p e; s = (sa \<noteq> sb)
     in if i < na \<or> i < nb then qnan p e
        else if na = i then (if nb = i then qnan p e else (s, i))
        else if nb = i then (s, 0)
        else if nb = 0 then (if na = 0 then qnan p e else (s, i))
        else (s, rfrac p e (mag p na * 2 ^ ux p e) (mag p nb)))"

fun fp_sqrt :: "nat \<Rightarrow> nat \<Rightarrow> fpn \<Rightarrow> fpn" where
  "fp_sqrt p e (s, n) =
    (let i = inf_ix p e
     in if i < n then qnan p e
        else if n = 0 then (s, 0)
        else if s then qnan p e
        else if n = i then (False, i)
        else (False, rnd_sqrt (mag p) i (e + p) (mag p n * 2 ^ ux p e)))"

text \<open>A decimal literal \<open>a / b\<close>, and the integer part, rounded towards zero.\<close>

definition fp_lit :: "nat \<Rightarrow> nat \<Rightarrow> nat \<Rightarrow> nat \<Rightarrow> fpn" where
  [dev_eval]: "fp_lit p e a b = (False, rfrac p e (a * 2 ^ ux p e) b)"

fun fp_trunc :: "nat \<Rightarrow> nat \<Rightarrow> fpn \<Rightarrow> int" where
  "fp_trunc p e (s, n) =
     (let t = int (mag p n div 2 ^ ux p e) in if s then - t else t)"

text \<open>\<open>lround\<close>: to the nearest integer, halves away from zero.\<close>

fun fp_lround :: "nat \<Rightarrow> nat \<Rightarrow> fpn \<Rightarrow> int" where
  "fp_lround p e (s, n) =
     (let t = int ((2 * mag p n + 2 ^ ux p e) div 2 ^ Suc (ux p e)) in if s then - t else t)"

section \<open>Values as reals, and what the operations compute\<close>

definition rval :: "nat \<Rightarrow> nat \<Rightarrow> fpn \<Rightarrow> real" where
  "rval p e x = real_of_int (ival p x) / 2 ^ ux p e"

text \<open>The nearest representable number (beyond the range: the magnitude of the pattern of
  infinity).\<close>

definition rr :: "nat \<Rightarrow> nat \<Rightarrow> real \<Rightarrow> real" where
  "rr p e x =
     sgn x * real (mag p (rnd_real (mag p) (inf_ix p e) (e + p) (\<bar>x\<bar> * 2 ^ ux p e))) / 2 ^ ux p e"

locale binary_format =
  fixes p e :: nat
  assumes exp_bits: "0 < e"
begin

sublocale float_grid "mag p" "inf_ix p e" "e + p"
  using exp_bits by (rule mag_grid)

abbreviation (input) unit_of :: real where
  "unit_of \<equiv> 2 ^ ux p e"

lemma rval_pair: "rval p e (s, n) = (if s then - 1 else 1) * real (mag p n) / unit_of"
  by (simp add: rval_def)

lemma abs_rval: "\<bar>rval p e x\<bar> = real (mag p (snd x)) / unit_of"
  by (cases x) (simp add: rval_pair)

lemma rr_zero [simp]: "rr p e 0 = 0"
  by (simp add: rr_def)

lemma rr_neg: "rr p e (- x) = - rr p e x"
  by (simp add: rr_def sgn_minus)

lemma rr_pos: "0 < x \<Longrightarrow> rr p e x = real (mag p (rnd (x * unit_of))) / unit_of"
  by (simp add: rr_def)

lemma rnd_zero: "rnd 0 = 0"
  using rnd_grid [of 0] by (simp add: mag_zero)

lemma rr_nonneg: "0 \<le> x \<Longrightarrow> rr p e x = real (mag p (rnd (x * unit_of))) / unit_of"
  by (cases "x = 0") (simp_all add: rr_pos rnd_zero mag_zero)

lemma rr_ge_zero: "0 \<le> x \<Longrightarrow> 0 \<le> rr p e x"
  by (simp add: rr_nonneg)

lemma rr_mono_nonneg: "0 \<le> x \<Longrightarrow> x \<le> y \<Longrightarrow> rr p e x \<le> rr p e y"
  by (simp add: rr_nonneg divide_right_mono grid_le_iff rnd_mono)

lemma rr_mono: "x \<le> y \<Longrightarrow> rr p e x \<le> rr p e y"
proof -
  assume le: "x \<le> y"
  consider "0 \<le> x" | "x < 0" "0 \<le> y" | "y < 0" by linarith
  then show ?thesis
  proof cases
    case 1
    then show ?thesis using le by (rule rr_mono_nonneg)
  next
    case 2
    have "0 \<le> rr p e (- x)" using 2 by (intro rr_ge_zero) simp
    with rr_ge_zero [of y] 2 show ?thesis by (simp add: rr_neg)
  next
    case 3
    with le have "rr p e (- y) \<le> rr p e (- x)" by (intro rr_mono_nonneg) simp_all
    then show ?thesis by (simp add: rr_neg)
  qed
qed

lemma rr_rval: "snd x \<le> inf_ix p e \<Longrightarrow> rr p e (rval p e x) = rval p e x"
proof -
  assume le: "snd x \<le> inf_ix p e"
  obtain s n where x: "x = (s, n)" by (cases x)
  have "rr p e (real (mag p n) / unit_of) = real (mag p n) / unit_of"
    using le x by (simp add: rr_nonneg rnd_grid)
  then show ?thesis by (cases s) (simp_all add: x rval_pair rr_neg)
qed

text \<open>Rounding stays on the side of a representable number.\<close>

lemma rr_le: "snd b \<le> inf_ix p e \<Longrightarrow> x \<le> rval p e b \<Longrightarrow> rr p e x \<le> rval p e b"
  using rr_mono [of x "rval p e b"] rr_rval [of b] by simp

lemma rr_ge: "snd b \<le> inf_ix p e \<Longrightarrow> rval p e b \<le> x \<Longrightarrow> rval p e b \<le> rr p e x"
  using rr_mono [of "rval p e b" x] rr_rval [of b] by simp

lemma finite_iff:
  "snd x < inf_ix p e \<longleftrightarrow> \<bar>rval p e x\<bar> < rval p e (False, inf_ix p e)"
  unfolding abs_rval by (simp add: rval_pair divide_less_cancel grid_less_iff)

lemma fkey_less: "fkey x < fkey y \<longleftrightarrow> rval p e x < rval p e y"
proof -
  obtain s m where x: "x = (s, m)" by (cases x)
  obtain t n where y: "y = (t, n)" by (cases y)
  have pos: "0 < mag p i \<longleftrightarrow> 0 < i" for i using grid_less_iff [of 0 i] by (simp add: mag_zero)
  have "fkey x < fkey y \<longleftrightarrow> ival p x < ival p y"
    using pos [of m] pos [of n] grid_less_iff [of m n] grid_less_iff [of n m]
    by (cases s; cases t) (auto simp: x y)
  then show ?thesis by (simp add: rval_def divide_less_cancel)
qed

lemma fkey_le: "fkey x \<le> fkey y \<longleftrightarrow> rval p e x \<le> rval p e y"
  using fkey_less [of y x] by linarith

section \<open>Each operation is the exact result, rounded\<close>

lemma rfrac_rr:
  "0 < b \<Longrightarrow> real (mag p (rfrac p e a b)) / unit_of = rr p e (real a / real b / unit_of)"
  by (simp add: rnd_frac_real rr_nonneg)

lemma rfrac_le_top: "0 < b \<Longrightarrow> rfrac p e a b \<le> inf_ix p e"
  by (simp add: rnd_frac_real rnd_le_top)

lemma rval_add:
  assumes "snd x < inf_ix p e" "snd y < inf_ix p e"
  shows "rval p e (fp_add p e x y) = rr p e (rval p e x + rval p e y)
    \<and> snd (fp_add p e x y) \<le> inf_ix p e"
proof -
  obtain s m where x: "x = (s, m)" by (cases x)
  obtain t n where y: "y = (t, n)" by (cases y)
  define z where "z = ival p x + ival p y"
  have sum: "rval p e x + rval p e y = real_of_int z / unit_of"
    by (simp add: rval_def z_def add_divide_distrib)
  have f: "fp_add p e x y = (if z = 0 then (s \<and> t, 0) else (z < 0, rfrac p e (nat \<bar>z\<bar>) 1))"
    using assms by (simp add: x y z_def Let_def)
  have r: "real (mag p (rfrac p e (nat \<bar>z\<bar>) 1)) / unit_of = rr p e (\<bar>real_of_int z\<bar> / unit_of)"
    using rfrac_rr [of 1 "nat \<bar>z\<bar>"] by simp
  show ?thesis
  proof (cases "z < 0")
    case True
    then have "rr p e (real_of_int z / unit_of) = - rr p e (\<bar>real_of_int z\<bar> / unit_of)"
      by (simp flip: rr_neg)
    with True show ?thesis using r rfrac_le_top [of 1] by (simp add: f sum rval_pair)
  next
    case False
    then show ?thesis using r rfrac_le_top [of 1] by (simp add: f sum rval_pair mag_zero)
  qed
qed

lemma rval_neg: "rval p e (fp_neg x) = - rval p e x" and snd_neg: "snd (fp_neg x) = snd x"
  by (cases x; simp add: rval_pair)+

lemma rval_sub:
  assumes "snd x < inf_ix p e" "snd y < inf_ix p e"
  shows "rval p e (fp_sub p e x y) = rr p e (rval p e x - rval p e y)
    \<and> snd (fp_sub p e x y) \<le> inf_ix p e"
  using rval_add [of x "fp_neg y"] assms by (simp add: fp_sub_def rval_neg snd_neg)

lemma rval_mul:
  assumes "snd x < inf_ix p e" "snd y < inf_ix p e"
  shows "rval p e (fp_mul p e x y) = rr p e (rval p e x * rval p e y)
    \<and> snd (fp_mul p e x y) \<le> inf_ix p e"
proof -
  obtain s m where x: "x = (s, m)" by (cases x)
  obtain t n where y: "y = (t, n)" by (cases y)
  let ?r = "rfrac p e (mag p m * mag p n) (2 ^ ux p e)"
  have f: "fp_mul p e x y = (s \<noteq> t, ?r)" using assms by (simp add: x y Let_def)
  have "real (mag p ?r) / unit_of = rr p e (real (mag p m) / unit_of * (real (mag p n) / unit_of))"
    using rfrac_rr [of "2 ^ ux p e" "mag p m * mag p n"] by simp
  then show ?thesis
    using rfrac_le_top [of "2 ^ ux p e"] unfolding f unfolding x y
    by (cases s; cases t) (simp_all add: rval_pair rr_neg)
qed

lemma rval_div:
  assumes "snd x < inf_ix p e" "snd y < inf_ix p e" "rval p e y \<noteq> 0"
  shows "rval p e (fp_div p e x y) = rr p e (rval p e x / rval p e y)
    \<and> snd (fp_div p e x y) \<le> inf_ix p e"
proof -
  obtain s m where x: "x = (s, m)" by (cases x)
  obtain t n where y: "y = (t, n)" by (cases y)
  have n: "n \<noteq> 0" "0 < mag p n"
    using assms(3) grid_less_iff [of 0 n] by (auto simp: y rval_pair mag_zero)
  let ?r = "rfrac p e (mag p m * 2 ^ ux p e) (mag p n)"
  have f: "fp_div p e x y = (s \<noteq> t, ?r)" using assms n by (simp add: x y Let_def)
  have "real (mag p ?r) / unit_of = rr p e ((real (mag p m) / unit_of) / (real (mag p n) / unit_of))"
    using rfrac_rr [OF n(2), of "mag p m * 2 ^ ux p e"] by simp
  then show ?thesis
    using rfrac_le_top [OF n(2)] unfolding f unfolding x y
    by (cases s; cases t) (simp_all add: rval_pair rr_neg)
qed

lemma rval_sqrt:
  assumes "snd x < inf_ix p e" "0 \<le> rval p e x"
  shows "rval p e (fp_sqrt p e x) = rr p e (sqrt (rval p e x))
    \<and> snd (fp_sqrt p e x) \<le> inf_ix p e"
proof -
  obtain s n where x: "x = (s, n)" by (cases x)
  show ?thesis
  proof (cases "n = 0")
    case True
    then show ?thesis by (simp add: x Let_def rval_pair mag_zero)
  next
    case False
    then have "0 < mag p n" using grid_less_iff [of 0 n] by (simp add: mag_zero)
    with assms(2) have s: "\<not> s" by (auto simp: x rval_pair field_simps)
    let ?r = "rnd_sqrt (mag p) (inf_ix p e) (e + p) (mag p n * 2 ^ ux p e)"
    have f: "fp_sqrt p e x = (False, ?r)" using assms False s by (simp add: x Let_def)
    have "sqrt (real (mag p n) / unit_of) * unit_of
        = sqrt (real (mag p n) / unit_of) * sqrt (unit_of * unit_of)" by simp
    also have "\<dots> = sqrt (real (mag p n) / unit_of * (unit_of * unit_of))"
      by (simp only: real_sqrt_mult)
    also have "\<dots> = sqrt (real (mag p n * 2 ^ ux p e))" by simp
    finally have "real (mag p ?r) / unit_of = rr p e (sqrt (real (mag p n) / unit_of))"
      by (simp add: rnd_sqrt_real rr_nonneg)
    moreover have "?r \<le> inf_ix p e" by (simp add: rnd_sqrt_real rnd_le_top)
    ultimately show ?thesis using s unfolding f by (simp add: x rval_pair)
  qed
qed

section \<open>The error of rounding, relative to the number\<close>

lemma rval_True_le: "rval p e (True, m) \<le> 0"
  by (simp add: rval_pair)

lemma mag_pos: "0 < m \<Longrightarrow> 0 < mag p m"
  using grid_less_iff [of 0 m] by (simp add: mag_zero)

lemma rr_rel_error:
  assumes "real (mag p (2 ^ p)) \<le> y * unit_of" "y * unit_of < real (mag p (inf_ix p e))"
    "2 ^ p \<le> inf_ix p e"
  shows "\<bar>rr p e y - y\<bar> \<le> y / 2 ^ Suc p"
proof -
  let ?z = "y * unit_of"
  let ?n = "below ?z"
  have z: "0 \<le> ?z" using assms(1) by (rule order_trans [rotated]) simp
  then have y: "0 \<le> y" by (meson not_le zero_le_mult_iff zero_less_numeral zero_less_power)
  have n: "2 ^ p \<le> ?n" using z assms(3,1) by (rule below_ge)
  have nz: "real (mag p ?n) \<le> ?z" using z by (rule grid_below_le)
  with assms(2) have "?n < inf_ix p e" by (metis grid_less_iff le_less_trans of_nat_less_iff)
  then have err: "2 * \<bar>real (mag p (rnd ?z)) - ?z\<bar> \<le> real (gap p ?n)"
    using rnd_error [OF z] by (simp add: mag_Suc)
  have "\<bar>real (mag p (rnd ?z)) - ?z\<bar> * 2 ^ Suc p = 2 ^ p * (2 * \<bar>real (mag p (rnd ?z)) - ?z\<bar>)"
    by simp
  also have "\<dots> \<le> 2 ^ p * real (gap p ?n)" using err by (rule mult_left_mono) simp
  also have "\<dots> = real (2 ^ p * gap p ?n)" by simp
  also have "\<dots> \<le> ?z"
    by (rule order_trans [OF _ nz]) (simp only: of_nat_le_iff mag_normal(1) [OF n])
  finally have "\<bar>real (mag p (rnd ?z)) - ?z\<bar> * 2 ^ Suc p \<le> ?z" .
  moreover have "rr p e y - y = (real (mag p (rnd ?z)) - ?z) / unit_of"
    using y by (simp add: rr_nonneg diff_divide_distrib)
  ultimately show ?thesis
    by (simp only: abs_divide pos_divide_le_eq pos_le_divide_eq zero_less_power zero_less_numeral
        power_abs abs_numeral times_divide_eq_left)
qed

text \<open>Subnormal results included, where half a unit may be lost.\<close>

lemma rr_error:
  assumes "0 \<le> y" "y * unit_of < real (mag p (inf_ix p e))" "2 ^ p \<le> inf_ix p e"
  shows "\<bar>rr p e y - y\<bar> \<le> y / 2 ^ Suc p + 1 / (2 * unit_of)"
proof (cases "real (mag p (2 ^ p)) \<le> y * unit_of")
  case True
  have "0 \<le> 1 / (2 * unit_of)" by simp
  with rr_rel_error [OF True assms(2,3)] show ?thesis by linarith
next
  case False
  let ?z = "y * unit_of"
  have z: "0 \<le> ?z" using assms(1) by simp
  have "real (mag p (below ?z)) < real (mag p (2 ^ p))"
    using grid_below_le [OF z] False by linarith
  then have lt: "below ?z < 2 ^ p" by (simp add: grid_less_iff)
  then have "2 * \<bar>real (mag p (rnd ?z)) - ?z\<bar> \<le> 1"
    using rnd_error [OF z] assms(3) by (simp add: mag_Suc gap_def)
  moreover have "\<bar>rr p e y - y\<bar> * unit_of = \<bar>real (mag p (rnd ?z)) - ?z\<bar>"
  proof -
    have "rr p e y - y = (real (mag p (rnd ?z)) - ?z) / unit_of"
      using assms(1) by (simp add: rr_nonneg diff_divide_distrib)
    then show ?thesis by (simp add: abs_divide)
  qed
  ultimately have "\<bar>rr p e y - y\<bar> * (2 * unit_of) \<le> 1" by simp
  then have "\<bar>rr p e y - y\<bar> \<le> 1 / (2 * unit_of)" by (simp add: pos_le_divide_eq)
  moreover have "0 \<le> y / 2 ^ Suc p" using assms(1) by simp
  ultimately show ?thesis by linarith
qed

lemma rval_lit: "0 < b \<Longrightarrow> rval p e (fp_lit p e a b) = rr p e (real a / real b) \<and> snd (fp_lit p e a b) \<le> inf_ix p e"
  using rfrac_rr [of b "a * 2 ^ ux p e"] rfrac_le_top [of b] by (simp add: fp_lit_def rval_pair)

lemma fp_lround_error: "\<bar>real_of_int (fp_lround p e x) - rval p e x\<bar> \<le> 1 / 2"
proof -
  obtain s n where x: "x = (s, n)" by (cases x)
  define u m where um: "u = (2 ^ ux p e :: nat)" "m = mag p n"
  define q r where qr: "q = (2 * m + u) div (2 * u)" "r = (2 * m + u) mod (2 * u)"
  have u: "0 < u" by (simp add: um)
  have "2 * m + u = q * (2 * u) + r" unfolding qr by (rule div_mult_mod_eq [symmetric])
  moreover have "r < 2 * u" unfolding qr using u by (intro mod_less_divisor) simp
  ultimately have "real (2 * m + u) = real (q * (2 * u) + r)" "real r < real (2 * u)" by simp_all
  then have "2 * real m + real u = 2 * (real q * real u) + real r" "real r < 2 * real u" by simp_all
  then have "\<bar>real q * real u - real m\<bar> \<le> 1 / 2 * real u" by linarith
  then have "\<bar>(real q - real m / real u) * real u\<bar> \<le> 1 / 2 * real u"
    using u by (simp add: left_diff_distrib)
  then have "\<bar>real q - real m / real u\<bar> \<le> 1 / 2" using u by (simp add: abs_mult)
  then show ?thesis
    by (cases s) (simp_all add: x rval_pair Let_def um qr abs_minus_commute)
qed

text \<open>The root of a square rounds back, at most: \<open>sqrt\<close> of the rounded \<open>v * v\<close> is not above
  \<open>v\<close>.\<close>

lemma rr_sqrt_le:
  assumes v: "v = rval p e (False, m)" "2 ^ p \<le> m" "m < inf_ix p e"
    and sq: "real (mag p (2 ^ p)) \<le> v * v * unit_of" "v * v * unit_of < real (mag p (inf_ix p e))"
    and y: "0 \<le> y" "y \<le> rr p e (v * v)"
  shows "rr p e (sqrt y) \<le> v"
proof -
  let ?w = "v + v / 2 ^ (p + 2)"
  have "0 < m" using v(2) by (rule less_le_trans [rotated]) simp
  then have v0: "0 < v" unfolding v(1) rval_pair by (simp add: mag_pos)
  have "rr p e (v * v) \<le> v * v + v * v / 2 ^ Suc p"
    using rr_rel_error [OF sq] v by simp
  also have "\<dots> < ?w * ?w" using v0 by (simp add: field_simps)
  finally have "y < ?w * ?w" using y(2) by simp
  then have "sqrt y < ?w" using v0 by (simp add: real_less_lsqrt power2_eq_square y)
  then have "2 * (sqrt y * unit_of) < 2 * (?w * unit_of)" by simp
  also have "2 * (?w * unit_of) = 2 * real (mag p m) + real (mag p m) / 2 ^ Suc p"
    by (simp add: v(1) rval_pair field_simps)
  also have "\<dots> \<le> 2 * real (mag p m) + real (gap p m)"
  proof -
    have "real (mag p m) \<le> real (2 ^ Suc p * gap p m)"
      using mag_normal(2) [OF v(2)] by (simp only: of_nat_le_iff)
    then show ?thesis by (simp add: field_simps)
  qed
  finally have "rnd (sqrt y * unit_of) \<le> m"
    using v(3) y(1) by (intro rnd_le_mid) (simp_all add: mag_Suc)
  then show ?thesis using y(1) by (simp add: rr_nonneg v(1) rval_pair divide_right_mono grid_le_iff)
qed

end

interpretation single: binary_format 23 8
  by unfold_locales simp

interpretation double: binary_format 52 11
  by unfold_locales simp

section \<open>The 32-bit float\<close>

type_synonym f32 = "32 word"

definition dec32 :: "f32 \<Rightarrow> fpn" where
  [dev_eval]: "dec32 w = (bit w 31, unat (take_bit 31 w))"

definition enc32 :: "fpn \<Rightarrow> f32" where
  [dev_eval]: "enc32 x = (if fst x then 0x80000000 else 0) + word_of_nat (snd x)"

definition f32_nan :: "f32 \<Rightarrow> bool" where
  [dev_eval]: "f32_nan a = fp_nan 23 8 (dec32 a)"

definition f32_add :: "f32 \<Rightarrow> f32 \<Rightarrow> f32" where
  [dev_eval]: "f32_add a b = enc32 (fp_add 23 8 (dec32 a) (dec32 b))"

definition f32_sub :: "f32 \<Rightarrow> f32 \<Rightarrow> f32" where
  [dev_eval]: "f32_sub a b = enc32 (fp_sub 23 8 (dec32 a) (dec32 b))"

definition f32_mul :: "f32 \<Rightarrow> f32 \<Rightarrow> f32" where
  [dev_eval]: "f32_mul a b = enc32 (fp_mul 23 8 (dec32 a) (dec32 b))"

definition f32_div :: "f32 \<Rightarrow> f32 \<Rightarrow> f32" where
  [dev_eval]: "f32_div a b = enc32 (fp_div 23 8 (dec32 a) (dec32 b))"

definition f32_sqrt :: "f32 \<Rightarrow> f32" where
  [dev_eval]: "f32_sqrt a = enc32 (fp_sqrt 23 8 (dec32 a))"

definition f32_lt :: "f32 \<Rightarrow> f32 \<Rightarrow> bool" where
  [dev_eval]: "f32_lt a b = fp_lt 23 8 (dec32 a) (dec32 b)"

definition f32_le :: "f32 \<Rightarrow> f32 \<Rightarrow> bool" where
  [dev_eval]: "f32_le a b = fp_le 23 8 (dec32 a) (dec32 b)"

definition f32_lit :: "nat \<Rightarrow> nat \<Rightarrow> f32" where
  [dev_eval]: "f32_lit a b = enc32 (fp_lit 23 8 a b)"

text \<open>
  Conversions to integers, as the target's \<open>VCVT\<close> instructions do them: rounded towards
  zero, saturated, zero for NaN. (C leaves a value out of range undefined.)
\<close>

definition f32_to_i32 :: "f32 \<Rightarrow> u32" where
  [dev_eval]: "f32_to_i32 a =
    (if f32_nan a then 0
     else word_of_int (max (- (2 ^ 31)) (min (2 ^ 31 - 1) (fp_trunc 23 8 (dec32 a)))))"

definition f32_to_u32 :: "f32 \<Rightarrow> u32" where
  [dev_eval]: "f32_to_u32 a =
    (if f32_nan a then 0
     else word_of_int (max 0 (min (2 ^ 32 - 1) (fp_trunc 23 8 (dec32 a)))))"

definition f32_lround :: "f32 \<Rightarrow> u32" where
  [dev_eval]: "f32_lround a =
    (if f32_nan a then 0
     else word_of_int (max (- (2 ^ 31)) (min (2 ^ 31 - 1) (fp_lround 23 8 (dec32 a)))))"

section \<open>Facts about the 32-bit float\<close>

definition fin :: "f32 \<Rightarrow> bool" where
  [dev_eval]: "fin a \<longleftrightarrow> snd (dec32 a) < inf_ix 23 8"

definition fv :: "f32 \<Rightarrow> real" where
  "fv a = rval 23 8 (dec32 a)"

abbreviation rf :: "real \<Rightarrow> real" where
  "rf \<equiv> rr 23 8"

lemma inf_ix_single: "inf_ix 23 8 = 2139095040"
  by (simp add: inf_ix_def)

lemma bit_31_unat: "bit (w :: 32 word) 31 \<longleftrightarrow> odd (unat w div 2147483648)"
proof -
  have "bit w 31 \<longleftrightarrow> bit (unat w) 31" by (simp add: bit_unsigned_iff)
  then show ?thesis by (simp add: bit_iff_odd)
qed

lemma take_31_unat: "unat (take_bit 31 (w :: 32 word)) = unat w mod 2147483648"
  unfolding unsigned_take_bit_eq by (simp add: take_bit_eq_mod)

lemma dec_enc: "snd x < 2 ^ 31 \<Longrightarrow> dec32 (enc32 x) = x"
proof -
  assume lt: "snd x < 2 ^ 31"
  obtain s n where x: "x = (s, n)" by (cases x)
  define m where "m = (if s then 2147483648 + n else n)"
  have "enc32 x = word_of_nat m" by (simp add: x enc32_def m_def)
  moreover have "unat (word_of_nat m :: 32 word) = m"
    using lt by (simp add: x m_def unat_of_nat)
  ultimately show ?thesis
    using lt by (simp add: dec32_def bit_31_unat take_31_unat x m_def)
qed

text \<open>
  Each operation on finite floats rounds the exact result, and the result is finite when the
  exact one is at most \<open>2 ^ 100\<close> in magnitude.
\<close>

lemma dec32_enc_le: "snd x \<le> inf_ix 23 8 \<Longrightarrow> dec32 (enc32 x) = x"
  by (rule dec_enc) (simp add: inf_ix_single)

lemma rval_pow: "rval 23 8 (False, 227 * 2 ^ 23) = 2 ^ 100"
  by (simp add: single.rval_pair mag_numeral ux_def)

lemma rval_top: "rval 23 8 (False, inf_ix 23 8) = 2 ^ 128"
  by (simp add: single.rval_pair mag_numeral inf_ix_single ux_def)

lemma fin_iff: "fin a \<longleftrightarrow> \<bar>fv a\<bar> < 2 ^ 128"
  by (simp only: fin_def fv_def single.finite_iff rval_top)

lemma rf_le_pow: "x \<le> 2 ^ 100 \<Longrightarrow> rf x \<le> 2 ^ 100"
  using single.rr_le [of "(False, 227 * 2 ^ 23)" x] by (simp only: rval_pow inf_ix_single) simp

lemma rf_abs_le: "\<bar>x\<bar> \<le> 2 ^ 100 \<Longrightarrow> \<bar>rf x\<bar> \<le> 2 ^ 100"
  using rf_le_pow [of x] rf_le_pow [of "- x"] by (simp add: single.rr_neg abs_le_iff)

lemma fv_enc:
  assumes "rval 23 8 x = rf r \<and> snd x \<le> inf_ix 23 8" "\<bar>r\<bar> \<le> 2 ^ 100"
  shows "fin (enc32 x) \<and> fv (enc32 x) = rf r"
proof -
  have "fv (enc32 x) = rf r" using assms(1) by (simp add: fv_def dec32_enc_le)
  moreover have "\<bar>rf r\<bar> < 2 ^ 128" using rf_abs_le [OF assms(2)] by simp
  ultimately show ?thesis by (simp add: fin_iff)
qed

lemma fv_mul:
  "fin a \<Longrightarrow> fin b \<Longrightarrow> \<bar>fv a * fv b\<bar> \<le> 2 ^ 100 \<Longrightarrow>
     fin (f32_mul a b) \<and> fv (f32_mul a b) = rf (fv a * fv b)"
  unfolding f32_mul_def by (rule fv_enc) (simp_all add: fv_def fin_def single.rval_mul)

lemma fv_add:
  "fin a \<Longrightarrow> fin b \<Longrightarrow> \<bar>fv a + fv b\<bar> \<le> 2 ^ 100 \<Longrightarrow>
     fin (f32_add a b) \<and> fv (f32_add a b) = rf (fv a + fv b)"
  unfolding f32_add_def by (rule fv_enc) (simp_all add: fv_def fin_def single.rval_add)

lemma fv_sub:
  "fin a \<Longrightarrow> fin b \<Longrightarrow> \<bar>fv a - fv b\<bar> \<le> 2 ^ 100 \<Longrightarrow>
     fin (f32_sub a b) \<and> fv (f32_sub a b) = rf (fv a - fv b)"
  unfolding f32_sub_def by (rule fv_enc) (simp_all add: fv_def fin_def single.rval_sub)

lemma fv_div:
  "fin a \<Longrightarrow> fin b \<Longrightarrow> fv b \<noteq> 0 \<Longrightarrow> \<bar>fv a / fv b\<bar> \<le> 2 ^ 100 \<Longrightarrow>
     fin (f32_div a b) \<and> fv (f32_div a b) = rf (fv a / fv b)"
  unfolding f32_div_def by (rule fv_enc) (simp_all add: fv_def fin_def single.rval_div)

lemma fv_sqrt:
  "fin a \<Longrightarrow> 0 \<le> fv a \<Longrightarrow> sqrt (fv a) \<le> 2 ^ 100 \<Longrightarrow>
     fin (f32_sqrt a) \<and> fv (f32_sqrt a) = rf (sqrt (fv a))"
  unfolding f32_sqrt_def by (rule fv_enc) (simp_all add: fv_def fin_def single.rval_sqrt)

lemma fin_not_nan: "fin a \<Longrightarrow> \<not> f32_nan a"
  by (simp add: fin_def f32_nan_def fp_nan_def)

lemma f32_lt_iff: "fin a \<Longrightarrow> fin b \<Longrightarrow> f32_lt a b \<longleftrightarrow> fv a < fv b"
  using fin_not_nan by (simp add: f32_lt_def fp_lt_def f32_nan_def fv_def single.fkey_less)

lemma f32_le_iff: "fin a \<Longrightarrow> fin b \<Longrightarrow> f32_le a b \<longleftrightarrow> fv a \<le> fv b"
  using fin_not_nan by (simp add: f32_le_def fp_le_def f32_nan_def fv_def single.fkey_le)

lemma rf_mono: "x \<le> y \<Longrightarrow> rf x \<le> rf y"
  by (rule single.rr_mono)

lemma rf_fv: "fin a \<Longrightarrow> rf (fv a) = fv a"
  unfolding fv_def fin_def by (rule single.rr_rval) simp

lemma rf_le_fv: "fin a \<Longrightarrow> x \<le> fv a \<Longrightarrow> rf x \<le> fv a"
  using rf_mono [of x "fv a"] by (simp add: rf_fv)

lemma rf_ge_fv: "fin a \<Longrightarrow> fv a \<le> x \<Longrightarrow> fv a \<le> rf x"
  using rf_mono [of "fv a" x] by (simp add: rf_fv)

lemma rf_sqrt_le:
  assumes "fin a" "1 \<le> fv a" "fv a \<le> 2 ^ 50" "0 \<le> y" "y \<le> rf (fv a * fv a)"
  shows "rf (sqrt y) \<le> fv a"
proof -
  obtain s m where d: "dec32 a = (s, m)" by (cases "dec32 a")
  have s: "\<not> s" using assms(2) d single.rval_True_le [of m] by (cases s) (simp_all add: fv_def)
  have m: "m < inf_ix 23 8" using assms(1) d by (simp add: fin_def)
  have "mag 23 (127 * 2 ^ 23) \<le> mag 23 m"
    using assms(2) d s by (simp add: fv_def single.rval_pair mag_numeral ux_def field_simps)
  then have "127 * 2 ^ 23 \<le> m" by (simp only: single.grid_le_iff)
  moreover have "1 \<le> fv a * fv a" "fv a * fv a \<le> 2 ^ 50 * 2 ^ 50"
    using mult_mono [of 1 "fv a" 1 "fv a"] mult_mono [of "fv a" "2 ^ 50" "fv a" "2 ^ 50"] assms(2,3)
    by linarith+
  ultimately show ?thesis using assms(4,5) d s m
    by (intro single.rr_sqrt_le [of _ m])
      (simp_all add: fv_def mag_numeral ux_def inf_ix_single)
qed

lemma f32_to_u32_bounds:
  assumes "fin a" "real lo \<le> fv a" "fv a < real hi + 1" "hi < 2 ^ 32"
  shows "lo \<le> unat (f32_to_u32 a) \<and> unat (f32_to_u32 a) \<le> hi"
proof -
  obtain s m where d: "dec32 a = (s, m)" by (cases "dec32 a")
  let ?t = "mag 23 m div 2 ^ ux 23 8"
  show ?thesis
  proof (cases s)
    case True
    with assms(2) d have "lo = 0"
      using single.rval_True_le [of m] by (simp add: fv_def)
    moreover have "f32_to_u32 a = 0"
      using True d fin_not_nan [OF assms(1)] by (simp add: f32_to_u32_def)
    ultimately show ?thesis by simp
  next
    case False
    have "real (lo * 2 ^ ux 23 8) \<le> real (mag 23 m)"
      using assms(2) d False by (simp add: fv_def single.rval_pair field_simps)
    then have lo: "lo \<le> ?t"
      by (simp only: of_nat_le_iff) (simp add: less_eq_div_iff_mult_less_eq)
    have "real (mag 23 m) < real ((hi + 1) * 2 ^ ux 23 8)"
      using assms(3) d False by (simp add: fv_def single.rval_pair field_simps)
    then have hi: "?t < hi + 1"
      by (simp only: of_nat_less_iff) (simp add: div_less_iff_less_mult)
    then have "f32_to_u32 a = word_of_nat ?t"
      using False d fin_not_nan [OF assms(1)] assms(4) by (simp add: f32_to_u32_def Let_def)
    moreover have "unat (word_of_nat ?t :: u32) = ?t"
      using hi assms(4) by (simp add: unat_of_nat)
    ultimately show ?thesis using lo hi by simp
  qed
qed

text \<open>Between two finite floats there are only finite floats.\<close>

lemma fin_between:
  assumes "f32_le l v" "f32_le v h" "fin l" "fin h"
  shows "fin v"
proof -
  have "fkey (dec32 l) \<le> fkey (dec32 v)" "fkey (dec32 v) \<le> fkey (dec32 h)"
    using assms by (simp_all add: f32_le_def fp_le_def)
  moreover have "fin x \<longleftrightarrow> \<bar>fkey (dec32 x)\<bar> < int (inf_ix 23 8)" for x
    by (cases "dec32 x") (simp add: fin_def)
  ultimately show ?thesis using assms(3,4) by (smt (verit, best))
qed

lemma f32_lt_le: "f32_lt a b \<Longrightarrow> f32_le a b"
  by (simp add: f32_lt_def f32_le_def fp_lt_def fp_le_def)

end
