(* ===== verification/Mailbox_Proto.thy ===== *)
theory Mailbox_Proto
  imports C_Float
begin

text \<open>
  \<open>core1/mailbox_proto.h\<close>: the opcodes, acknowledgements and status fields both cores agree
  on, and the packing of a float into a FIFO word.
\<close>

datatype stepper_cmd = CMD_SPEED | CMD_ACCEL | CMD_DECEL | CMD_MOVE | CMD_STOP | CMD_STATUS

primrec cmd_code :: "stepper_cmd \<Rightarrow> u32" where
  "cmd_code CMD_SPEED = 0"
| "cmd_code CMD_ACCEL = 1"
| "cmd_code CMD_DECEL = 2"
| "cmd_code CMD_MOVE = 3"
| "cmd_code CMD_STOP = 4"
| "cmd_code CMD_STATUS = 5"

definition STEPPER_ACK_OK :: u32 where
  [dev_eval]: "STEPPER_ACK_OK = 0"

definition STEPPER_ACK_BUSY :: u32 where
  [dev_eval]: "STEPPER_ACK_BUSY = 1"

datatype stepper_status_field =
  STATUS_STATE | STATUS_MAX_SPEED | STATUS_ACCEL | STATUS_DECEL | STATUS_SPEED | STATUS_REMAINING

primrec field_code :: "stepper_status_field \<Rightarrow> u32" where
  "field_code STATUS_STATE = 0"
| "field_code STATUS_MAX_SPEED = 1"
| "field_code STATUS_ACCEL = 2"
| "field_code STATUS_DECEL = 3"
| "field_code STATUS_SPEED = 4"
| "field_code STATUS_REMAINING = 5"

text \<open>Both go through a union: the object representation is kept.\<close>

definition mbox_pack_float :: "f32 \<Rightarrow> u32" where
  [dev_eval]: "mbox_pack_float f = f"

definition mbox_unpack_float :: "u32 \<Rightarrow> f32" where
  [dev_eval]: "mbox_unpack_float u = u"

lemma pack_unpack [simp]: "mbox_pack_float (mbox_unpack_float u) = u"
  and unpack_pack [simp]: "mbox_unpack_float (mbox_pack_float f) = f"
  by (simp_all add: mbox_pack_float_def mbox_unpack_float_def)

lemma cmd_code_inject [simp]: "cmd_code c = cmd_code d \<longleftrightarrow> c = d"
  by (cases c; cases d) simp_all

end
