(* ===== verification/Core1_Regs.thy ===== *)
theory Core1_Regs
  imports Mailbox_Proto
begin

text \<open>
  Register access of the bare-metal image (\<open>core1/regs.h\<close>). The addresses come from the
  vendor's generated headers and are kept symbolic: a register is named as the macros of
  \<open>regs.h\<close> name it. Every volatile access is an event of the history \<open>hist\<close> (newest first);
  what a read returns is up to the hardware, a function \<open>reg_val\<close> of the register and of the
  history so far. The masks of the vendor headers and the program words that \<open>pioasm\<close>
  generates are fields of the same parameter.
\<close>

datatype reg =
    SIO_GPIO_OUT_SET | SIO_GPIO_OUT_CLR | SIO_GPIO_OE_SET
  | SIO_FIFO_ST | SIO_FIFO_WR | SIO_FIFO_RD
  | PADS_BANK0_GPIO nat | IO_BANK0_GPIO_CTRL nat
  | RESETS_RESET | RESETS_RESET_DONE | TIMER0_TIMERAWL
  | PIO0_CTRL | PIO0_FSTAT | PIO0_TXF0 | PIO0_INSTR_MEM nat
  | PIO0_SM0_EXECCTRL | PIO0_SM0_INSTR | PIO0_SM0_PINCTRL
  | M33_CPACR
  | PSM_FRCE_OFF | PSM_FRCE_OFF_SET | PSM_FRCE_OFF_CLR

text \<open>\<open>REG(a)\<close> read, \<open>REG(a) = v\<close>, \<open>REG_CLR(a, v)\<close> (the atomic clear alias), barriers.\<close>

datatype mmio = Rd reg u32 | Wr reg u32 | Clr reg u32 | Dsb | Isb | Sev

record core1_hw =
  reg_val :: "reg \<Rightarrow> mmio list \<Rightarrow> u32"
  SIO_FIFO_ST_VLD_BITS :: u32
  SIO_FIFO_ST_RDY_BITS :: u32
  RESETS_RESET_TIMER0_BITS :: u32
  RESETS_RESET_PIO0_BITS :: u32
  M33_CPACR_CP10_BITS :: u32
  PADS_BANK0_GPIO0_ISO_BITS :: u32
  IO_BANK0_GPIO0_CTRL_FUNCSEL_LSB :: nat
  stepper_program_instructions :: "u16 list"
  stepper_wrap :: u32
  stepper_wrap_target :: u32
  bss_start :: u32
  bss_end :: u32

datatype motion_state = IDLE | MOVING

text \<open>The static struct \<open>M\<close>; \<open>remaining\<close> is an \<open>int32_t\<close>, read as signed.\<close>

record motion =
  m_state :: motion_state
  m_max_speed :: f32
  m_accel :: f32
  m_decel :: f32
  m_speed :: f32
  m_remaining :: u32
  m_stop_req :: u8

text \<open>The history is what every program on the bus has; core1 adds its motion state.\<close>

record bus =
  hist :: "mmio list"

record core1 = bus +
  mot :: motion

definition reg_rd :: "core1_hw \<Rightarrow> reg \<Rightarrow> 'a bus_scheme \<Rightarrow> u32 \<times> 'a bus_scheme" where
  "reg_rd E r s = (let v = reg_val E r (hist s) in (v, s\<lparr>hist := Rd r v # hist s\<rparr>))"

definition reg_wr :: "reg \<Rightarrow> u32 \<Rightarrow> 'a bus_scheme \<Rightarrow> 'a bus_scheme" where
  "reg_wr r v s = s\<lparr>hist := Wr r v # hist s\<rparr>"

definition reg_clr :: "reg \<Rightarrow> u32 \<Rightarrow> 'a bus_scheme \<Rightarrow> 'a bus_scheme" where
  "reg_clr r v s = s\<lparr>hist := Clr r v # hist s\<rparr>"

definition event :: "mmio \<Rightarrow> 'a bus_scheme \<Rightarrow> 'a bus_scheme" where
  "event e s = s\<lparr>hist := e # hist s\<rparr>"

text \<open>\<open>while (!(REG(r) & msk)) { }\<close>: \<open>None\<close> when the bit never comes.\<close>

partial_function (option) wait_bit :: "core1_hw \<Rightarrow> reg \<Rightarrow> u32 \<Rightarrow> 'a bus_scheme \<Rightarrow> 'a bus_scheme option" where
  "wait_bit E r msk s =
    (let (v, s1) = reg_rd E r s in if v AND msk \<noteq> 0 then Some s1 else wait_bit E r msk s1)"

section \<open>What the accesses leave alone\<close>

lemma reg_rd_mot [simp]: "mot (snd (reg_rd E r s)) = mot s"
  by (simp add: reg_rd_def Let_def)

lemma reg_wr_mot [simp]: "mot (reg_wr r v s) = mot s"
  by (simp add: reg_wr_def)

lemma reg_clr_mot [simp]: "mot (reg_clr r v s) = mot s"
  by (simp add: reg_clr_def)

lemma reg_wr_hist [simp]: "hist (reg_wr r v s) = Wr r v # hist s"
  by (simp add: reg_wr_def)

lemma reg_clr_hist [simp]: "hist (reg_clr r v s) = Clr r v # hist s"
  by (simp add: reg_clr_def)

text \<open>A polling loop only reads its own register, and ends on a read with the bit set.\<close>

lemma wait_bit_polls:
  assumes "wait_bit E r msk s = Some t"
  shows "\<exists>vs v. t = s\<lparr>hist := Rd r v # map (Rd r) vs @ hist s\<rparr> \<and> v AND msk \<noteq> 0"
proof (rule wait_bit.raw_induct [where P = "\<lambda>E r msk s t.
    \<exists>vs v. t = s\<lparr>hist := Rd r v # map (Rd r) vs @ hist s\<rparr> \<and> v AND msk \<noteq> 0", OF _ assms])
  fix f and E r msk and s t :: "'a bus_scheme"
  assume IH: "\<And>E r msk (s :: 'a bus_scheme) t. f E r msk s = Some t \<Longrightarrow>
      \<exists>vs v. t = s\<lparr>hist := Rd r v # map (Rd r) vs @ hist s\<rparr> \<and> v AND msk \<noteq> 0"
    and eq: "(let (v, s1) = reg_rd E r s in if v AND msk \<noteq> 0 then Some s1 else f E r msk s1)
      = Some t"
  define v where "v = reg_val E r (hist s)"
  let ?s1 = "s\<lparr>hist := Rd r v # hist s\<rparr>"
  have rd: "reg_rd E r s = (v, ?s1)" by (simp add: reg_rd_def v_def Let_def)
  show "\<exists>vs v. t = s\<lparr>hist := Rd r v # map (Rd r) vs @ hist s\<rparr> \<and> v AND msk \<noteq> 0"
  proof (cases "v AND msk = 0")
    case False
    with eq rd have "t = s\<lparr>hist := Rd r v # map (Rd r) [] @ hist s\<rparr>" by simp
    with False show ?thesis by blast
  next
    case True
    with eq rd have "f E r msk ?s1 = Some t" by simp
    from IH [OF this] obtain vs w where
      "t = s\<lparr>hist := Rd r w # map (Rd r) (vs @ [v]) @ hist s\<rparr>" "w AND msk \<noteq> 0"
      by auto
    then show ?thesis by blast
  qed
qed

lemma wait_bit_Some:
  assumes "wait_bit E r msk s = Some t"
  shows "mot t = mot s \<and>
    (\<exists>vs v. hist t = Rd r v # map (Rd r) vs @ hist s \<and> v AND msk \<noteq> 0)"
  using wait_bit_polls [OF assms] by auto

text \<open>It returns as soon as the hardware answers with the bit set.\<close>

lemma wait_bit_now:
  "reg_val E r (hist s) AND msk \<noteq> 0 \<Longrightarrow>
     wait_bit E r msk s = Some (s\<lparr>hist := Rd r (reg_val E r (hist s)) # hist s\<rparr>)"
  by (simp add: wait_bit.simps reg_rd_def Let_def)

text \<open>Polling \<open>r\<close> from the history \<open>h\<close> on shows the bit after a bounded number of reads.\<close>

definition soon :: "core1_hw \<Rightarrow> reg \<Rightarrow> u32 \<Rightarrow> mmio list \<Rightarrow> bool" where
  "soon E r msk h \<longleftrightarrow>
     (\<exists>k. \<forall>vs. k \<le> length vs \<longrightarrow> reg_val E r (map (Rd r) vs @ h) AND msk \<noteq> 0)"

lemma wait_bit_soon:
  assumes "soon E r msk (hist s)"
  shows "\<exists>t. wait_bit E r msk s = Some t"
proof -
  obtain k where "\<forall>vs. k \<le> length vs \<longrightarrow> reg_val E r (map (Rd r) vs @ hist s) AND msk \<noteq> 0"
    using assms by (auto simp: soon_def)
  then show ?thesis
  proof (induction k arbitrary: s)
    case 0
    then have "reg_val E r (hist s) AND msk \<noteq> 0" by (metis append_Nil le0 list.map(1))
    then show ?case by (simp add: wait_bit_now)
  next
    case (Suc k)
    let ?v = "reg_val E r (hist s)"
    let ?u = "s\<lparr>hist := Rd r ?v # hist s\<rparr>"
    have "reg_val E r (map (Rd r) vs @ hist ?u) AND msk \<noteq> 0" if "k \<le> length vs" for vs
      using Suc.prems [rule_format, of "vs @ [?v]"] that by simp
    then have "\<exists>t. wait_bit E r msk ?u = Some t" using Suc.IH [of ?u] by blast
    then show ?case by (subst wait_bit.simps) (simp add: reg_rd_def Let_def)
  qed
qed

end
