(* ===== verification/Core1_Motion.thy ===== *)
theory Core1_Motion
  imports Core1_Regs
begin

text \<open>
  The motion half of \<open>core1/core1_main.c\<close>: pins, timer, the half-period of a step, the
  acceleration profile and the feeding of the PIO queue. The lemmas bound the speed of every
  step, the half-period word it is turned into, and the length of the feeding loop.
\<close>

section \<open>Constants and hardware helpers\<close>

definition PIN_ENABLE :: nat where [dev_eval]: "PIN_ENABLE = 13"
definition PIN_DIR :: nat where [dev_eval]: "PIN_DIR = 14"
definition PIN_STEP :: nat where [dev_eval]: "PIN_STEP = 15"
definition SIO_FUNCSEL :: u32 where [dev_eval]: "SIO_FUNCSEL = 5"
definition PIO0_FUNCSEL :: u32 where [dev_eval]: "PIO0_FUNCSEL = 6"

definition PIO_F_SYS :: f32 where "PIO_F_SYS = f32_lit 150000000 1"
definition MIN_SPEED_HZ :: f32 where "MIN_SPEED_HZ = f32_lit 50 1"
definition ABS_MAX_SPEED :: f32 where "ABS_MAX_SPEED = f32_lit 160000 1"
definition ABS_MAX_ACCEL :: f32 where "ABS_MAX_ACCEL = f32_lit 2666666 1"
definition DEF_MAX_SPEED :: f32 where "DEF_MAX_SPEED = f32_lit 100000 1"
definition DEF_ACCEL :: f32 where "DEF_ACCEL = f32_lit 1000000 1"
definition DEF_DECEL :: f32 where "DEF_DECEL = f32_lit 1000000 1"

definition F0 :: f32 where "F0 = 0"
definition F1 :: f32 where "F1 = f32_lit 1 1"
definition F2 :: f32 where "F2 = f32_lit 2 1"
definition F3 :: f32 where "F3 = f32_lit 3 1"

definition M_init :: motion where
  "M_init = \<lparr>m_state = IDLE, m_max_speed = DEF_MAX_SPEED, m_accel = DEF_ACCEL,
     m_decel = DEF_DECEL, m_speed = 0, m_remaining = 0, m_stop_req = 0\<rparr>"

definition gpio_pad_init :: "core1_hw \<Rightarrow> nat \<Rightarrow> u32 \<Rightarrow> core1 \<Rightarrow> core1" where
  "gpio_pad_init E pin funcsel s =
    (let s1 = reg_clr (PADS_BANK0_GPIO pin) (PADS_BANK0_GPIO0_ISO_BITS E) s
     in reg_wr (IO_BANK0_GPIO_CTRL pin)
          (push_bit (IO_BANK0_GPIO0_CTRL_FUNCSEL_LSB E) funcsel) s1)"

definition now_us :: "core1_hw \<Rightarrow> core1 \<Rightarrow> u32 \<times> core1" where
  "now_us E s = reg_rd E TIMER0_TIMERAWL s"

text \<open>The body of \<open>delay_us\<close>: poll until \<open>us\<close> microseconds have passed, modulo wrap-around.\<close>

partial_function (option) delay_from :: "core1_hw \<Rightarrow> u32 \<Rightarrow> u32 \<Rightarrow> core1 \<Rightarrow> core1 option" where
  "delay_from E start us s =
    (let (now, s1) = now_us E s
     in if now - start < us then delay_from E start us s1 else Some s1)"

definition delay_us :: "core1_hw \<Rightarrow> u32 \<Rightarrow> core1 \<Rightarrow> core1 option" where
  "delay_us E us s = (let (start, s1) = now_us E s in delay_from E start us s1)"

section \<open>One step\<close>

definition hz_to_half_period :: "f32 \<Rightarrow> u32" where
  "hz_to_half_period hz =
    (let half_period = f32_sub (f32_div PIO_F_SYS (f32_mul F2 hz)) F3
     in if f32_lt F0 half_period then f32_to_u32 half_period else 0)"

definition pio_tx_full :: "core1_hw \<Rightarrow> core1 \<Rightarrow> bool \<times> core1" where
  "pio_tx_full E s = (let (v, s1) = reg_rd E PIO0_FSTAT s in (v AND BIT 16 \<noteq> 0, s1))"

definition pio_push_step :: "f32 \<Rightarrow> core1 \<Rightarrow> core1" where
  "pio_push_step hz s = reg_wr PIO0_TXF0 (hz_to_half_period hz) s"

definition hw_sqrtf :: "f32 \<Rightarrow> f32" where
  "hw_sqrtf x = f32_sqrt x"

definition next_speed :: "motion \<Rightarrow> f32" where
  "next_speed M =
    (let v = m_speed M; vmax = m_max_speed M; a = m_accel M; d = m_decel M;
         vmin = MIN_SPEED_HZ;
         brake_steps = f32_div (f32_sub (f32_mul v v) (f32_mul vmin vmin)) (f32_mul F2 d)
     in if m_remaining M \<le>s f32_to_i32 (f32_add brake_steps F1)
        then let v2 = f32_sub (f32_mul v v) (f32_mul F2 d)
             in if f32_lt (f32_mul vmin vmin) v2 then hw_sqrtf v2 else vmin
        else if f32_lt v vmax
        then let v2 = f32_add (f32_mul v v) (f32_mul F2 a)
             in if f32_lt v2 (f32_mul vmax vmax) then hw_sqrtf v2 else vmax
        else vmax)"

definition feed_step :: "core1 \<Rightarrow> bool \<times> core1" where
  "feed_step s =
    (let M = mot s
     in if m_state M \<noteq> MOVING then (False, s)
        else if m_stop_req M \<noteq> 0 \<or> m_remaining M \<le>s 0
        then (False, s\<lparr>mot := M\<lparr>m_state := IDLE, m_speed := F0, m_stop_req := 0\<rparr>\<rparr>)
        else let v = next_speed M;
                 s1 = pio_push_step v (s\<lparr>mot := M\<lparr>m_speed := v\<rparr>\<rparr>)
             in (True, s1\<lparr>mot := (mot s1)\<lparr>m_remaining := m_remaining (mot s1) - 1\<rparr>\<rparr>))"

definition motion_start :: "core1_hw \<Rightarrow> u32 \<Rightarrow> core1 \<Rightarrow> core1 option" where
  "motion_start E steps s =
    (if steps = 0 then Some s
     else let forward = 0 <s steps;
              s1 = reg_wr (if forward then SIO_GPIO_OUT_SET else SIO_GPIO_OUT_CLR) (BIT PIN_DIR) s
          in do {
            s2 \<leftarrow> delay_us E 5 s1;
            Some (s2\<lparr>mot := (mot s2)\<lparr>m_remaining := (if forward then steps else - steps),
              m_speed := MIN_SPEED_HZ, m_stop_req := 0, m_state := MOVING\<rparr>\<rparr>)
          })"

lemma feed_step_pushed:
  assumes "feed_step s = (True, t)"
  shows "0 <s m_remaining (mot s)" "m_remaining (mot t) = m_remaining (mot s) - 1"
  using assms by (auto simp: feed_step_def Let_def pio_push_step_def word_sless_alt word_sle_eq split: if_splits)

text \<open>\<open>while (!pio_tx_full()) { if (!feed_step()) break; }\<close>\<close>

function (domintros) feed_loop :: "core1_hw \<Rightarrow> core1 \<Rightarrow> core1" where
  "feed_loop E s =
    (let (full, s1) = pio_tx_full E s
     in if full then s1
        else let (pushed, s2) = feed_step s1 in if pushed then feed_loop E s2 else s2)"
  by pat_completeness auto

termination feed_loop
proof (relation "measure (\<lambda>(E, s). nat (sint (m_remaining (mot s))))", simp, unfold in_measure prod.case)
  fix E :: core1_hw and s x s1 full y t pushed
  assume a: "x = pio_tx_full E s" "(full, s1) = x" "\<not> full"
    and b: "y = feed_step s1" "(pushed, t) = y" "pushed"
  have m: "mot s1 = mot s" using a by (auto simp: pio_tx_full_def reg_rd_def Let_def)
  have "feed_step s1 = (True, t)" using b by simp
  note p = feed_step_pushed [OF this]
  show "nat (sint (m_remaining (mot t))) < nat (sint (m_remaining (mot s)))"
    using p sint_dec [of "m_remaining (mot s1)"] m by (simp add: word_sless_alt)
qed

section \<open>The constants\<close>

lemma motion_consts [simp, dev_eval]:
  "PIO_F_SYS = 0x4D0F0D18" "MIN_SPEED_HZ = 0x42480000" "ABS_MAX_SPEED = 0x481C4000"
  "ABS_MAX_ACCEL = 0x4A22C2A8" "DEF_MAX_SPEED = 0x47C35000" "DEF_ACCEL = 0x49742400"
  "DEF_DECEL = 0x49742400" "F0 = 0" "F1 = 0x3F800000" "F2 = 0x40000000" "F3 = 0x40400000"
  by (simp_all add: dev_eval PIO_F_SYS_def MIN_SPEED_HZ_def ABS_MAX_SPEED_def
      ABS_MAX_ACCEL_def DEF_MAX_SPEED_def DEF_ACCEL_def DEF_DECEL_def F0_def F1_def F2_def F3_def)

lemma fv_consts:
  "fv 0x4D0F0D18 = 150000000" "fv 0x42480000 = 50" "fv 0x481C4000 = 160000"
  "fv 0x4A22C2A8 = 2666666" "fv 0x49742400 = 1000000" "fv 0 = 0" "fv 0x3F800000 = 1"
  "fv 0x47C35000 = 100000" "fv 0x40000000 = 2" "fv 0x40400000 = 3"
  by (simp_all add: fv_def dev_eval single.rval_pair)

lemma fin_consts:
  "fin 0x4D0F0D18" "fin 0x42480000" "fin 0x481C4000" "fin 0x4A22C2A8" "fin 0x49742400"
  "fin 0" "fin 0x3F800000" "fin 0x47C35000" "fin 0x40000000" "fin 0x40400000"
  by (simp_all add: dev_eval)

section \<open>Speeds stay in range\<close>

definition speed_ok :: "f32 \<Rightarrow> bool" where
  [dev_eval]: "speed_ok v \<longleftrightarrow> f32_le MIN_SPEED_HZ v \<and> f32_le v ABS_MAX_SPEED"

definition accel_ok :: "f32 \<Rightarrow> bool" where
  [dev_eval]: "accel_ok a \<longleftrightarrow> f32_lt F0 a \<and> f32_le a ABS_MAX_ACCEL"

definition motion_ok :: "motion \<Rightarrow> bool" where
  [dev_eval]: "motion_ok M \<longleftrightarrow>
     speed_ok (m_max_speed M) \<and> accel_ok (m_accel M) \<and> accel_ok (m_decel M) \<and>
     (m_state M = MOVING \<longrightarrow> speed_ok (m_speed M))"

lemma speed_ok_iff: "speed_ok v \<longleftrightarrow> fin v \<and> 50 \<le> fv v \<and> fv v \<le> 160000"
proof
  assume s: "speed_ok v"
  then have "fin v"
    unfolding speed_ok_def using fin_between fin_consts by (metis motion_consts(2,3))
  with s show "fin v \<and> 50 \<le> fv v \<and> fv v \<le> 160000"
    by (simp add: speed_ok_def f32_le_iff fin_consts fv_consts)
qed (simp add: speed_ok_def f32_le_iff fin_consts fv_consts)

lemma accel_ok_iff: "accel_ok a \<longleftrightarrow> fin a \<and> 0 < fv a \<and> fv a \<le> 2666666"
proof
  assume s: "accel_ok a"
  then have "fin a"
    unfolding accel_ok_def using fin_between f32_lt_le fin_consts by (metis motion_consts(4,8))
  with s show "fin a \<and> 0 < fv a \<and> fv a \<le> 2666666"
    by (simp add: accel_ok_def f32_le_iff f32_lt_iff fin_consts fv_consts)
qed (simp add: accel_ok_def f32_le_iff f32_lt_iff fin_consts fv_consts)

text \<open>The squares and double accelerations of \<open>next_speed\<close>, exact up to rounding.\<close>

lemma square_speed:
  assumes "speed_ok v"
  shows "fin (f32_mul v v)" "fv (f32_mul v v) = rf (fv v * fv v)"
    "2500 \<le> fv (f32_mul v v)" "fv (f32_mul v v) \<le> 25600000000"
proof -
  note v = assms [unfolded speed_ok_iff]
  have b: "2500 \<le> fv v * fv v" "fv v * fv v \<le> 25600000000"
    using mult_mono [of 50 "fv v" 50 "fv v"] mult_mono [of "fv v" 160000 "fv v" 160000] v by auto
  then show m: "fin (f32_mul v v)" "fv (f32_mul v v) = rf (fv v * fv v)"
    using fv_mul [of v v] v by auto
  have c: "fin 0x451C4000" "fv 0x451C4000 = 2500" "fin 0x50BEBC20" "fv 0x50BEBC20 = 25600000000"
    by (simp_all add: fv_def dev_eval single.rval_pair)
  show "2500 \<le> fv (f32_mul v v)"
    using rf_ge_fv [OF c(1)] b unfolding m(2) c(2) by blast
  show "fv (f32_mul v v) \<le> 25600000000"
    using rf_le_fv [OF c(3)] b unfolding m(2) c(4) by blast
qed

lemma double_accel:
  assumes "accel_ok a"
  shows "fin (f32_mul F2 a)" "0 \<le> fv (f32_mul F2 a)" "fv (f32_mul F2 a) \<le> 5333332"
proof -
  note a = assms [unfolded accel_ok_iff]
  then have m: "fin (f32_mul F2 a)" "fv (f32_mul F2 a) = rf (2 * fv a)"
    using fv_mul [of F2 a] by (auto simp: fin_consts fv_consts)
  have c: "fin 0x4AA2C2A8" "fv 0x4AA2C2A8 = 5333332"
    by (simp_all add: fv_def dev_eval single.rval_pair)
  show "fin (f32_mul F2 a)" by (rule m)
  show "0 \<le> fv (f32_mul F2 a)"
    using a single.rr_ge_zero [of "2 * fv a"] unfolding m(2) by simp
  show "fv (f32_mul F2 a) \<le> 5333332"
    using rf_le_fv [OF c(1), of "2 * fv a"] a unfolding m(2) c(2) by simp
qed

text \<open>The root of a number between \<open>2500\<close> and a rounded square is a speed not above the
  root of that square.\<close>

lemma sqrt_speed:
  assumes w: "speed_ok w" and x: "fin x" "2500 \<le> fv x" "fv x \<le> fv (f32_mul w w)"
  shows "speed_ok (hw_sqrtf x) \<and> fv (hw_sqrtf x) \<le> fv w"
proof -
  note w' = w [unfolded speed_ok_iff]
  have x1: "fv x \<le> rf (fv w * fv w)" using x(3) square_speed(2) [OF w] by simp
  have "fv x \<le> 160000\<^sup>2" using x(3) square_speed(4) [OF w] by simp
  then have "sqrt (fv x) \<le> 160000" by (rule real_le_lsqrt [rotated]) simp
  then have s: "fin (hw_sqrtf x)" "fv (hw_sqrtf x) = rf (sqrt (fv x))"
    using fv_sqrt [OF x(1)] x(2) by (auto simp: hw_sqrtf_def)
  have up: "fv (hw_sqrtf x) \<le> fv w"
    unfolding s(2) using w' x(2) x1 by (intro rf_sqrt_le) auto
  have "50\<^sup>2 \<le> fv x" using x(2) by simp
  then have "50 \<le> sqrt (fv x)" by (rule real_le_rsqrt)
  then have "50 \<le> fv (hw_sqrtf x)"
    unfolding s(2) using rf_ge_fv [of "0x42480000"] fin_consts fv_consts by metis
  with up s(1) w' show ?thesis by (simp add: speed_ok_iff)
qed

lemma next_speed_range:
  assumes "speed_ok (m_speed M)" "speed_ok (m_max_speed M)" "accel_ok (m_accel M)"
    "accel_ok (m_decel M)"
  shows "speed_ok (next_speed M) \<and>
    fv (next_speed M) \<le> max (fv (m_speed M)) (fv (m_max_speed M))"
proof -
  let ?v = "m_speed M" and ?w = "m_max_speed M" and ?a = "m_accel M" and ?d = "m_decel M"
  note sq = square_speed [OF assms(1)] square_speed [OF assms(2)]
  note acc = double_accel [OF assms(3)] double_accel [OF assms(4)]
  have vmin: "speed_ok MIN_SPEED_HZ" by (simp add: speed_ok_iff fin_consts fv_consts)
  have m2: "fin (f32_mul MIN_SPEED_HZ MIN_SPEED_HZ)" "2500 \<le> fv (f32_mul MIN_SPEED_HZ MIN_SPEED_HZ)"
    using square_speed [OF vmin] by simp_all
  have brake: "speed_ok (hw_sqrtf x) \<and> fv (hw_sqrtf x) \<le> fv ?v"
    if "x = f32_sub (f32_mul ?v ?v) (f32_mul F2 ?d)"
      "f32_lt (f32_mul MIN_SPEED_HZ MIN_SPEED_HZ) x" for x
  proof -
    have x: "fin x" "fv x = rf (fv (f32_mul ?v ?v) - fv (f32_mul F2 ?d))"
      unfolding that(1) using fv_sub [OF sq(1) acc(4)] sq acc by (auto simp: abs_le_iff)
    have "fv x \<le> fv (f32_mul ?v ?v)"
      unfolding x(2) using sq(1) acc(5) by (intro rf_le_fv) simp_all
    moreover have "2500 \<le> fv x" using that(2) m2 x(1) by (simp add: f32_lt_iff)
    ultimately show ?thesis using sqrt_speed [OF assms(1) x(1)] by blast
  qed
  have speedup: "speed_ok (hw_sqrtf x) \<and> fv (hw_sqrtf x) \<le> fv ?w"
    if "x = f32_add (f32_mul ?v ?v) (f32_mul F2 ?a)" "f32_lt x (f32_mul ?w ?w)" for x
  proof -
    have x: "fin x" "fv x = rf (fv (f32_mul ?v ?v) + fv (f32_mul F2 ?a))"
      unfolding that(1) using fv_add [OF sq(1) acc(1)] sq acc by (auto simp: abs_le_iff)
    have "fv (f32_mul ?v ?v) \<le> fv x"
      unfolding x(2) using sq(1) acc(2) by (intro rf_ge_fv) simp_all
    then have "2500 \<le> fv x" using sq(3) by simp
    moreover have "fv x \<le> fv (f32_mul ?w ?w)" using that(2) x(1) sq(5) by (simp add: f32_lt_iff)
    ultimately show ?thesis using sqrt_speed [OF assms(2) x(1)] by blast
  qed
  have "fv MIN_SPEED_HZ \<le> fv ?v" using assms(1) by (simp add: speed_ok_iff fv_consts)
  then show ?thesis
    using brake speedup vmin assms(2) unfolding next_speed_def Let_def
    by (auto simp only: le_max_iff_disj order_refl split: if_split)
qed

section \<open>The half-period of a step\<close>

lemma rf_between:
  assumes "fin a" "fin b" "fv a \<le> x" "x \<le> fv b"
  shows "fv a \<le> rf x \<and> rf x \<le> fv b"
  using rf_ge_fv [OF assms(1,3)] rf_le_fv [OF assms(2,4)] ..

lemma hz_to_half_period_bounds:
  assumes "speed_ok hz"
  shows "465 \<le> unat (hz_to_half_period hz) \<and> unat (hz_to_half_period hz) \<le> 1499997"
proof -
  note hz = assms [unfolded speed_ok_iff]
  let ?p = "f32_mul F2 hz"
  let ?q = "f32_div PIO_F_SYS ?p"
  have c: "fin 0x42C80000" "fv 0x42C80000 = 100" "fin 0x489C4000" "fv 0x489C4000 = 320000"
    "fin 0x43EA6000" "fv 0x43EA6000 = 468.75" "fin 0x49B71B00" "fv 0x49B71B00 = 1500000"
    "fin 0x43E8E000" "fv 0x43E8E000 = 465.75" "fin 0x49B71AE8" "fv 0x49B71AE8 = 1499997"
    by (simp_all add: fv_def dev_eval single.rval_pair)
  have "fin ?p \<and> fv ?p = rf (2 * fv hz)"
    using fv_mul [of F2 hz] hz by (simp add: fin_consts fv_consts)
  with rf_between [OF c(1,3), of "2 * fv hz"] hz
  have p: "fin ?p" "100 \<le> fv ?p" "fv ?p \<le> 320000" by (simp_all add: c)
  have range: "468.75 \<le> 150000000 / fv ?p" "150000000 / fv ?p \<le> 1500000"
    using p by (simp_all add: field_simps)
  have "fin ?q \<and> fv ?q = rf (150000000 / fv ?p)"
    using fv_div [of PIO_F_SYS ?p] p range by (simp add: fin_consts fv_consts)
  with rf_between [OF c(5,7) range [folded c(6,8)]]
  have q: "fin ?q" "468.75 \<le> fv ?q" "fv ?q \<le> 1500000" by (simp_all add: c)
  have "fin (f32_sub ?q F3) \<and> fv (f32_sub ?q F3) = rf (fv ?q - 3)"
    using fv_sub [of ?q F3] q by (simp add: fin_consts fv_consts)
  with rf_between [OF c(9,11), of "fv ?q - 3"] q
  have r: "fin (f32_sub ?q F3)" "465.75 \<le> fv (f32_sub ?q F3)" "fv (f32_sub ?q F3) \<le> 1499997"
    by (simp_all add: c)
  then have "hz_to_half_period hz = f32_to_u32 (f32_sub ?q F3)"
    unfolding hz_to_half_period_def Let_def using f32_lt_iff [of F0] by (simp add: fin_consts fv_consts)
  with f32_to_u32_bounds [OF r(1), of 465 1499997] r show ?thesis by simp
qed

section \<open>Feeding\<close>

text \<open>The half-period words a history has pushed into the PIO queue, newest first.\<close>

primrec step_words :: "mmio list \<Rightarrow> u32 list" where
  "step_words [] = []"
| "step_words (e # h) =
    (case e of Wr r w \<Rightarrow> if r = PIO0_TXF0 then w # step_words h else step_words h
     | _ \<Rightarrow> step_words h)"

definition steps_left :: "core1 \<Rightarrow> int" where
  [simp]: "steps_left s = sint (m_remaining (mot s))"

lemma pio_tx_full_frame [simp]:
  "mot (snd (pio_tx_full E s)) = mot s"
  "step_words (hist (snd (pio_tx_full E s))) = step_words (hist s)"
  by (simp_all add: pio_tx_full_def reg_rd_def Let_def)

text \<open>What one \<open>feed_step\<close> does, case by case.\<close>

lemma feed_step_idle: "m_state (mot s) \<noteq> MOVING \<Longrightarrow> feed_step s = (False, s)"
  by (simp add: feed_step_def)

lemma feed_step_end:
  "m_state (mot s) = MOVING \<Longrightarrow> m_stop_req (mot s) \<noteq> 0 \<or> steps_left s \<le> 0 \<Longrightarrow>
     feed_step s = (False, s\<lparr>mot := (mot s)\<lparr>m_state := IDLE, m_speed := 0, m_stop_req := 0\<rparr>\<rparr>)"
  by (auto simp: feed_step_def word_sle_eq)

lemma feed_step_push:
  "m_state (mot s) = MOVING \<Longrightarrow> m_stop_req (mot s) = 0 \<Longrightarrow> 0 < steps_left s \<Longrightarrow>
     feed_step s = (True,
       s\<lparr>mot := (mot s)\<lparr>m_speed := next_speed (mot s), m_remaining := m_remaining (mot s) - 1\<rparr>,
         hist := Wr PIO0_TXF0 (hz_to_half_period (next_speed (mot s))) # hist s\<rparr>)"
  by (simp add: feed_step_def word_sle_eq pio_push_step_def reg_wr_def Let_def)

lemma feed_step_cases:
  obtains (idle) "m_state (mot s) \<noteq> MOVING" | (end') "m_state (mot s) = MOVING"
    "m_stop_req (mot s) \<noteq> 0 \<or> steps_left s \<le> 0"
  | (push) "m_state (mot s) = MOVING" "m_stop_req (mot s) = 0" "0 < steps_left s"
  by force

definition half_period_ok :: "u32 \<Rightarrow> bool" where
  [dev_eval]: "half_period_ok w \<longleftrightarrow> 465 \<le> unat w \<and> unat w \<le> 1499997"

text \<open>\<open>fed s t\<close>: between \<open>s\<close> and \<open>t\<close> only the queue was fed; each step pushed one word in
  range and took one off the steps left.\<close>

definition fed :: "core1 \<Rightarrow> core1 \<Rightarrow> bool" where
  "fed s t \<longleftrightarrow> (\<exists>ws. step_words (hist t) = ws @ step_words (hist s) \<and>
     int (length ws) = steps_left s - steps_left t \<and>
     (motion_ok (mot s) \<longrightarrow> motion_ok (mot t) \<and> list_all half_period_ok ws))"

lemma fed_refl [intro]: "mot t = mot s \<Longrightarrow> step_words (hist t) = step_words (hist s) \<Longrightarrow> fed s t"
  by (simp add: fed_def)

lemma fed_trans [trans]: "fed s t \<Longrightarrow> fed t u \<Longrightarrow> fed s u"
proof -
  assume "fed s t" "fed t u"
  then obtain vs ws where
    "step_words (hist t) = vs @ step_words (hist s)" "int (length vs) = steps_left s - steps_left t"
    "motion_ok (mot s) \<longrightarrow> motion_ok (mot t) \<and> list_all half_period_ok vs"
    "step_words (hist u) = ws @ step_words (hist t)" "int (length ws) = steps_left t - steps_left u"
    "motion_ok (mot t) \<longrightarrow> motion_ok (mot u) \<and> list_all half_period_ok ws"
    unfolding fed_def by auto
  then show ?thesis unfolding fed_def by (intro exI [of _ "ws @ vs"]) auto
qed

lemma feed_step_fed: "fed s (snd (feed_step s))"
proof (cases s rule: feed_step_cases)
  case idle
  then show ?thesis by (auto simp: feed_step_idle)
next
  case end'
  then show ?thesis by (simp add: feed_step_end fed_def motion_ok_def)
next
  case push
  let ?M = "mot s"
  let ?w = "hz_to_half_period (next_speed ?M)"
  have ok: "speed_ok (next_speed ?M) \<and> half_period_ok ?w" if "motion_ok ?M"
    using that push(1) next_speed_range [of ?M] hz_to_half_period_bounds [of "next_speed ?M"]
    by (simp add: motion_ok_def half_period_ok_def)
  show ?thesis using push ok unfolding fed_def
    by (intro exI [of _ "[?w]"]) (simp add: feed_step_push sint_dec, simp add: motion_ok_def)
qed

lemma feed_loop_step:
  "feed_loop E s =
    (let s1 = snd (pio_tx_full E s)
     in if fst (pio_tx_full E s) then s1
        else if fst (feed_step s1) then feed_loop E (snd (feed_step s1)) else snd (feed_step s1))"
  by (subst feed_loop.simps) (simp only: Let_def split_beta)

declare feed_loop.simps [simp del]

text \<open>Induction over the loop: a step that pushed is followed by the rest of the loop.\<close>

lemma feed_loop_induct:
  assumes "\<And>s. (\<not> fst (pio_tx_full E s) \<Longrightarrow> fst (feed_step (snd (pio_tx_full E s))) \<Longrightarrow>
      P (snd (feed_step (snd (pio_tx_full E s))))) \<Longrightarrow> P s"
  shows "P s"
proof (rule feed_loop.induct [of "\<lambda>F s. F = E \<longrightarrow> P s", THEN mp, OF _ refl])
  fix F s
  assume IH: "\<And>x full t y pushed u. x = pio_tx_full F s \<Longrightarrow> (full, t) = x \<Longrightarrow> \<not> full \<Longrightarrow>
    y = feed_step t \<Longrightarrow> (pushed, u) = y \<Longrightarrow> pushed \<Longrightarrow> F = E \<longrightarrow> P u"
  show "F = E \<longrightarrow> P s"
    using IH [OF refl prod.collapse _ refl prod.collapse] assms [of s] by blast
qed

text \<open>
  Whatever holds between two states that differ only in what was read, composes, and holds over a
  \<open>feed_step\<close>, holds over the loop.
\<close>

locale feeding =
  fixes along :: "core1 \<Rightarrow> core1 \<Rightarrow> bool"
  assumes along_same: "mot t = mot s \<Longrightarrow> step_words (hist t) = step_words (hist s) \<Longrightarrow> along s t"
    and along_trans: "along s t \<Longrightarrow> along t u \<Longrightarrow> along s u"
    and along_step: "along s (snd (feed_step s))"
begin

lemma loop: "along s (feed_loop E s)"
proof (induction s rule: feed_loop_induct [of E])
  case (1 s)
  let ?s1 = "snd (pio_tx_full E s)"
  have s1: "along s ?s1" by (rule along_same) simp_all
  have s2: "along s (snd (feed_step ?s1))" using s1 along_step by (rule along_trans)
  show ?case
    using s1 s2 1 along_trans [OF s2] unfolding feed_loop_step [of E s] by (simp add: Let_def)
qed

end

interpretation fed: feeding fed
  by unfold_locales (auto intro: fed_trans feed_step_fed)

text \<open>The loop stops with the queue full, or with the motion ended.\<close>

lemma feed_loop_end:
  "m_state (mot (feed_loop E s)) = MOVING \<Longrightarrow>
     \<exists>v h. hist (feed_loop E s) = Rd PIO0_FSTAT v # h \<and> v AND BIT 16 \<noteq> 0"
proof (induction s rule: feed_loop_induct [of E])
  case (1 s)
  let ?s1 = "snd (pio_tx_full E s)"
  have full: "fst (pio_tx_full E s) \<Longrightarrow> \<exists>v h. hist ?s1 = Rd PIO0_FSTAT v # h \<and> v AND BIT 16 \<noteq> 0"
    by (auto simp: pio_tx_full_def reg_rd_def Let_def)
  have stop: "\<not> fst (feed_step ?s1) \<Longrightarrow> m_state (mot (snd (feed_step ?s1))) \<noteq> MOVING"
    by (cases ?s1 rule: feed_step_cases) (auto simp: feed_step_idle feed_step_end feed_step_push)
  show ?case
    using 1 full stop unfolding feed_loop_step [of E s] by (auto simp: Let_def split: if_splits)
qed

section \<open>Properties\<close>

text \<open>
  The motion profile never leaves its range. With speed and limit between \<open>MIN_SPEED_HZ\<close>
  and \<open>ABS_MAX_SPEED\<close> and accelerations in \<open>(0, ABS_MAX_ACCEL]\<close>, the speed of the next step
  is again in that range, and it is above the current speed only up to the user's limit: no
  rounding of the squares or of the square root carries it over.
\<close>

lemma next_speed_bounded:
  assumes "speed_ok (m_speed M)" "speed_ok (m_max_speed M)" "accel_ok (m_accel M)"
    "accel_ok (m_decel M)"
  shows "speed_ok (next_speed M) \<and>
    (f32_le (next_speed M) (m_speed M) \<or> f32_le (next_speed M) (m_max_speed M))"
proof -
  note r = next_speed_range [OF assms]
  with assms have "fin (next_speed M)" "fin (m_speed M)" "fin (m_max_speed M)"
    by (simp_all add: speed_ok_iff)
  then show ?thesis using r by (simp add: f32_le_iff le_max_iff_disj)
qed

lemma next_speed_bounded_example:
  "speed_ok (next_speed (M_init\<lparr>m_speed := MIN_SPEED_HZ, m_state := MOVING, m_remaining := 7\<rparr>))"
proof -
  have "speed_ok 0x42480000" "speed_ok 0x47C35000" "accel_ok 0x49742400"
    by (simp_all add: speed_ok_iff accel_ok_iff fin_consts fv_consts)
  then show ?thesis
    using next_speed_bounded [of "M_init\<lparr>m_speed := MIN_SPEED_HZ, m_state := MOVING, m_remaining := 7\<rparr>"]
    by (simp add: M_init_def)
qed

text \<open>
  The half-period word of every admissible speed lies between 465 and 1499997 PIO cycles:
  at the top speed the truncation of 465.75 asks for slightly more than \<open>ABS_MAX_SPEED\<close>, at
  \<open>MIN_SPEED_HZ\<close> the value is exact, and never is the word zero, which would make the PIO
  step at 25 MHz.
\<close>

lemma half_period_bounded:
  assumes "speed_ok hz"
  shows "half_period_ok (hz_to_half_period hz)"
  using hz_to_half_period_bounds [OF assms] by (simp add: half_period_ok_def)

lemma half_period_bounded_witness:
  "half_period_ok (hz_to_half_period MIN_SPEED_HZ) \<and> half_period_ok (hz_to_half_period ABS_MAX_SPEED)"
  using half_period_bounded [of MIN_SPEED_HZ] half_period_bounded [of ABS_MAX_SPEED]
  by (simp add: speed_ok_iff fin_consts fv_consts)

text \<open>
  Feeding the queue, which always ends: the words pushed are as many as the steps taken off
  \<open>remaining\<close>, so no step is lost or invented; and the motion is still under way only if the
  last thing seen was a full queue.
\<close>

lemma feed_loop_pushes_steps:
  "(\<exists>ws. step_words (hist (feed_loop E s)) = ws @ step_words (hist s) \<and>
      int (length ws) = steps_left s - steps_left (feed_loop E s)) \<and>
   (m_state (mot (feed_loop E s)) = IDLE \<or>
     (\<exists>v h. hist (feed_loop E s) = Rd PIO0_FSTAT v # h \<and> v AND BIT 16 \<noteq> 0))"
  using fed.loop [of s E] feed_loop_end [of E s] motion_state.exhaust unfolding fed_def
  by blast

end
