(* ===== verification/Core1_Command.thy ===== *)
theory Core1_Command
  imports Core1_Motion
begin

text \<open>
  The command half of \<open>core1/core1_main.c\<close>: blocking FIFO access and \<open>handle_command\<close>. Its
  contract is stated over the mail that crosses the FIFO: a request of one or two words, at
  most one reply, and the effect of \<open>serve\<close> on the motion state.
\<close>

section \<open>The code\<close>

definition fifo_read_blocking :: "core1_hw \<Rightarrow> core1 \<Rightarrow> (u32 \<times> core1) option" where
  "fifo_read_blocking E s = do {
     s1 \<leftarrow> wait_bit E SIO_FIFO_ST (SIO_FIFO_ST_VLD_BITS E) s;
     Some (reg_rd E SIO_FIFO_RD s1)
   }"

definition fifo_write_blocking :: "core1_hw \<Rightarrow> u32 \<Rightarrow> core1 \<Rightarrow> core1 option" where
  "fifo_write_blocking E word s = do {
     s1 \<leftarrow> wait_bit E SIO_FIFO_ST (SIO_FIFO_ST_RDY_BITS E) s;
     Some (reg_wr SIO_FIFO_WR word s1)
   }"

definition clamp_speed :: "f32 \<Rightarrow> f32" where
  "clamp_speed v =
    (if f32_lt v MIN_SPEED_HZ then MIN_SPEED_HZ
     else if f32_lt ABS_MAX_SPEED v then ABS_MAX_SPEED else v)"

definition accel_or :: "f32 \<Rightarrow> f32 \<Rightarrow> f32" where
  "accel_or dflt v = (if f32_le v F0 \<or> f32_lt ABS_MAX_ACCEL v then dflt else v)"

definition status_reply :: "motion \<Rightarrow> u32 \<Rightarrow> u32" where
  "status_reply M field =
    (if field = field_code STATUS_STATE then (if m_state M = MOVING then 1 else 0)
     else if field = field_code STATUS_MAX_SPEED then mbox_pack_float (m_max_speed M)
     else if field = field_code STATUS_ACCEL then mbox_pack_float (m_accel M)
     else if field = field_code STATUS_DECEL then mbox_pack_float (m_decel M)
     else if field = field_code STATUS_SPEED then mbox_pack_float (m_speed M)
     else if field = field_code STATUS_REMAINING then m_remaining M
     else 0)"

definition handle_command :: "core1_hw \<Rightarrow> core1 \<Rightarrow> core1 option" where
  "handle_command E s0 =
    (let (st, s1) = reg_rd E SIO_FIFO_ST s0
     in if st AND SIO_FIFO_ST_VLD_BITS E = 0 then Some s1
        else let (opcode, s2) = reg_rd E SIO_FIFO_RD s1
        in if opcode = cmd_code CMD_SPEED then do {
             (u, s3) \<leftarrow> fifo_read_blocking E s2;
             let s4 = s3\<lparr>mot := (mot s3)\<lparr>m_max_speed := clamp_speed (mbox_unpack_float u)\<rparr>\<rparr>;
             fifo_write_blocking E (mbox_pack_float (m_max_speed (mot s4))) s4
           }
           else if opcode = cmd_code CMD_ACCEL then do {
             (u, s3) \<leftarrow> fifo_read_blocking E s2;
             let s4 = s3\<lparr>mot := (mot s3)\<lparr>m_accel := accel_or DEF_ACCEL (mbox_unpack_float u)\<rparr>\<rparr>;
             fifo_write_blocking E (mbox_pack_float (m_accel (mot s4))) s4
           }
           else if opcode = cmd_code CMD_DECEL then do {
             (u, s3) \<leftarrow> fifo_read_blocking E s2;
             let s4 = s3\<lparr>mot := (mot s3)\<lparr>m_decel := accel_or DEF_DECEL (mbox_unpack_float u)\<rparr>\<rparr>;
             fifo_write_blocking E (mbox_pack_float (m_decel (mot s4))) s4
           }
           else if opcode = cmd_code CMD_MOVE then do {
             (steps, s3) \<leftarrow> fifo_read_blocking E s2;
             if m_state (mot s3) = MOVING then fifo_write_blocking E STEPPER_ACK_BUSY s3
             else do {
               s4 \<leftarrow> motion_start E steps s3;
               fifo_write_blocking E STEPPER_ACK_OK s4
             }
           }
           else if opcode = cmd_code CMD_STOP then
             fifo_write_blocking E STEPPER_ACK_OK
               (if m_state (mot s2) = MOVING then s2\<lparr>mot := (mot s2)\<lparr>m_stop_req := 1\<rparr>\<rparr> else s2)
           else if opcode = cmd_code CMD_STATUS then do {
             (field, s3) \<leftarrow> fifo_read_blocking E s2;
             fifo_write_blocking E (status_reply (mot s3) field) s3
           }
           else Some s2)"

section \<open>The mail of a history\<close>

datatype mail = Recv u32 | Sent u32

primrec mails :: "mmio list \<Rightarrow> mail list" where
  "mails [] = []"
| "mails (e # h) =
    (case e of
       Rd r w \<Rightarrow> if r = SIO_FIFO_RD then Recv w # mails h else mails h
     | Wr r w \<Rightarrow> if r = SIO_FIFO_WR then Sent w # mails h else mails h
     | _ \<Rightarrow> mails h)"

text \<open>What the accesses of this file do to mail, pushed steps and motion state.\<close>

lemma mails_polls [simp]: "r \<noteq> SIO_FIFO_RD \<Longrightarrow> mails (map (Rd r) vs @ h) = mails h"
  by (induction vs) simp_all

lemma step_words_polls [simp]: "step_words (map (Rd r) vs @ h) = step_words h"
  by (induction vs) simp_all

lemma wait_bit_frame:
  assumes "wait_bit E r msk s = Some t" "r \<noteq> SIO_FIFO_RD"
  shows "mot t = mot s" "mails (hist t) = mails (hist s)" "step_words (hist t) = step_words (hist s)"
  using wait_bit_Some [OF assms(1)] assms(2) by auto

lemma fifo_read_Some:
  assumes "fifo_read_blocking E s = Some (w, t)"
  shows "mot t = mot s" "mails (hist t) = Recv w # mails (hist s)"
    "step_words (hist t) = step_words (hist s)"
  using assms unfolding fifo_read_blocking_def reg_rd_def Let_def
  by (auto simp: bind_eq_Some_conv wait_bit_frame)

lemma fifo_write_Some:
  assumes "fifo_write_blocking E w s = Some t"
  shows "mot t = mot s" "mails (hist t) = Sent w # mails (hist s)"
    "step_words (hist t) = step_words (hist s)"
  using assms unfolding fifo_write_blocking_def
  by (auto simp: bind_eq_Some_conv wait_bit_frame)

lemma now_us_parts:
  obtains v s1 where "now_us E s = (v, s1)" "mot s1 = mot s"
    "hist s1 = map (Rd TIMER0_TIMERAWL) [v] @ hist s"
  by (rule that [OF prod.collapse [symmetric]]) (simp_all add: now_us_def reg_rd_def Let_def)

lemma delay_from_Some:
  assumes "delay_from E start us s = Some t"
  shows "mot t = mot s \<and> (\<exists>vs. hist t = map (Rd TIMER0_TIMERAWL) vs @ hist s)"
proof (rule delay_from.raw_induct [where P = "\<lambda>E start us s t. mot t = mot s \<and>
    (\<exists>vs. hist t = map (Rd TIMER0_TIMERAWL) vs @ hist s)", OF _ assms])
  fix f E start us s t
  assume IH: "\<And>E start us s t. f E start us s = Some t \<Longrightarrow> mot t = mot s \<and>
      (\<exists>vs. hist t = map (Rd TIMER0_TIMERAWL) vs @ hist s)"
    and step: "(let (now, s1) = now_us E s
          in if now - start < us then f E start us s1 else Some s1) = Some t"
  obtain v s1 where rd: "now_us E s = (v, s1)" "mot s1 = mot s"
    "hist s1 = map (Rd TIMER0_TIMERAWL) [v] @ hist s"
    by (rule now_us_parts)
  from step have "f E start us s1 = Some t \<or> s1 = t"
    by (cases "v - start < us") (simp_all add: rd(1))
  then show "mot t = mot s \<and> (\<exists>vs. hist t = map (Rd TIMER0_TIMERAWL) vs @ hist s)"
    using IH [of E start us s1 t] rd(2,3) by (metis append.assoc map_append)
qed

lemma delay_us_Some:
  assumes "delay_us E us s = Some t"
  shows "mot t = mot s \<and> (\<exists>vs. hist t = map (Rd TIMER0_TIMERAWL) vs @ hist s)"
proof -
  obtain v s1 where rd: "now_us E s = (v, s1)" "mot s1 = mot s"
    "hist s1 = map (Rd TIMER0_TIMERAWL) [v] @ hist s"
    by (rule now_us_parts)
  with assms have "delay_from E v us s1 = Some t" by (simp add: delay_us_def)
  from delay_from_Some [OF this] rd(2,3) show ?thesis by (metis append.assoc map_append)
qed

lemma delay_us_frame:
  assumes "delay_us E us s = Some t"
  shows "mot t = mot s" "mails (hist t) = mails (hist s)" "step_words (hist t) = step_words (hist s)"
  using delay_us_Some [OF assms] by auto

text \<open>The motion state a move starts from.\<close>

definition started :: "u32 \<Rightarrow> motion \<Rightarrow> motion" where
  [dev_eval]: "started steps M =
    (if steps = 0 then M
     else M\<lparr>m_remaining := (if 0 <s steps then steps else - steps), m_speed := MIN_SPEED_HZ,
       m_stop_req := 0, m_state := MOVING\<rparr>)"

lemma motion_start_Some:
  assumes "motion_start E steps s = Some t"
  shows "mot t = started steps (mot s)" "mails (hist t) = mails (hist s)"
    "step_words (hist t) = step_words (hist s)"
proof -
  let ?w = "reg_wr (if 0 <s steps then SIO_GPIO_OUT_SET else SIO_GPIO_OUT_CLR) (BIT PIN_DIR) s"
  have w: "mot ?w = mot s" "mails (hist ?w) = mails (hist s)" "step_words (hist ?w) = step_words (hist s)"
    by simp_all
  have "mot t = started steps (mot s) \<and> mails (hist t) = mails (hist s) \<and>
    step_words (hist t) = step_words (hist s)"
  proof (cases "steps = 0")
    case False
    with assms obtain u where u: "delay_us E 5 ?w = Some u"
      "t = u\<lparr>mot := (mot u)\<lparr>m_remaining := (if 0 <s steps then steps else - steps),
         m_speed := MIN_SPEED_HZ, m_stop_req := 0, m_state := MOVING\<rparr>\<rparr>"
      by (auto simp: motion_start_def bind_eq_Some_conv Let_def)
    from delay_us_frame [OF u(1)] w False show ?thesis by (simp add: u(2) started_def)
  qed (use assms in \<open>simp add: motion_start_def started_def\<close>)
  then show "mot t = started steps (mot s)" "mails (hist t) = mails (hist s)"
    "step_words (hist t) = step_words (hist s)" by blast+
qed

section \<open>The contract of the mailbox\<close>

text \<open>What a request does to the motion state, and its reply.\<close>

fun serve :: "stepper_cmd \<Rightarrow> u32 \<Rightarrow> motion \<Rightarrow> u32 \<times> motion" where
  "serve CMD_SPEED u M = (clamp_speed u, M\<lparr>m_max_speed := clamp_speed u\<rparr>)"
| "serve CMD_ACCEL u M = (accel_or DEF_ACCEL u, M\<lparr>m_accel := accel_or DEF_ACCEL u\<rparr>)"
| "serve CMD_DECEL u M = (accel_or DEF_DECEL u, M\<lparr>m_decel := accel_or DEF_DECEL u\<rparr>)"
| "serve CMD_MOVE u M =
    (if m_state M = MOVING then (STEPPER_ACK_BUSY, M) else (STEPPER_ACK_OK, started u M))"
| "serve CMD_STOP u M =
    (STEPPER_ACK_OK, if m_state M = MOVING then M\<lparr>m_stop_req := 1\<rparr> else M)"
| "serve CMD_STATUS u M = (status_reply M u, M)"

text \<open>The words of a request, oldest first.\<close>

fun request :: "stepper_cmd \<Rightarrow> u32 \<Rightarrow> u32 list" where
  "request CMD_STOP u = [cmd_code CMD_STOP]"
| "request c u = [cmd_code c, u]"

text \<open>One turn of the server: nothing was pending, or an opcode no one knows was dropped, or
  a whole request was taken and answered by exactly one word.\<close>

inductive turn :: "motion \<times> mail list \<Rightarrow> motion \<times> mail list \<Rightarrow> bool" where
  nothing: "turn (M, h) (M, h)"
| unknown: "op \<notin> range cmd_code \<Longrightarrow> turn (M, h) (M, Recv op # h)"
| served: "serve c u M = (r, M') \<Longrightarrow> turn (M, h) (M', Sent r # rev (map Recv (request c u)) @ h)"

lemma handle_command_turn:
  assumes "handle_command E s = Some t"
  shows "turn (mot s, mails (hist s)) (mot t, mails (hist t)) \<and>
    step_words (hist t) = step_words (hist s)"
proof -
  define st s1 where rd1: "st = fst (reg_rd E SIO_FIFO_ST s)" "s1 = snd (reg_rd E SIO_FIFO_ST s)"
  define op s2 where rd2: "op = fst (reg_rd E SIO_FIFO_RD s1)" "s2 = snd (reg_rd E SIO_FIFO_RD s1)"
  have s1: "mot s1 = mot s" "mails (hist s1) = mails (hist s)"
    "step_words (hist s1) = step_words (hist s)"
    by (simp_all add: rd1 reg_rd_def Let_def)
  have s2: "mot s2 = mot s" "mails (hist s2) = Recv op # mails (hist s)"
    "step_words (hist s2) = step_words (hist s)"
    using s1 by (simp_all add: rd2 reg_rd_def Let_def)
  note h = assms [unfolded handle_command_def Let_def split_beta, folded rd1, folded rd2]
  note frame = fifo_read_Some fifo_write_Some motion_start_Some s2
  show ?thesis
  proof (cases "st AND SIO_FIFO_ST_VLD_BITS E = 0")
    case True
    with h have "t = s1" by simp
    then show ?thesis using s1 by (simp add: turn.nothing)
  next
    case False
    note h = h [unfolded if_not_P [OF False]]
    show ?thesis
    proof (cases "op \<in> range cmd_code")
      case False
      then have "op \<noteq> cmd_code c" for c by auto
      with h have "t = s2" by (simp only: if_False simp_thms option.inject)
      then show ?thesis using s2 False by (simp add: turn.unknown)
    next
      case True
      then obtain c where c: "op = cmd_code c" by auto
      have "\<exists>u r M'. serve c u (mot s) = (r, M') \<and> mot t = M' \<and>
        mails (hist t) = Sent r # rev (map Recv (request c u)) @ mails (hist s) \<and>
        step_words (hist t) = step_words (hist s)"
      proof (cases "c = CMD_MOVE")
        case True
        with h c obtain u s3 where rd: "fifo_read_blocking E s2 = Some (u, s3)"
          and k: "(if m_state (mot s3) = MOVING then fifo_write_blocking E STEPPER_ACK_BUSY s3
            else motion_start E u s3 \<bind> fifo_write_blocking E STEPPER_ACK_OK) = Some t"
          by (auto simp: bind_eq_Some_conv cong: if_cong)
        note s3 = fifo_read_Some [OF rd]
        show ?thesis
        proof (cases "m_state (mot s) = MOVING")
          case moving: True
          with k s2 s3 have "fifo_write_blocking E STEPPER_ACK_BUSY s3 = Some t" by simp
          with moving True show ?thesis
            by (simp add: frame s3 c)
        next
          case idle: False
          with k s2 s3 obtain s4 where "motion_start E u s3 = Some s4"
            "fifo_write_blocking E STEPPER_ACK_OK s4 = Some t"
            by (auto simp: bind_eq_Some_conv)
          with idle True show ?thesis
            by (simp add: frame s3 c)
        qed
      next
        case False
        then show ?thesis using h c
        by (cases c)
          (auto simp: bind_eq_Some_conv frame mbox_unpack_float_def mbox_pack_float_def
            split: if_splits)
      qed
      then show ?thesis using turn.served by metis
    qed
  qed
qed

section \<open>What a request does to the motion state\<close>

text \<open>A float payload that is a number.\<close>

lemma f32_total: "\<not> f32_nan a \<Longrightarrow> \<not> f32_nan b \<Longrightarrow> \<not> f32_lt a b \<Longrightarrow> f32_le b a"
  by (auto simp: f32_lt_def f32_le_def f32_nan_def fp_lt_def fp_le_def)

lemma consts_not_nan [simp]: "\<not> f32_nan MIN_SPEED_HZ" "\<not> f32_nan ABS_MAX_SPEED"
  "\<not> f32_nan ABS_MAX_ACCEL" "\<not> f32_nan F0"
  using fin_consts by (simp_all add: fin_not_nan)

lemma clamp_speed_ok: "\<not> f32_nan v \<Longrightarrow> speed_ok (clamp_speed v)"
proof (cases "f32_lt v MIN_SPEED_HZ \<or> f32_lt ABS_MAX_SPEED v")
  case True
  then show ?thesis
    by (auto simp: clamp_speed_def speed_ok_iff fin_consts fv_consts)
next
  case False
  moreover assume "\<not> f32_nan v"
  ultimately show ?thesis
    using f32_total consts_not_nan unfolding clamp_speed_def speed_ok_def by auto
qed

lemma f32_total_lt: "\<not> f32_nan a \<Longrightarrow> \<not> f32_nan b \<Longrightarrow> \<not> f32_le a b \<Longrightarrow> f32_lt b a"
  by (auto simp: f32_lt_def f32_le_def f32_nan_def fp_lt_def fp_le_def)

lemma accel_or_ok: "\<not> f32_nan v \<Longrightarrow> accel_ok d \<Longrightarrow> accel_ok (accel_or d v)"
  using f32_total f32_total_lt consts_not_nan unfolding accel_or_def accel_ok_def by auto

lemma defaults_ok: "accel_ok DEF_ACCEL" "accel_ok DEF_DECEL" "speed_ok DEF_MAX_SPEED"
    "speed_ok MIN_SPEED_HZ"
  by (simp_all add: accel_ok_iff speed_ok_iff fin_consts fv_consts)

lemma started_ok: "motion_ok M \<Longrightarrow> motion_ok (started steps M)"
  using defaults_ok(4) by (simp add: motion_ok_def started_def)

text \<open>The float of a request, if it carries one, is a number.\<close>

fun payload_ok :: "stepper_cmd \<Rightarrow> u32 \<Rightarrow> bool" where
  "payload_ok CMD_SPEED u = (\<not> f32_nan u)"
| "payload_ok CMD_ACCEL u = (\<not> f32_nan u)"
| "payload_ok CMD_DECEL u = (\<not> f32_nan u)"
| "payload_ok _ u = True"

lemma serve_ok: "payload_ok c u \<Longrightarrow> motion_ok M \<Longrightarrow> motion_ok (snd (serve c u M))"
  using defaults_ok started_ok
  by (cases c) (simp_all add: clamp_speed_ok accel_or_ok motion_ok_def)

lemma M_init_ok: "motion_ok M_init"
  using defaults_ok by (simp add: M_init_def motion_ok_def)

inductive_cases turnE: "turn (M, h) (M', h')"

text \<open>All the requests of a history that carried a float carried a number: opcode and payload
  follow each other among the words received. (Newest first.)\<close>

fun clean :: "mail list \<Rightarrow> bool" where
  "clean (Sent r # Recv u # Recv op # h) =
     ((\<forall>c \<in> {CMD_SPEED, CMD_ACCEL, CMD_DECEL}. op = cmd_code c \<longrightarrow> \<not> f32_nan u) \<and> clean (Recv op # h))"
| "clean (m # h) = clean h"
| "clean [] = True"

lemma clean_suffix: "clean (m # h) \<Longrightarrow> clean h"
  by (cases "m # h" rule: clean.cases) auto

lemma turn_clean:
  assumes "turn (M, h) (M', h')" "clean h'"
  shows "clean h" and "motion_ok M \<Longrightarrow> motion_ok M'"
proof -
  consider (same) "M' = M" "h' = h" | (unknown) op where "M' = M" "h' = Recv op # h"
    | (served) c u r where "h' = Sent r # rev (map Recv (request c u)) @ h" "serve c u M = (r, M')"
    using assms(1) by (auto elim!: turnE)
  then have "clean h \<and> (motion_ok M \<longrightarrow> motion_ok M')"
  proof cases
    case (served c u r)
    show ?thesis
    proof (cases "c = CMD_STOP")
      case True
      have "clean h" using assms(2) served(1) True
        by (auto dest: clean_suffix)
      then show ?thesis using served(2) serve_ok [of c u M] True by simp
    next
      case False
      then have r: "rev (map Recv (request c u)) = [Recv u, Recv (cmd_code c)]" by (cases c) simp_all
      have "clean h" "payload_ok c u"
        using assms(2) served(1) unfolding r by (cases c; simp)+
      then show ?thesis using served(2) serve_ok [of c u M] by simp
    qed
  qed (use assms(2) in auto)
  then show "clean h" "motion_ok M \<Longrightarrow> motion_ok M'" by simp_all
qed

section \<open>A bench board\<close>

text \<open>Hardware for the examples: the other core sends the words of a script, the queue never
  fills, and twenty milliseconds pass between two accesses.\<close>

definition received :: "mmio list \<Rightarrow> nat" where
  [dev_eval]: "received h =
    length (filter (\<lambda>m. case m of Recv _ \<Rightarrow> True | Sent _ \<Rightarrow> False) (mails h))"

definition bench :: "u32 list \<Rightarrow> core1_hw" where
  [dev_eval]: "bench script = \<lparr>
     reg_val = (\<lambda>r h. case r of
         SIO_FIFO_ST \<Rightarrow> (if received h < length script then 3 else 2)
       | SIO_FIFO_RD \<Rightarrow> script ! received h
       | TIMER0_TIMERAWL \<Rightarrow> word_of_nat (20000 * length h)
       | PIO0_FSTAT \<Rightarrow> 0
       | _ \<Rightarrow> 0xFFFFFFFF),
     SIO_FIFO_ST_VLD_BITS = 1, SIO_FIFO_ST_RDY_BITS = 2,
     RESETS_RESET_TIMER0_BITS = 0x00800000, RESETS_RESET_PIO0_BITS = 0x00000800,
     M33_CPACR_CP10_BITS = 0x00300000, PADS_BANK0_GPIO0_ISO_BITS = 0x100,
     IO_BANK0_GPIO0_CTRL_FUNCSEL_LSB = 0,
     stepper_program_instructions = [0x80A0, 0xA047, 0xB022, 0x1043, 0xA022, 0x0045],
     stepper_wrap = 5, stepper_wrap_target = 0,
     bss_start = 0x20062C00, bss_end = 0x20062C08\<rparr>"

text \<open>To run the code on it: evaluation proceeds from access to access.\<close>

lemma bind_cong_weak: "m = n \<Longrightarrow> m \<bind> f = n \<bind> (f :: 'a \<Rightarrow> 'b option)"
  by simp

lemmas bench_eval = handle_command_def fifo_read_blocking_def fifo_write_blocking_def
  reg_rd_def reg_wr_def reg_clr_def event_def wait_bit.simps delay_from.simps delay_us_def
  now_us_def motion_start_def feed_loop_step feed_step_def pio_tx_full_def pio_push_step_def
  bench_def received_def Let_def M_init_def PIN_DIR_def PIN_ENABLE_def PIN_STEP_def BIT_def
  word_sle_eq word_sless_alt

section \<open>Properties\<close>

text \<open>
  C2: Refinement of the mailbox service. Whenever \<open>handle_command\<close> returns, it has done exactly
  one turn of the abstract server: nothing, or dropped one unknown opcode, or taken a whole
  request and answered it with exactly one word, with the effect of \<open>serve\<close> on the motion
  state. No step is pushed meanwhile.
\<close>

theorem handle_command_refines_server:
  assumes "handle_command E s = Some t"
  shows "turn (mot s, mails (hist s)) (mot t, mails (hist t)) \<and>
    step_words (hist t) = step_words (hist s)"
  by (rule handle_command_turn) (fact assms)

lemma handle_command_refines_server_witness:
  "\<exists>t. handle_command (bench [3, 2]) \<lparr>hist = [], mot = M_init\<rparr> = Some t \<and>
     turn (M_init, []) (mot t, mails (hist t)) \<and> mails (hist t) = [Sent 0, Recv 2, Recv 3]"
proof -
  have "\<exists>t. handle_command (bench [3, 2]) \<lparr>hist = [], mot = M_init\<rparr> = Some t \<and>
     mails (hist t) = [Sent 0, Recv 2, Recv 3]"
    by (simp add: bench_eval STEPPER_ACK_OK_def cong: bind_cong_weak split del: if_split)
  then show ?thesis using handle_command_refines_server by fastforce
qed

lemma int_min_iff: "sint (n :: u32) = - (2 ^ 31) \<longleftrightarrow> n = 0x80000000"
proof -
  have "sint (0x80000000 :: u32) = - (2 ^ 31)" by simp
  then show ?thesis by (metis signed_word_eqI)
qed

text \<open>
  A move request in the idle state is acknowledged and sets \<open>remaining\<close> to the magnitude of
  the signed step count; the one exception is \<open>INT32_MIN\<close>, whose negation wraps: it is
  acknowledged, but leaves a negative count, with which feeding ends the motion at once and
  pushes no step.
\<close>

lemma move_magnitude:
  assumes "m_state M = IDLE"
  shows "fst (serve CMD_MOVE n M) = STEPPER_ACK_OK \<and>
    (n = 0 \<or> m_state (snd (serve CMD_MOVE n M)) = MOVING \<and>
      sint (m_remaining (snd (serve CMD_MOVE n M))) =
        (if n = 0x80000000 then - (2 ^ 31) else \<bar>sint n\<bar>)) \<and>
    feed_step (s\<lparr>mot := snd (serve CMD_MOVE 0x80000000 M)\<rparr>) =
      (False, s\<lparr>mot := (snd (serve CMD_MOVE 0x80000000 M))\<lparr>m_state := IDLE, m_speed := 0\<rparr>\<rparr>)"
proof -
  have "sint (- n) = \<bar>sint n\<bar>" if "\<not> 0 <s n" "n \<noteq> 0x80000000"
    using that sint_neg [of n] sint_bounds32(1) [of n] int_min_iff [of n]
    by (simp add: word_sless_alt)
  moreover have "\<not> 0 <s (0x80000000 :: u32)" "- (0x80000000 :: u32) = 0x80000000"
    "sint (0x80000000 :: u32) = - (2 ^ 31)"
    by (simp_all add: word_sless_alt)
  ultimately show ?thesis
    using assms by (auto simp: started_def feed_step_def word_sless_alt word_sle_eq)
qed

lemma move_magnitude_example:
  "fst (serve CMD_MOVE (- 5) M_init) = STEPPER_ACK_OK \<and>
   sint (m_remaining (snd (serve CMD_MOVE (- 5) M_init))) = 5"
  using move_magnitude [of M_init "- 5"] by (simp add: M_init_def)

definition brake_window :: "motion \<Rightarrow> u32" where
  "brake_window M = f32_to_i32 (f32_add (f32_div
     (f32_sub (f32_mul (m_speed M) (m_speed M)) (f32_mul MIN_SPEED_HZ MIN_SPEED_HZ))
     (f32_mul F2 (m_decel M))) F1)"

lemma nan_mul: "f32_nan b \<Longrightarrow> f32_mul a b = enc32 (qnan 23 8)"
  by (cases "dec32 a"; cases "dec32 b") (simp add: f32_mul_def f32_nan_def fp_nan_def)

lemma nan_div: "f32_nan b \<Longrightarrow> f32_div a b = enc32 (qnan 23 8)"
  by (cases "dec32 a"; cases "dec32 b") (simp add: f32_div_def f32_nan_def fp_nan_def)

lemma nan_sub: "f32_nan a \<Longrightarrow> f32_sub a b = enc32 (qnan 23 8)"
  by (cases "dec32 a"; cases "dec32 b") (simp add: f32_sub_def fp_sub_def f32_nan_def fp_nan_def)

lemma qnan_nan: "f32_nan (enc32 (qnan 23 8))"
  by (simp add: dev_eval)

lemma nan_compares: "f32_nan b \<Longrightarrow> \<not> f32_lt a b" "f32_nan a \<Longrightarrow> \<not> f32_lt a b"
  by (simp_all add: f32_lt_def fp_lt_def f32_nan_def)

text \<open>
  C27: A NaN passes the clamp of \<open>CMD_SPEED\<close>: it becomes the speed limit, outside of the braking
  window the next step is given that speed, and its half-period word is zero, the fastest the
  PIO program can step.
\<close>

theorem nan_speed_runs_away:
  assumes "f32_nan u"
  shows "m_max_speed (snd (serve CMD_SPEED u M)) = u \<and> hz_to_half_period u = 0 \<and>
    (m_remaining M \<le>s brake_window M \<or> next_speed (snd (serve CMD_SPEED u M)) = u)"
proof -
  have "clamp_speed u = u" using assms by (simp add: clamp_speed_def nan_compares)
  moreover have "hz_to_half_period u = 0"
    using assms unfolding hz_to_half_period_def Let_def
    by (simp only: nan_mul nan_div nan_sub qnan_nan nan_compares if_False)
  ultimately show ?thesis
    using assms by (simp add: next_speed_def brake_window_def nan_compares Let_def)
qed

lemma nan_speed_runs_away_witness:
  "f32_nan 0x7FC00000 \<and> m_max_speed (snd (serve CMD_SPEED 0x7FC00000 M_init)) = 0x7FC00000 \<and>
   hz_to_half_period 0x7FC00000 = 0"
  using nan_speed_runs_away [of "0x7FC00000" M_init] by (simp add: dev_eval)

end
