(* ===== verification/Core1_Boot.thy ===== *)
theory Core1_Boot
  imports Core1_Command
begin

text \<open>
  The life of core1: the vector table and reset handler (\<open>core1/vectors.c\<close>,
  \<open>core1/start.c\<close>), the hardware set-up and the endless loop of \<open>core1_main\<close>
  (\<open>core1/core1_main.c\<close>). The loop is observed for a number of turns.
\<close>

section \<open>The code\<close>

datatype vector = Core1_stack_top | Core1_reset_handler | Core1_default_handler | Reserved

definition vector_table :: "vector list" where
  [dev_eval]: "vector_table =
    [Core1_stack_top, Core1_reset_handler, Core1_default_handler, Core1_default_handler,
     Core1_default_handler, Core1_default_handler, Core1_default_handler,
     Core1_default_handler, Reserved, Reserved, Reserved, Core1_default_handler,
     Core1_default_handler, Reserved, Core1_default_handler, Core1_default_handler]"

definition fpu_enable :: "core1_hw \<Rightarrow> core1 \<Rightarrow> core1" where
  "fpu_enable E s =
    (let (v, s1) = reg_rd E M33_CPACR s
     in event Isb (event Dsb (reg_wr M33_CPACR (v OR M33_CPACR_CP10_BITS E) s1)))"

definition enable_dir_init :: "core1_hw \<Rightarrow> core1 \<Rightarrow> core1" where
  "enable_dir_init E s =
    (let s1 = gpio_pad_init E PIN_ENABLE SIO_FUNCSEL s;
         s2 = reg_wr SIO_GPIO_OE_SET (BIT PIN_ENABLE) s1;
         s3 = reg_wr SIO_GPIO_OUT_SET (BIT PIN_ENABLE) s2;
         s4 = gpio_pad_init E PIN_DIR SIO_FUNCSEL s3;
         s5 = reg_wr SIO_GPIO_OE_SET (BIT PIN_DIR) s4
     in reg_wr SIO_GPIO_OUT_SET (BIT PIN_DIR) s5)"

definition timer0_init :: "core1_hw \<Rightarrow> core1 \<Rightarrow> core1 option" where
  "timer0_init E s =
    wait_bit E RESETS_RESET_DONE (RESETS_RESET_TIMER0_BITS E)
      (reg_clr RESETS_RESET (RESETS_RESET_TIMER0_BITS E) s)"

fun load_program :: "nat \<Rightarrow> u16 list \<Rightarrow> core1 \<Rightarrow> core1" where
  "load_program i [] s = s"
| "load_program i (w # ws) s = load_program (Suc i) ws (reg_wr (PIO0_INSTR_MEM i) (ucast w) s)"

definition pio_step_init :: "core1_hw \<Rightarrow> core1 \<Rightarrow> core1 option" where
  "pio_step_init E s = do {
     s1 \<leftarrow> wait_bit E RESETS_RESET_DONE (RESETS_RESET_PIO0_BITS E)
       (reg_clr RESETS_RESET (RESETS_RESET_PIO0_BITS E) s);
     let s2 = gpio_pad_init E PIN_STEP PIO0_FUNCSEL s1;
     let s3 = load_program 0 (stepper_program_instructions E) s2;
     let s4 = reg_wr PIO0_SM0_EXECCTRL
       (push_bit 12 (stepper_wrap E) OR push_bit 7 (stepper_wrap_target E)) s3;
     let s5 = reg_wr PIO0_SM0_PINCTRL (BIT 26 OR push_bit 5 (of_nat PIN_STEP)) s4;
     let s6 = reg_wr PIO0_SM0_INSTR 0xE09F s5;
     let s7 = reg_wr PIO0_SM0_PINCTRL (BIT 29 OR push_bit 10 (of_nat PIN_STEP)) s6;
     Some (reg_wr PIO0_CTRL 1 s7)
   }"

definition core1_setup :: "core1_hw \<Rightarrow> core1 \<Rightarrow> core1 option" where
  "core1_setup E s = do {
     s1 \<leftarrow> timer0_init E (enable_dir_init E s);
     s2 \<leftarrow> pio_step_init E s1;
     s3 \<leftarrow> delay_us E 10000 s2;
     Some (reg_wr SIO_GPIO_OUT_CLR (BIT PIN_ENABLE) s3)
   }"

text \<open>One turn of \<open>while (1)\<close>, and \<open>n\<close> of them.\<close>

definition main_turn :: "core1_hw \<Rightarrow> core1 \<Rightarrow> core1 option" where
  "main_turn E s = handle_command E (if m_state (mot s) = MOVING then feed_loop E s else s)"

primrec main_turns :: "core1_hw \<Rightarrow> nat \<Rightarrow> core1 \<Rightarrow> core1 option" where
  "main_turns E 0 s = Some s"
| "main_turns E (Suc n) s = do { t \<leftarrow> main_turn E s; main_turns E n t }"

definition core1_main :: "core1_hw \<Rightarrow> nat \<Rightarrow> core1 \<Rightarrow> core1 option" where
  "core1_main E n s = do { t \<leftarrow> core1_setup E s; main_turns E n t }"

text \<open>The words of the RAM by their addresses. The symbols of the linker script bound \<open>.bss\<close>.\<close>

type_synonym ram = "u32 \<Rightarrow> u32"

partial_function (option) clear_bss :: "u32 \<Rightarrow> u32 \<Rightarrow> ram \<Rightarrow> ram option" where
  [code]: "clear_bss p e r = (if p < e then clear_bss (p + 4) e (r(p := 0)) else Some r)"

definition core1_reset_handler :: "core1_hw \<Rightarrow> nat \<Rightarrow> ram \<Rightarrow> (ram \<times> core1) option" where
  "core1_reset_handler E n r = do {
     r1 \<leftarrow> clear_bss (bss_start E) (bss_end E) r;
     s \<leftarrow> core1_main E n (fpu_enable E \<lparr>hist = [], mot = M_init\<rparr>);
     Some (r1, s)
   }"

lemmas setup_eval = core1_setup_def enable_dir_init_def timer0_init_def pio_step_init_def
  gpio_pad_init_def

section \<open>Clearing \<open>.bss\<close>\<close>

text \<open>The words of a region: those at its start and at every fourth address after it, up to its end.\<close>

definition word_of_region :: "u32 \<Rightarrow> u32 \<Rightarrow> u32 \<Rightarrow> bool" where
  "word_of_region p e a \<longleftrightarrow> p \<le> a \<and> a < e \<and> 4 dvd unat a - unat p"

lemma word_of_region_step:
  assumes "p < e" "unat e + 4 \<le> 2 ^ 32"
  shows "unat (p + 4) = unat p + 4"
    "word_of_region p e a \<longleftrightarrow> a = p \<or> word_of_region (p + 4) e a"
proof -
  have "unat p < unat e" using assms(1) by (simp add: word_less_nat_alt)
  then have "unat p + 4 < 2 ^ 32" using assms(2) by linarith
  then show p4: "unat (p + 4) = unat p + 4" by (simp add: unat_word_ariths)
  have "4 dvd unat a - unat p \<longleftrightarrow> unat a = unat p \<or> unat p + 4 \<le> unat a \<and> 4 dvd unat a - (unat p + 4)"
    if "unat p \<le> unat a" using that by presburger
  then show "word_of_region p e a \<longleftrightarrow> a = p \<or> word_of_region (p + 4) e a"
    using assms(1) p4 by (auto simp: word_of_region_def word_le_nat_alt word_less_nat_alt word_unat_eq_iff)
qed

lemma clear_bss_zeroes:
  "unat e + 4 \<le> 2 ^ 32 \<Longrightarrow>
    clear_bss p e r = Some (\<lambda>a. if word_of_region p e a then 0 else r a)"
proof (induction "unat e - unat p" arbitrary: p r rule: less_induct)
  case less
  show ?case
  proof (cases "p < e")
    case True
    note step = word_of_region_step [OF True less.prems]
    have "unat e - unat (p + 4) < unat e - unat p"
      using True step(1) by (simp add: word_less_nat_alt)
    from less.hyps [OF this less.prems, of "r(p := 0)"]
    show ?thesis using True step(2) by (subst clear_bss.simps) (auto simp: fun_eq_iff)
  next
    case False
    then have "\<not> word_of_region p e a" for a by (auto simp: word_of_region_def)
    then show ?thesis using False by (subst clear_bss.simps) simp
  qed
qed

section \<open>Set-up\<close>

text \<open>An access that drives the ENABLE pin low.\<close>

primrec enables :: "mmio \<Rightarrow> bool" where
  "enables (Wr r v) = (r = SIO_GPIO_OUT_CLR \<and> v AND BIT PIN_ENABLE \<noteq> 0)"
| "enables (Rd r v) = False"
| "enables (Clr r v) = False"
| "enables Dsb = False"
| "enables Isb = False"
| "enables Sev = False"

text \<open>\<open>quiet s t\<close>: between \<open>s\<close> and \<open>t\<close> no step was pushed, no mail moved, the motion state is
  the same, and the driver was not enabled.\<close>

definition quiet :: "core1 \<Rightarrow> core1 \<Rightarrow> bool" where
  "quiet s t \<longleftrightarrow> mot t = mot s \<and> mails (hist t) = mails (hist s) \<and>
     step_words (hist t) = step_words (hist s) \<and>
     (\<exists>new. hist t = new @ hist s \<and> \<not> list_ex enables new)"

lemma quiet_refl [simp]: "quiet s s"
  by (simp add: quiet_def)

lemma quiet_trans [trans]: "quiet s t \<Longrightarrow> quiet t u \<Longrightarrow> quiet s u"
  unfolding quiet_def by (metis append.assoc list_ex_append)

lemma quiet_access:
  assumes "quiet s t"
  shows "r \<notin> {SIO_FIFO_WR, PIO0_TXF0, SIO_GPIO_OUT_CLR} \<Longrightarrow> quiet s (reg_wr r v t)"
    and "quiet s (reg_clr r v t)"
  using assms unfolding quiet_def by auto

lemma quiet_polls:
  assumes "hist t = map (Rd r) vs @ hist s" "mot t = mot s" "r \<noteq> SIO_FIFO_RD"
  shows "quiet s t"
proof -
  have "\<not> list_ex enables (map (Rd r) vs)" by (induction vs) simp_all
  then show ?thesis using assms by (auto simp: quiet_def)
qed

lemma quiet_wait:
  assumes "wait_bit E r msk s = Some t" "r \<noteq> SIO_FIFO_RD"
  shows "quiet s t"
proof -
  obtain vs v where "mot t = mot s" "hist t = map (Rd r) (v # vs) @ hist s"
    using wait_bit_Some [OF assms(1)] by auto
  with assms(2) show ?thesis by (blast intro: quiet_polls)
qed

lemma quiet_delay: "delay_us E us s = Some t \<Longrightarrow> quiet s t"
  using delay_us_Some [of E us s t] quiet_polls by blast

lemma quiet_pad: "quiet s t \<Longrightarrow> quiet s (gpio_pad_init E pin f t)"
  by (simp add: gpio_pad_init_def Let_def quiet_access)

lemma quiet_load: "quiet s t \<Longrightarrow> quiet s (load_program i ws t)"
  by (induction ws arbitrary: i t) (simp_all add: quiet_access)

lemma quiet_enable_dir: "quiet s (enable_dir_init E s)"
  by (simp add: enable_dir_init_def Let_def quiet_access quiet_pad)

lemma quiet_timer0: "timer0_init E s = Some t \<Longrightarrow> quiet s t"
  unfolding timer0_init_def using quiet_wait quiet_access(2) [OF quiet_refl] quiet_trans by blast

lemma quiet_pio_init:
  assumes "pio_step_init E s = Some t"
  shows "quiet s t"
proof -
  from assms obtain u where u: "wait_bit E RESETS_RESET_DONE (RESETS_RESET_PIO0_BITS E)
       (reg_clr RESETS_RESET (RESETS_RESET_PIO0_BITS E) s) = Some u"
    by (auto simp: pio_step_init_def bind_eq_Some_conv)
  have "quiet s u"
    using quiet_wait [OF u] quiet_access(2) [OF quiet_refl] quiet_trans by blast
  with assms u show ?thesis
    by (auto simp: pio_step_init_def Let_def intro!: quiet_access quiet_load quiet_pad)
qed

lemma core1_setup_quiet:
  assumes "core1_setup E s = Some t"
  obtains u where "quiet s u" "t = reg_wr SIO_GPIO_OUT_CLR (BIT PIN_ENABLE) u"
proof -
  from assms obtain s1 s2 s3 where u: "timer0_init E (enable_dir_init E s) = Some s1"
    "pio_step_init E s1 = Some s2" "delay_us E 10000 s2 = Some s3"
    "t = reg_wr SIO_GPIO_OUT_CLR (BIT PIN_ENABLE) s3"
    by (auto simp: core1_setup_def bind_eq_Some_conv)
  note quiet_enable_dir
  also note quiet_timer0 [OF u(1)]
  also note quiet_pio_init [OF u(2)]
  also note quiet_delay [OF u(3)]
  finally show ?thesis using u(4) by (rule that)
qed

section \<open>The main loop\<close>

text \<open>The queue is fed, then one turn of the mailbox is served.\<close>

lemma feed_loop_mails: "mails (hist (feed_loop E s)) = mails (hist s)"
proof (induction s rule: feed_loop_induct [of E])
  case (1 s)
  let ?s1 = "snd (pio_tx_full E s)"
  have "mails (hist ?s1) = mails (hist s)" by (simp add: pio_tx_full_def reg_rd_def Let_def)
  moreover have "mails (hist (snd (feed_step u))) = mails (hist u)" for u
    by (cases u rule: feed_step_cases) (simp_all add: feed_step_idle feed_step_end feed_step_push)
  ultimately show ?case using 1 unfolding feed_loop_step [of E s] by (simp add: Let_def)
qed

definition fed_state :: "core1_hw \<Rightarrow> core1 \<Rightarrow> core1" where
  "fed_state E s = (if m_state (mot s) = MOVING then feed_loop E s else s)"

lemma main_turn_parts:
  assumes "main_turn E s = Some t"
  shows "fed s (fed_state E s)" "mails (hist (fed_state E s)) = mails (hist s)"
    "turn (mot (fed_state E s), mails (hist s)) (mot t, mails (hist t))"
    "step_words (hist t) = step_words (hist (fed_state E s))"
proof -
  have h: "handle_command E (fed_state E s) = Some t"
    using assms by (simp add: main_turn_def fed_state_def)
  show "fed s (fed_state E s)" by (auto simp: fed_state_def fed.loop)
  show m: "mails (hist (fed_state E s)) = mails (hist s)"
    by (simp add: fed_state_def feed_loop_mails)
  show "turn (mot (fed_state E s), mails (hist s)) (mot t, mails (hist t))"
    "step_words (hist t) = step_words (hist (fed_state E s))"
    using handle_command_turn [OF h] by (simp_all add: m)
qed

text \<open>As long as no request carried a NaN, the motion state stays in range and so does every
  half-period.\<close>

lemma main_turn_safe:
  assumes "main_turn E s = Some t" "clean (mails (hist t))"
  shows "clean (mails (hist s))"
    "motion_ok (mot s) \<Longrightarrow> motion_ok (mot t) \<and>
       (list_all half_period_ok (step_words (hist s)) \<longrightarrow>
        list_all half_period_ok (step_words (hist t)))"
proof -
  note p = main_turn_parts [OF assms(1)]
  show "clean (mails (hist s))" using turn_clean(1) [OF p(3) assms(2)] .
  assume ok: "motion_ok (mot s)"
  then have "motion_ok (mot (fed_state E s))" using p(1) by (auto simp: fed_def)
  with turn_clean(2) [OF p(3) assms(2)] ok p(1,4)
  show "motion_ok (mot t) \<and> (list_all half_period_ok (step_words (hist s)) \<longrightarrow>
        list_all half_period_ok (step_words (hist t)))"
    by (auto simp: fed_def)
qed

lemma main_turns_clean: "main_turns E n s = Some t \<Longrightarrow> clean (mails (hist t)) \<Longrightarrow> clean (mails (hist s))"
proof (induction n arbitrary: s)
  case (Suc n)
  then obtain u where "main_turn E s = Some u" "main_turns E n u = Some t"
    by (auto simp: bind_eq_Some_conv)
  with Suc show ?case using main_turn_safe(1) by blast
qed simp

lemma main_turns_safe:
  assumes "main_turns E n s = Some t" "clean (mails (hist t))" "motion_ok (mot s)"
    "list_all half_period_ok (step_words (hist s))"
  shows "motion_ok (mot t) \<and> list_all half_period_ok (step_words (hist t))"
  using assms
proof (induction n arbitrary: s)
  case (Suc n)
  then obtain u where u: "main_turn E s = Some u" "main_turns E n u = Some t"
    by (auto simp: bind_eq_Some_conv)
  have "clean (mails (hist u))" using main_turns_clean [OF u(2)] Suc.prems by blast
  with main_turn_safe(2) [OF u(1)] Suc.prems show ?case
    by (intro Suc.IH [OF u(2)]) simp_all
qed simp

section \<open>Properties\<close>

text \<open>
  Set-up before motion. When the set-up of \<open>core1_main\<close> returns, driving ENABLE low is the
  last access it made, nothing before it enabled the driver through the output register, no
  step was pushed, no mail was read or sent, and the motion state is the initial one.
\<close>

lemma setup_before_enable:
  assumes "core1_setup E s = Some t"
  shows "mot t = mot s \<and> mails (hist t) = mails (hist s) \<and>
    step_words (hist t) = step_words (hist s) \<and>
    (\<exists>new. hist t = Wr SIO_GPIO_OUT_CLR (BIT PIN_ENABLE) # new @ hist s \<and>
       \<not> list_ex enables new)"
  by (rule core1_setup_quiet [OF assms]) (auto simp: quiet_def)

lemma setup_before_enable_example:
  "\<exists>t. core1_setup (bench []) \<lparr>hist = [], mot = M_init\<rparr> = Some t \<and> mot t = M_init"
proof -
  have "\<exists>t. core1_setup (bench []) \<lparr>hist = [], mot = M_init\<rparr> = Some t"
    by (simp add: setup_eval bench_eval cong: bind_cong_weak split del: if_split)
  then show ?thesis using setup_before_enable by fastforce
qed

text \<open>
  C1: Safety of the whole image. From reset on, however many turns the main loop makes and
  whatever hardware and the other core do, as long as no speed or acceleration request carried
  a NaN: the limit, accelerations and speed stay in their ranges, and every half-period word
  ever pushed into the PIO queue is between 465 and 1499997.
\<close>

theorem core1_speed_safety:
  assumes "core1_reset_handler E n r = Some (r1, t)" "clean (mails (hist t))"
  shows "motion_ok (mot t) \<and> list_all half_period_ok (step_words (hist t))"
proof -
  obtain s where s: "core1_setup E (fpu_enable E \<lparr>hist = [], mot = M_init\<rparr>) = Some s"
    "main_turns E n s = Some t"
    using assms(1) by (auto simp: core1_reset_handler_def core1_main_def bind_eq_Some_conv)
  obtain u where "quiet (fpu_enable E \<lparr>hist = [], mot = M_init\<rparr>) u"
    "s = reg_wr SIO_GPIO_OUT_CLR (BIT PIN_ENABLE) u"
    by (rule core1_setup_quiet [OF s(1)])
  then have "mot s = M_init" "step_words (hist s) = []"
    by (simp_all add: quiet_def fpu_enable_def reg_rd_def event_def Let_def)
  then show ?thesis using main_turns_safe [OF s(2) assms(2)] M_init_ok by simp
qed

lemma core1_speed_safety_witness:
  "\<exists>r1 t. core1_reset_handler (bench [3, 2]) (Suc (Suc 0)) (\<lambda>a. 7) = Some (r1, t) \<and>
     length (step_words (hist t)) = 2 \<and>
     list_all half_period_ok (step_words (hist t))"
proof -
  have "\<exists>r1 t. core1_reset_handler (bench [3, 2]) (Suc (Suc 0)) (\<lambda>a. 7) = Some (r1, t) \<and>
     length (step_words (hist t)) = 2 \<and> clean (mails (hist t))"
    by (simp add: core1_reset_handler_def core1_main_def fpu_enable_def main_turn_def setup_eval
        clear_bss_zeroes bench_eval
        cong: bind_cong_weak split del: if_split)
  then show ?thesis using core1_speed_safety by fastforce
qed

end
