(* ===== verification/Core1_Launch.thy ===== *)
theory Core1_Launch
  imports Core1_Boot
begin

text \<open>
  \<open>src/core1_launch.c\<close>: core0 copies the image of core1 into its RAM, resets the core and walks
  it through the bootrom's launch protocol, echo by echo. The registers are core0's view of the
  same bus; the image is the build's blob, a parameter.
\<close>

section \<open>The code\<close>

record core0 = bus +
  core1_ram :: "u8 list"

text \<open>The words of the RAM, little-endian; the image goes to its start.\<close>

definition CORE1_RAM_BASE :: u32 where
  [dev_eval]: "CORE1_RAM_BASE = 0x20062000"

definition ram_word :: "nat \<Rightarrow> core0 \<Rightarrow> u32" where
  "ram_word i s = le32 (drop (4 * i) (core1_ram s))"

definition load_image :: "u8 list \<Rightarrow> core0 \<Rightarrow> core0" where
  "load_image core1_blob s =
    s\<lparr>core1_ram := core1_blob @ drop (length core1_blob) (core1_ram s)\<rparr>"

definition core1_reset :: "core1_hw \<Rightarrow> u32 \<Rightarrow> core0 \<Rightarrow> core0 option" where
  "core1_reset E PSM_FRCE_OFF_PROC1_BITS s = do {
     let s1 = reg_wr PSM_FRCE_OFF_SET PSM_FRCE_OFF_PROC1_BITS s;
     s2 \<leftarrow> wait_bit E PSM_FRCE_OFF PSM_FRCE_OFF_PROC1_BITS s1;
     let s3 = reg_wr PSM_FRCE_OFF_CLR PSM_FRCE_OFF_PROC1_BITS s2;
     s4 \<leftarrow> wait_bit E SIO_FIFO_ST (SIO_FIFO_ST_VLD_BITS E) s3;
     Some (snd (reg_rd E SIO_FIFO_RD s4))
   }"

text \<open>\<open>while (fifo_st & VLD) (void)fifo_rd;\<close>\<close>

partial_function (option) drain_fifo :: "core1_hw \<Rightarrow> core0 \<Rightarrow> core0 option" where
  "drain_fifo E s =
    (let (st, s1) = reg_rd E SIO_FIFO_ST s
     in if st AND SIO_FIFO_ST_VLD_BITS E \<noteq> 0
        then drain_fifo E (snd (reg_rd E SIO_FIFO_RD s1)) else Some s1)"

text \<open>One round: the word is sent, the answer is the echo that is expected back.\<close>

definition launch_round :: "core1_hw \<Rightarrow> u32 \<Rightarrow> core0 \<Rightarrow> (u32 \<times> core0) option" where
  "launch_round E cmd s = do {
     s1 \<leftarrow> (if cmd = 0 then do { d \<leftarrow> drain_fifo E s; Some (event Sev d) } else Some s);
     s2 \<leftarrow> wait_bit E SIO_FIFO_ST (SIO_FIFO_ST_RDY_BITS E) s1;
     let s3 = event Sev (reg_wr SIO_FIFO_WR cmd s2);
     s4 \<leftarrow> wait_bit E SIO_FIFO_ST (SIO_FIFO_ST_VLD_BITS E) s3;
     Some (reg_rd E SIO_FIFO_RD s4)
   }"

partial_function (option) launch_loop ::
  "core1_hw \<Rightarrow> u32 list \<Rightarrow> nat \<Rightarrow> core0 \<Rightarrow> core0 option" where
  "launch_loop E cmd_sequence seq s =
    (if length cmd_sequence \<le> seq then Some s
     else do {
       (resp, t) \<leftarrow> launch_round E (cmd_sequence ! seq) s;
       launch_loop E cmd_sequence (if cmd_sequence ! seq = resp then seq + 1 else 0) t
     })"

definition launch_sequence :: "core0 \<Rightarrow> u32 list" where
  "launch_sequence s = [0, 0, 1, CORE1_RAM_BASE, ram_word 0 s, ram_word 1 s]"

definition core1_launch :: "core1_hw \<Rightarrow> u32 \<Rightarrow> u8 list \<Rightarrow> core0 \<Rightarrow> (int \<times> core0) option" where
  "core1_launch E PSM_FRCE_OFF_PROC1_BITS core1_blob s = do {
     let s1 = load_image core1_blob s;
     s2 \<leftarrow> core1_reset E PSM_FRCE_OFF_PROC1_BITS s1;
     s3 \<leftarrow> launch_loop E (launch_sequence s1) 0 s2;
     Some (0, s3)
   }"

section \<open>Rounds\<close>

text \<open>Reading the FIFO empty receives words and changes nothing else.\<close>

lemma drain_fifo_mails:
  assumes "drain_fifo E s = Some t"
  shows "\<exists>ws. mails (hist t) = map Recv ws @ mails (hist s)"
proof (rule drain_fifo.raw_induct [where P = "\<lambda>E s t.
    \<exists>ws. mails (hist t) = map Recv ws @ mails (hist s)", OF _ assms])
  fix f E s t
  assume IH: "\<And>E s t. f E s = Some t \<Longrightarrow> \<exists>ws. mails (hist t) = map Recv ws @ mails (hist s)"
    and eq: "(let (st, s1) = reg_rd E SIO_FIFO_ST s
     in if st AND SIO_FIFO_ST_VLD_BITS E \<noteq> 0 then f E (snd (reg_rd E SIO_FIFO_RD s1)) else Some s1)
      = Some t"
  define s1 where "s1 = snd (reg_rd E SIO_FIFO_ST s)"
  define s2 where "s2 = snd (reg_rd E SIO_FIFO_RD s1)"
  have m1: "mails (hist s1) = mails (hist s)" by (simp add: s1_def reg_rd_def Let_def)
  have m2: "mails (hist s2) = map Recv [reg_val E SIO_FIFO_RD (hist s1)] @ mails (hist s)"
    by (simp add: s2_def m1 reg_rd_def Let_def)
  have "f E s2 = Some t \<or> t = s1"
    using eq by (auto simp: split_beta s1_def s2_def split: if_splits)
  then show "\<exists>ws. mails (hist t) = map Recv ws @ mails (hist s)"
  proof
    assume "f E s2 = Some t"
    then obtain ws where "mails (hist t) = map Recv ws @ mails (hist s2)" using IH by blast
    then have "mails (hist t) = map Recv (ws @ [reg_val E SIO_FIFO_RD (hist s1)]) @ mails (hist s)"
      using m2 by simp
    then show ?thesis by blast
  next
    assume "t = s1"
    then have "mails (hist t) = map Recv [] @ mails (hist s)" using m1 by simp
    then show ?thesis by blast
  qed
qed

lemma wait_bit_mails:
  assumes "wait_bit E r msk s = Some t" "r \<noteq> SIO_FIFO_RD"
  shows "mails (hist t) = mails (hist s)"
  using wait_bit_polls [OF assms(1)] assms(2) by auto

lemma launch_round_mails:
  assumes "launch_round E cmd s = Some (resp, t)"
  shows "\<exists>ws. mails (hist t) = Recv resp # Sent cmd # map Recv ws @ mails (hist s) \<and>
    (ws = [] \<or> cmd = 0)"
proof -
  from assms obtain s1 s2 s4 where
    s1: "(if cmd = 0 then do { d \<leftarrow> drain_fifo E s; Some (event Sev d) } else Some s) = Some s1"
    and s2: "wait_bit E SIO_FIFO_ST (SIO_FIFO_ST_RDY_BITS E) s1 = Some s2"
    and s4: "wait_bit E SIO_FIFO_ST (SIO_FIFO_ST_VLD_BITS E) (event Sev (reg_wr SIO_FIFO_WR cmd s2)) = Some s4"
    and t: "(resp, t) = reg_rd E SIO_FIFO_RD s4"
    unfolding launch_round_def Let_def by (auto simp: bind_eq_Some_conv simp del: reg_rd_def)
  have "\<exists>ws. mails (hist s1) = map Recv ws @ mails (hist s) \<and> (ws = [] \<or> cmd = 0)"
    using s1 drain_fifo_mails by (cases "cmd = 0") (auto simp: bind_eq_Some_conv event_def)
  moreover have "mails (hist s2) = mails (hist s1)" using s2 by (rule wait_bit_mails) simp
  moreover have "mails (hist s4) = Sent cmd # mails (hist s2)"
    using wait_bit_mails [OF s4] by (simp add: event_def)
  moreover have "mails (hist t) = Recv resp # mails (hist s4)"
    using t by (simp add: reg_rd_def Let_def)
  ultimately show ?thesis by auto
qed

text \<open>The newest rounds of the mail sent the words \<open>cs\<close>, oldest first, and each came back as
  sent; words read to empty the FIFO precede a zero only.\<close>

inductive echoed :: "u32 list \<Rightarrow> mail list \<Rightarrow> bool" where
  none: "echoed [] h"
| round: "echoed cs h \<Longrightarrow> ws = [] \<or> c = 0 \<Longrightarrow>
    echoed (cs @ [c]) (Recv c # Sent c # map Recv ws @ h)"

lemma launch_loop_echoed:
  assumes "launch_loop E cs k s = Some t"
  shows "k \<le> length cs \<longrightarrow> echoed (take k cs) (mails (hist s)) \<longrightarrow> echoed cs (mails (hist t))"
proof (rule launch_loop.raw_induct [where P = "\<lambda>E cs k s t. k \<le> length cs \<longrightarrow>
    echoed (take k cs) (mails (hist s)) \<longrightarrow> echoed cs (mails (hist t))", OF _ assms])
  fix f E cs k s t
  assume IH: "\<And>E cs k s t. f E cs k s = Some t \<Longrightarrow> k \<le> length cs \<longrightarrow>
      echoed (take k cs) (mails (hist s)) \<longrightarrow> echoed cs (mails (hist t))"
    and eq: "(if length cs \<le> k then Some s
     else do {
       (resp, u) \<leftarrow> launch_round E (cs ! k) s;
       f E cs (if cs ! k = resp then k + 1 else 0) u
     }) = Some t"
  show "k \<le> length cs \<longrightarrow> echoed (take k cs) (mails (hist s)) \<longrightarrow> echoed cs (mails (hist t))"
  proof (intro impI)
    assume k: "k \<le> length cs" and ech: "echoed (take k cs) (mails (hist s))"
    show "echoed cs (mails (hist t))"
    proof (cases "length cs \<le> k")
      case True
      with eq ech k show ?thesis by simp
    next
      case False
      with eq obtain resp u where r: "launch_round E (cs ! k) s = Some (resp, u)"
        and rec: "f E cs (if cs ! k = resp then k + 1 else 0) u = Some t"
        by (auto simp: bind_eq_Some_conv)
      obtain ws where ws: "mails (hist u) = Recv resp # Sent (cs ! k) # map Recv ws @ mails (hist s)"
        "ws = [] \<or> cs ! k = 0"
        using launch_round_mails [OF r] by blast
      show ?thesis
      proof (cases "cs ! k = resp")
        case True
        have "echoed (take (k + 1) cs) (mails (hist u))"
          using echoed.round [OF ech ws(2)] False ws(1) True by (simp add: take_Suc_conv_app_nth)
        with IH [OF rec] True False show ?thesis by simp
      next
        case neq: False
        with IH [OF rec] show ?thesis by (simp add: echoed.none)
      qed
    qed
  qed
qed

section \<open>A bootrom that echoes\<close>

text \<open>The bootrom's side, as its data sheet documents the protocol: a word sent is soon
  answered by itself, and nothing else is pending once an answer was read.\<close>

definition bootrom_echoes :: "core1_hw \<Rightarrow> bool" where
  "bootrom_echoes E \<longleftrightarrow>
    (\<forall>h. soon E SIO_FIFO_ST (SIO_FIFO_ST_RDY_BITS E) h) \<and>
    (\<forall>h. (\<forall>w m. mails h \<noteq> Recv w # m) \<longrightarrow> soon E SIO_FIFO_ST (SIO_FIFO_ST_VLD_BITS E) h) \<and>
    (\<forall>h w m. mails h = Recv w # m \<longrightarrow> reg_val E SIO_FIFO_ST h AND SIO_FIFO_ST_VLD_BITS E = 0) \<and>
    (\<forall>h w m. mails h = Sent w # m \<longrightarrow> reg_val E SIO_FIFO_RD h = w)"

definition psm_follows :: "core1_hw \<Rightarrow> u32 \<Rightarrow> bool" where
  "psm_follows E b \<longleftrightarrow> (\<forall>h. soon E PSM_FRCE_OFF b (Wr PSM_FRCE_OFF_SET b # h))"

lemma launch_round_echo:
  assumes E: "bootrom_echoes E" and m: "mails (hist s) = Recv w # m"
  shows "\<exists>t ms. launch_round E cmd s = Some (cmd, t) \<and> mails (hist t) = Recv cmd # ms"
proof -
  note e = E [unfolded bootrom_echoes_def]
  have empty: "reg_val E SIO_FIFO_ST (hist s) AND SIO_FIFO_ST_VLD_BITS E = 0" using e m by blast
  obtain s1 where s1: "(if cmd = 0 then do { d \<leftarrow> drain_fifo E s; Some (event Sev d) } else Some s) = Some s1"
  proof (cases "cmd = 0")
    case True
    have "drain_fifo E s = Some (snd (reg_rd E SIO_FIFO_ST s))"
      using empty by (subst drain_fifo.simps) (simp add: reg_rd_def Let_def)
    with True show ?thesis by (intro that) simp
  qed (intro that, simp)
  obtain s2 where s2: "wait_bit E SIO_FIFO_ST (SIO_FIFO_ST_RDY_BITS E) s1 = Some s2"
    using e wait_bit_soon [of E SIO_FIFO_ST "SIO_FIFO_ST_RDY_BITS E" s1] by auto
  let ?s3 = "event Sev (reg_wr SIO_FIFO_WR cmd s2)"
  have m3: "mails (hist ?s3) = Sent cmd # mails (hist s2)" by (simp add: event_def)
  then obtain s4 where s4: "wait_bit E SIO_FIFO_ST (SIO_FIFO_ST_VLD_BITS E) ?s3 = Some s4"
    using e wait_bit_soon by (metis list.inject mail.distinct(1))
  have m4: "mails (hist s4) = Sent cmd # mails (hist s2)" using wait_bit_mails [OF s4] m3 by simp
  then have "reg_val E SIO_FIFO_RD (hist s4) = cmd" using e by blast
  then show ?thesis using s1 s2 s4 m4 by (simp add: launch_round_def reg_rd_def Let_def)
qed

lemma launch_loop_returns:
  assumes E: "bootrom_echoes E"
  shows "mails (hist s) = Recv w # m \<Longrightarrow> \<exists>t. launch_loop E cs k s = Some t"
proof (induction "length cs - k" arbitrary: k s w m)
  case 0
  then show ?case by (subst launch_loop.simps) simp
next
  case (Suc n)
  obtain t ms where r: "launch_round E (cs ! k) s = Some (cs ! k, t)"
    "mails (hist t) = Recv (cs ! k) # ms"
    using launch_round_echo [OF E Suc.prems] by blast
  have "n = length cs - (k + 1)" using Suc(2) by simp
  then obtain u where "launch_loop E cs (k + 1) t = Some u" using Suc(1) r(2) by blast
  then show ?case using r(1) by (subst launch_loop.simps) simp
qed

lemma core1_reset_returns:
  assumes E: "bootrom_echoes E" and psm: "psm_follows E b" and m: "mails (hist s) = []"
  shows "\<exists>t w. core1_reset E b s = Some t \<and> mails (hist t) = [Recv w]"
proof -
  obtain s2 where s2: "wait_bit E PSM_FRCE_OFF b (reg_wr PSM_FRCE_OFF_SET b s) = Some s2"
    using psm wait_bit_soon [of E PSM_FRCE_OFF b "reg_wr PSM_FRCE_OFF_SET b s"]
    unfolding psm_follows_def reg_wr_hist by blast
  then have m2: "mails (hist s2) = []" using m wait_bit_mails [OF s2] by simp
  let ?s3 = "reg_wr PSM_FRCE_OFF_CLR b s2"
  have "mails (hist ?s3) = []" using m2 by simp
  moreover from this obtain s4 where
    s4: "wait_bit E SIO_FIFO_ST (SIO_FIFO_ST_VLD_BITS E) ?s3 = Some s4"
    using E wait_bit_soon unfolding bootrom_echoes_def by (metis list.distinct(1))
  ultimately have "mails (hist s4) = []" using wait_bit_mails [OF s4] by simp
  then show ?thesis using s2 s4 by (simp add: core1_reset_def reg_rd_def Let_def)
qed

section \<open>Properties\<close>

text \<open>
  C32: The handshake is complete when the launch returns. However often the bootrom broke off and
  the sequence began again, \<open>core1_launch\<close> returns 0 only after the words 0, 0, 1, the vector
  table's address and the two first words of the image were sent in this order, each
  acknowledged by its echo before the next.
\<close>

theorem launch_completes_handshake:
  assumes "core1_launch E b core1_blob s = Some (ret, t)"
  shows "ret = 0 \<and> echoed (launch_sequence (load_image core1_blob s)) (mails (hist t))"
proof -
  from assms obtain s2 where "launch_loop E (launch_sequence (load_image core1_blob s)) 0 s2 = Some t"
    and "ret = 0"
    by (auto simp: core1_launch_def bind_eq_Some_conv Let_def)
  from launch_loop_echoed [OF this(1)] this(2) show ?thesis by (simp add: echoed.none)
qed

text \<open>A bench with an echoing bootrom.\<close>

definition echo_bench :: core1_hw where
  "echo_bench = bench []\<lparr>reg_val := \<lambda>r h.
     if r = SIO_FIFO_ST then (case mails h of Recv w # m \<Rightarrow> 2 | _ \<Rightarrow> 3)
     else if r = SIO_FIFO_RD then (case mails h of Sent w # m \<Rightarrow> w | _ \<Rightarrow> 0)
     else 0xFFFFFFFF\<rparr>"

lemma echo_bench_ok: "bootrom_echoes echo_bench" "psm_follows echo_bench 1"
  by (auto simp: bootrom_echoes_def psm_follows_def soon_def echo_bench_def bench_def
      split: list.splits mail.splits)

lemma core1_launch_returns:
  assumes "bootrom_echoes E" "psm_follows E b" "mails (hist s) = []"
  shows "\<exists>t. core1_launch E b core1_blob s = Some (0, t)"
proof -
  have "mails (hist (load_image core1_blob s)) = []" using assms(3) by (simp add: load_image_def)
  then obtain u w where u: "core1_reset E b (load_image core1_blob s) = Some u"
    "mails (hist u) = [Recv w]"
    using core1_reset_returns [OF assms(1,2)] by blast
  obtain t where "launch_loop E (launch_sequence (load_image core1_blob s)) 0 u = Some t"
    using launch_loop_returns [OF assms(1) u(2)] by blast
  then show ?thesis by (simp add: core1_launch_def u)
qed

lemma launch_completes_handshake_witness:
  "\<exists>t. core1_launch echo_bench 1 [0, 0x20, 0x06, 0x20, 9, 0, 0x06, 0x20]
      \<lparr>hist = [], core1_ram = replicate 16 0\<rparr> = Some (0, t) \<and>
     echoed [0, 0, 1, 0x20062000, 0x20062000, 0x20060009] (mails (hist t))"
proof -
  let ?blob = "[0, 0x20, 0x06, 0x20, 9, 0, 0x06, 0x20] :: u8 list"
  let ?s = "\<lparr>hist = [], core1_ram = replicate 16 0\<rparr> :: core0"
  have "launch_sequence (load_image ?blob ?s) = [0, 0, 1, 0x20062000, 0x20062000, 0x20060009]"
    by (simp add: launch_sequence_def load_image_def ram_word_def dev_eval)
  moreover obtain t where "core1_launch echo_bench 1 ?blob ?s = Some (0, t)"
    using core1_launch_returns [OF echo_bench_ok, of ?s ?blob] by auto
  ultimately show ?thesis using launch_completes_handshake by metis
qed

end
