(* ===== verification/Core1_Live.thy ===== *)
theory Core1_Live
  imports Core1_Boot
begin

text \<open>
  Liveness of core1: what the image waits for, as named assumptions on the hardware and on the
  other core, and that under them every wait ends, so that set-up is completed and the main
  loop keeps turning.
\<close>

section \<open>Hardware that answers\<close>

text \<open>The microsecond timer counts a clock that every access takes some cycles of, one
  microsecond at most.\<close>

definition timer_runs :: "core1_hw \<Rightarrow> (mmio list \<Rightarrow> nat) \<Rightarrow> nat \<Rightarrow> bool" where
  "timer_runs E cyc k \<longleftrightarrow> 0 < k \<and>
     (\<forall>h. reg_val E TIMER0_TIMERAWL h = word_of_nat (cyc h div k)) \<and>
     (\<forall>e h. cyc h < cyc (e # h) \<and> cyc (e # h) \<le> cyc h + k)"

lemma word_of_nat_diff: "m \<le> n \<Longrightarrow> n - m < 2 ^ 32 \<Longrightarrow> unat (word_of_nat n - word_of_nat m :: u32) = n - m"
proof -
  assume "m \<le> n" "n - m < 2 ^ 32"
  then have "word_of_nat n - word_of_nat m = (word_of_nat (n - m) :: u32)" by simp
  then show ?thesis using \<open>n - m < 2 ^ 32\<close> by (simp only:) (simp add: unat_of_nat)
qed

lemma delay_from_timed:
  assumes timer: "timer_runs E cyc k" and us: "unat us < 2 ^ 32 - 1"
    and start: "start = word_of_nat c" and "c \<le> cyc (hist s) div k"
    "cyc (hist s) div k \<le> c + unat us + 1"
  shows "\<exists>t. delay_from E start us s = Some t \<and>
    c + unat us \<le> cyc (tl (hist t)) div k \<and> cyc (tl (hist t)) div k \<le> c + unat us + 1"
  using assms(4,5)
proof (induction "(c + unat us) * k - cyc (hist s)" arbitrary: s rule: less_induct)
  case less
  note tr = timer [unfolded timer_runs_def]
  let ?now = "cyc (hist s) div k"
  let ?u = "s\<lparr>hist := Rd TIMER0_TIMERAWL (word_of_nat ?now) # hist s\<rparr>"
  have rd: "now_us E s = (word_of_nat ?now, ?u)"
    using tr by (simp add: now_us_def reg_rd_def Let_def)
  have d: "unat (word_of_nat ?now - start) = ?now - c"
    unfolding start using less.prems us by (intro word_of_nat_diff) simp_all
  show ?case
  proof (cases "?now - c < unat us")
    case True
    have "word_of_nat ?now - start < us" using True d by (simp add: word_less_nat_alt)
    then have step: "delay_from E start us s = delay_from E start us ?u"
      by (subst delay_from.simps) (simp add: rd)
    have cyc: "cyc (hist s) < cyc (hist ?u)" "cyc (hist ?u) \<le> cyc (hist s) + k" using tr by simp_all
    have "?now < c + unat us" using True less.prems by linarith
    then have "cyc (hist s) < (c + unat us) * k" using tr by (simp add: div_less_iff_less_mult)
    then have "(c + unat us) * k - cyc (hist ?u) < (c + unat us) * k - cyc (hist s)"
      using cyc(1) by linarith
    moreover have "c \<le> cyc (hist ?u) div k"
      using less.prems(1) cyc(1) by (meson div_le_mono le_trans less_imp_le)
    moreover have "cyc (hist ?u) div k \<le> ?now + 1"
      using div_le_mono [OF cyc(2), of k] tr by simp
    then have "cyc (hist ?u) div k \<le> c + unat us + 1" using \<open>?now < c + unat us\<close> by linarith
    ultimately have "\<exists>t. delay_from E start us ?u = Some t \<and>
        c + unat us \<le> cyc (tl (hist t)) div k \<and> cyc (tl (hist t)) div k \<le> c + unat us + 1"
      by (rule less.hyps)
    then show ?thesis by (simp only: step)
  next
    case False
    then have "\<not> word_of_nat ?now - start < us" using d by (simp add: word_less_nat_alt)
    then have "delay_from E start us s = Some ?u" by (subst delay_from.simps) (simp add: rd)
    then show ?thesis using False less.prems by simp
  qed
qed

text \<open>The delay returns, on a reading of the timer at least \<open>us\<close> later than the first one.\<close>

lemma delay_us_timed:
  assumes timer: "timer_runs E cyc k" and us: "unat us < 2 ^ 32 - 1"
  shows "\<exists>t. delay_us E us s = Some t \<and>
    cyc (hist s) div k + unat us \<le> cyc (tl (hist t)) div k \<and>
    cyc (tl (hist t)) div k \<le> cyc (hist s) div k + unat us + 1"
proof -
  note tr = timer [unfolded timer_runs_def]
  let ?c = "cyc (hist s) div k"
  let ?u = "s\<lparr>hist := Rd TIMER0_TIMERAWL (word_of_nat ?c) # hist s\<rparr>"
  have rd: "now_us E s = (word_of_nat ?c, ?u)"
    using tr by (simp add: now_us_def reg_rd_def Let_def)
  have cyc: "cyc (hist s) < cyc (hist ?u)" "cyc (hist ?u) \<le> cyc (hist s) + k" using tr by simp_all
  have "?c \<le> cyc (hist ?u) div k" using cyc(1) by (intro div_le_mono) simp
  moreover have "cyc (hist ?u) div k \<le> ?c + unat us + 1"
    using div_le_mono [OF cyc(2), of k] tr by simp
  ultimately have "\<exists>t. delay_from E (word_of_nat ?c) us ?u = Some t \<and>
    ?c + unat us \<le> cyc (tl (hist t)) div k \<and> cyc (tl (hist t)) div k \<le> ?c + unat us + 1"
    by (intro delay_from_timed [OF timer us refl])
  then show ?thesis by (simp add: delay_us_def rd)
qed

section \<open>A peer and a board that answer\<close>

text \<open>The other core reads its replies, and sends the second word of a request soon after the
  first.\<close>

definition peer_answers :: "core1_hw \<Rightarrow> bool" where
  "peer_answers E \<longleftrightarrow> (\<forall>h. soon E SIO_FIFO_ST (SIO_FIFO_ST_RDY_BITS E) h) \<and>
     (\<forall>c h. c \<noteq> CMD_STOP \<longrightarrow>
        soon E SIO_FIFO_ST (SIO_FIFO_ST_VLD_BITS E) (Rd SIO_FIFO_RD (cmd_code c) # h))"

definition resets_finish :: "core1_hw \<Rightarrow> bool" where
  "resets_finish E \<longleftrightarrow> (\<forall>b h. b \<in> {RESETS_RESET_TIMER0_BITS E, RESETS_RESET_PIO0_BITS E} \<longrightarrow>
     soon E RESETS_RESET_DONE b (Clr RESETS_RESET b # h))"

lemma fifo_write_returns: "peer_answers E \<Longrightarrow> \<exists>t. fifo_write_blocking E w s = Some t"
  using wait_bit_soon [of E SIO_FIFO_ST "SIO_FIFO_ST_RDY_BITS E" s]
  by (auto simp: fifo_write_blocking_def peer_answers_def)

lemma fifo_read_returns:
  "peer_answers E \<Longrightarrow> c \<noteq> CMD_STOP \<Longrightarrow> hist s = Rd SIO_FIFO_RD (cmd_code c) # h \<Longrightarrow>
     \<exists>u t. fifo_read_blocking E s = Some (u, t)"
  using wait_bit_soon [of E SIO_FIFO_ST "SIO_FIFO_ST_VLD_BITS E" s]
  by (auto simp: fifo_read_blocking_def peer_answers_def)

lemma motion_start_returns:
  assumes "timer_runs E cyc k"
  shows "\<exists>t. motion_start E steps s = Some t"
proof -
  have "\<exists>u. delay_us E 5 v = Some u" for v using delay_us_timed [OF assms, of 5 v] by auto
  then show ?thesis unfolding motion_start_def Let_def
    by (metis bind.bind_lunit)
qed

lemma handle_command_returns:
  assumes peer: "peer_answers E" and timer: "timer_runs E cyc k"
  shows "\<exists>t. handle_command E s = Some t"
proof -
  define st s1 where rd1: "st = fst (reg_rd E SIO_FIFO_ST s)" "s1 = snd (reg_rd E SIO_FIFO_ST s)"
  define op s2 where rd2: "op = fst (reg_rd E SIO_FIFO_RD s1)" "s2 = snd (reg_rd E SIO_FIFO_RD s1)"
  have s2: "hist s2 = Rd SIO_FIFO_RD op # hist s1" by (simp add: rd2 reg_rd_def Let_def)
  have reply: "\<exists>t. fifo_write_blocking E w u = Some t" for w u
    using peer by (rule fifo_write_returns)
  note h = handle_command_def [of E s, unfolded Let_def split_beta, folded rd1, folded rd2]
  show ?thesis
  proof (cases "st AND SIO_FIFO_ST_VLD_BITS E = 0 \<or> op \<notin> range cmd_code")
    case True
    show ?thesis
    proof (cases "st AND SIO_FIFO_ST_VLD_BITS E = 0")
      case True
      then show ?thesis unfolding h by simp
    next
      case False
      with \<open>st AND SIO_FIFO_ST_VLD_BITS E = 0 \<or> op \<notin> range cmd_code\<close>
      have "op \<noteq> cmd_code c" for c by auto
      with False show ?thesis unfolding h by (simp only: if_False) blast
    qed
  next
    case False
    then obtain c where c: "op = cmd_code c" and v: "st AND SIO_FIFO_ST_VLD_BITS E \<noteq> 0" by auto
    show ?thesis
    proof (cases "c = CMD_STOP")
      case True
      then show ?thesis using v reply unfolding h c by simp
    next
      case False
      then obtain u s3 where rd: "fifo_read_blocking E s2 = Some (u, s3)"
        using fifo_read_returns [OF peer False s2 [unfolded c]] by blast
      obtain s4 where m: "motion_start E u s3 = Some s4" using motion_start_returns [OF timer] by blast
      show ?thesis using v False reply unfolding h c by (cases c) (simp_all add: rd m)
    qed
  qed
qed

lemma main_turns_return:
  "peer_answers E \<Longrightarrow> timer_runs E cyc k \<Longrightarrow> \<exists>t. main_turns E n s = Some t"
proof (induction n arbitrary: s)
  case (Suc n)
  obtain u where "main_turn E s = Some u"
    using handle_command_returns [OF Suc.prems] unfolding main_turn_def by blast
  with Suc.IH [OF Suc.prems] show ?case by simp
qed simp

lemma core1_setup_returns:
  assumes resets: "resets_finish E" and timer: "timer_runs E cyc k"
  shows "\<exists>t. core1_setup E s = Some t"
proof -
  have wait: "\<exists>u. wait_bit E RESETS_RESET_DONE b (reg_clr RESETS_RESET b v) = Some u"
    if "b \<in> {RESETS_RESET_TIMER0_BITS E, RESETS_RESET_PIO0_BITS E}" for b v
    using resets that by (intro wait_bit_soon) (simp only: reg_clr_hist resets_finish_def)
  obtain s1 where s1: "timer0_init E (enable_dir_init E s) = Some s1"
    unfolding timer0_init_def using wait by blast
  obtain s2 where s2: "pio_step_init E s1 = Some s2"
    using wait [of "RESETS_RESET_PIO0_BITS E" s1] by (auto simp: pio_step_init_def Let_def)
  obtain s3 where "delay_us E 10000 s2 = Some s3"
    using delay_us_timed [OF timer, of 10000 s2] by auto
  then show ?thesis by (simp add: core1_setup_def s1 s2)
qed

section \<open>A move runs to its end\<close>

text \<open>\<open>no_requests E h\<close>: from the history \<open>h\<close> on no request is pending.\<close>

definition no_requests :: "core1_hw \<Rightarrow> mmio list \<Rightarrow> bool" where
  "no_requests E h0 \<longleftrightarrow> (\<forall>new. reg_val E SIO_FIFO_ST (new @ h0) AND SIO_FIFO_ST_VLD_BITS E = 0)"

definition is_push :: "mmio \<Rightarrow> bool" where
  "is_push e \<longleftrightarrow> (\<exists>w. e = Wr PIO0_TXF0 w)"

text \<open>
  The queue of the PIO, from the history \<open>h0\<close> on: it holds \<open>queued\<close> words, at most four; only a push
  puts one in, and the full bit of \<open>FSTAT\<close> says that there are four. The state machine takes a waiting
  word within the time of some \<open>K\<close> accesses: every access takes a cycle or more, and a step takes no
  more cycles than its half-period says.
\<close>

definition pio_queue :: "core1_hw \<Rightarrow> (mmio list \<Rightarrow> nat) \<Rightarrow> nat \<Rightarrow> mmio list \<Rightarrow> bool" where
  "pio_queue E queued K h0 \<longleftrightarrow>
     (\<forall>new. let h = new @ h0 in queued h \<le> 4 \<and>
        (reg_val E PIO0_FSTAT h AND BIT 16 \<noteq> 0 \<longleftrightarrow> queued h = 4) \<and>
        (\<forall>e. queued (e # h) \<le> (if is_push e then Suc (queued h) else queued h)) \<and>
        (\<forall>later. K \<le> length later \<and> \<not> list_ex is_push later \<longrightarrow> queued (later @ h) \<le> queued h - 1))"

lemma pio_queue_later: "pio_queue E queued K h0 \<Longrightarrow> pio_queue E queued K (new @ h0)"
  unfolding pio_queue_def by (metis append.assoc)

lemma no_requests_later: "no_requests E h0 \<Longrightarrow> no_requests E (new @ h0)"
  unfolding no_requests_def by (metis append.assoc)

lemma pio_queue_room:
  assumes "pio_queue E queued K h0" "K \<le> length later" "\<not> list_ex is_push later"
  shows "reg_val E PIO0_FSTAT (later @ h0) AND BIT 16 = 0"
proof -
  note q = assms(1) [unfolded pio_queue_def Let_def]
  have "queued h0 \<le> 4" using spec [OF q, of "[]"] by simp
  moreover have "queued (later @ h0) \<le> queued h0 - 1" using spec [OF q, of "[]"] assms(2,3) by simp
  ultimately have "queued (later @ h0) \<noteq> 4" by linarith
  then show ?thesis using spec [OF q, of later] by blast
qed

text \<open>A move that is under way and was not stopped, or has ended by itself.\<close>

definition under_way :: "core1 \<Rightarrow> bool" where
  "under_way s \<longleftrightarrow> m_stop_req (mot s) = 0 \<and> 0 \<le> steps_left s \<and>
     (m_state (mot s) = MOVING \<or> steps_left s = 0)"

lemma feed_step_under_way: "under_way s \<Longrightarrow> under_way (snd (feed_step s))"
  by (cases s rule: feed_step_cases)
    (auto simp: under_way_def feed_step_idle feed_step_end feed_step_push sint_dec)

lemma feed_loop_under_way: "under_way s \<Longrightarrow> under_way (feed_loop E s)"
proof (induction s rule: feed_loop_induct [of E])
  case (1 s)
  have "under_way (snd (pio_tx_full E s))" using 1(2) by (simp add: under_way_def)
  then show ?case
    using 1(1) feed_step_under_way unfolding feed_loop_step [of E s] by (simp add: Let_def)
qed

text \<open>A turn in which no mail moved leaves the fed state.\<close>

lemma main_turn_no_mail:
  assumes "main_turn E s = Some t" "mails (hist t) = mails (hist s)"
  shows "mot t = mot (fed_state E s)" "step_words (hist t) = step_words (hist (fed_state E s))"
proof -
  note p = main_turn_parts [OF assms(1)]
  show "mot t = mot (fed_state E s)" using p(3) assms(2) by (auto elim!: turnE)
  show "step_words (hist t) = step_words (hist (fed_state E s))" by (rule p(4))
qed

lemma turn_mails: "turn (M, h) (M', h') \<Longrightarrow> \<exists>new. h' = new @ h"
  by (auto elim!: turnE)

lemma main_turns_mails: "main_turns E n s = Some t \<Longrightarrow> \<exists>new. mails (hist t) = new @ mails (hist s)"
proof (induction n arbitrary: s)
  case (Suc n)
  then obtain u where "main_turn E s = Some u" "main_turns E n u = Some t"
    by (auto simp: bind_eq_Some_conv)
  with Suc.IH main_turn_parts(3) turn_mails show ?case by (metis append.assoc)
qed simp

context feeding begin

lemma turn: "main_turn E s = Some t \<Longrightarrow> mails (hist t) = mails (hist s) \<Longrightarrow> along s t"
  using main_turn_no_mail [of E s t] along_same [of t "fed_state E s"] loop [of s E]
  by (auto simp: fed_state_def intro: along_trans split: if_splits)

lemma turns:
  assumes "main_turns E n s = Some t" "mails (hist t) = mails (hist s)"
  shows "along s t"
  using assms
proof (induction n arbitrary: s)
  case (Suc n)
  then obtain u where u: "main_turn E s = Some u" "main_turns E n u = Some t"
    by (auto simp: bind_eq_Some_conv)
  obtain v w where "mails (hist t) = v @ mails (hist u)" "mails (hist u) = w @ mails (hist s)"
    using main_turns_mails [OF u(2)] turn_mails [OF main_turn_parts(3) [OF u(1)]] by blast
  with Suc.prems(2) have m: "mails (hist u) = mails (hist s)" "mails (hist t) = mails (hist u)" by auto
  show ?case by (rule along_trans [OF turn [OF u(1) m(1)] Suc.IH [OF u(2) m(2)]])
qed (simp add: along_same)

end

text \<open>Every turn takes at least one step off a move, or ends it.\<close>

lemma fed_steps: "fed s t \<Longrightarrow> steps_left t \<le> steps_left s"
  unfolding fed_def by auto

lemma idle_feed_step: "m_state (mot s) = MOVING \<Longrightarrow> \<not> fst (feed_step s) \<Longrightarrow>
    m_state (mot (snd (feed_step s))) = IDLE"
  by (cases s rule: feed_step_cases) (auto simp: feed_step_idle feed_step_end feed_step_push)

text \<open>Feeding only adds to the history.\<close>

lemma fed_state_extends: "\<exists>new. hist (fed_state E s) = new @ hist s"
proof -
  have step: "\<exists>new. hist (snd (feed_step u)) = new @ hist u" for u
    by (cases u rule: feed_step_cases) (auto simp: feed_step_idle feed_step_end feed_step_push)
  have full: "\<exists>new. hist (snd (pio_tx_full E u)) = new @ hist u" for u
    by (simp add: pio_tx_full_def reg_rd_def Let_def)
  have "\<exists>new. hist (feed_loop E s) = new @ hist s"
  proof (induction s rule: feed_loop_induct [of E])
    case (1 s)
    let ?s1 = "snd (pio_tx_full E s)" let ?s2 = "snd (feed_step ?s1)"
    obtain x y where "hist ?s1 = x @ hist s" "hist ?s2 = y @ hist ?s1" using full step by blast
    moreover have "\<exists>z. hist (feed_loop E ?s2) = z @ hist ?s2"
      if "\<not> fst (pio_tx_full E s)" "fst (feed_step ?s1)" using 1 that by blast
    ultimately show ?case unfolding feed_loop_step [of E s] Let_def by auto
  qed
  then show ?thesis by (simp add: fed_state_def)
qed

text \<open>A turn without a request is one feeding and one look at the mailbox.\<close>

lemma main_turn_quiet:
  assumes "no_requests E (hist s)"
  shows "main_turn E s = Some (snd (reg_rd E SIO_FIFO_ST (fed_state E s)))"
proof -
  obtain new where "hist (fed_state E s) = new @ hist s" using fed_state_extends [of E s] by blast
  with assms have "handle_command E (fed_state E s) = Some (snd (reg_rd E SIO_FIFO_ST (fed_state E s)))"
    by (simp add: handle_command_def reg_rd_def Let_def no_requests_def)
  then show ?thesis by (simp add: main_turn_def fed_state_def)
qed

lemma main_turns_quiet:
  "no_requests E (hist s) \<Longrightarrow> \<exists>t. main_turns E n s = Some t \<and> mails (hist t) = mails (hist s) \<and>
     (under_way s \<longrightarrow> under_way t) \<and> (\<exists>new. hist t = new @ hist s)"
proof (induction n arbitrary: s)
  case (Suc n)
  let ?u = "snd (reg_rd E SIO_FIFO_ST (fed_state E s))"
  obtain new where "hist (fed_state E s) = new @ hist s" using fed_state_extends [of E s] by blast
  then have u: "hist ?u = (Rd SIO_FIFO_ST (fst (reg_rd E SIO_FIFO_ST (fed_state E s))) # new) @ hist s"
    by (simp add: reg_rd_def Let_def)
  have m: "mails (hist ?u) = mails (hist s)"
    by (simp add: reg_rd_def Let_def fed_state_def feed_loop_mails)
  have w: "under_way s \<Longrightarrow> under_way ?u"
    using feed_loop_under_way [of s E] by (auto simp: fed_state_def under_way_def)
  have "no_requests E (hist ?u)" unfolding u by (rule no_requests_later [OF Suc.prems])
  from Suc.IH [OF this] u m w main_turn_quiet [OF Suc.prems] show ?case
    by auto
qed simp

lemma main_turns_add: "main_turns E (m + n) s = do { t \<leftarrow> main_turns E m s; main_turns E n t }"
  by (induction m arbitrary: s) (simp_all add: Option.bind_assoc)

lemma main_turns_split:
  assumes "main_turns E N s = Some t" "m \<le> N"
  obtains u where "main_turns E m s = Some u" "main_turns E (N - m) u = Some t"
proof -
  have "do { u \<leftarrow> main_turns E m s; main_turns E (N - m) u } = Some t"
    using main_turns_add [of E m "N - m" s] assms by simp
  then show ?thesis unfolding bind_eq_Some_conv using that by blast
qed

text \<open>A turn that finds room takes a step off the move, or ends it; one that finds none only looks.\<close>

lemma main_turn_progress:
  assumes "m_state (mot s) = MOVING" "under_way s" "\<not> fst (pio_tx_full E s)"
  shows "m_state (mot (fed_state E s)) = IDLE \<or> steps_left (fed_state E s) < steps_left s"
proof -
  let ?f = "fed_state E s" and ?s1 = "snd (pio_tx_full E s)"
  have s1: "m_state (mot ?s1) = MOVING" "steps_left ?s1 = steps_left s" using assms(1) by simp_all
  show ?thesis
  proof (cases "fst (feed_step ?s1)")
    case True
    then have "m_stop_req (mot ?s1) = 0 \<and> 0 < steps_left ?s1"
      by (cases ?s1 rule: feed_step_cases) (auto simp: feed_step_idle feed_step_end)
    then have "steps_left (snd (feed_step ?s1)) = steps_left s - 1"
      using s1 by (simp add: feed_step_push sint_dec)
    moreover have "?f = feed_loop E (snd (feed_step ?s1))"
      using assms True unfolding fed_state_def feed_loop_step [of E s] by (simp add: Let_def)
    ultimately show ?thesis using fed_steps [OF fed.loop] by (metis zle_diff1_eq)
  next
    case False
    moreover have "?f = snd (feed_step ?s1)"
      using assms False unfolding fed_state_def feed_loop_step [of E s] by (simp add: Let_def)
    ultimately show ?thesis using idle_feed_step [OF s1(1)] by simp
  qed
qed

definition progress :: "core1 \<Rightarrow> core1 \<Rightarrow> bool" where
  "progress s t \<longleftrightarrow> m_state (mot t) = IDLE \<or> steps_left t < steps_left s"

definition waited :: "nat \<Rightarrow> core1 \<Rightarrow> core1 \<Rightarrow> bool" where
  "waited n s t \<longleftrightarrow> mot t = mot s \<and>
     (\<exists>new. hist t = new @ hist s \<and> n \<le> length new \<and> \<not> list_ex is_push new)"

lemma main_turn_waits:
  assumes "m_state (mot s) = MOVING" "fst (pio_tx_full E s)"
  shows "waited 1 s (snd (reg_rd E SIO_FIFO_ST (fed_state E s)))"
proof -
  have "fed_state E s = snd (pio_tx_full E s)"
    using assms unfolding fed_state_def feed_loop_step [of E s] by (simp add: Let_def)
  then show ?thesis by (auto simp: waited_def pio_tx_full_def reg_rd_def Let_def is_push_def)
qed

lemma waited_trans: "waited m s t \<Longrightarrow> waited n t u \<Longrightarrow> waited (m + n) s u"
  unfolding waited_def by (force simp: list_ex_iff)

section \<open>A stop\<close>

text \<open>The turn that takes a stop request.\<close>

lemma turn_stop:
  assumes "turn (M, h) (N, Sent r # Recv (cmd_code CMD_STOP) # h)"
  shows "r = STEPPER_ACK_OK \<and> N = (if m_state M = MOVING then M\<lparr>m_stop_req := 1\<rparr> else M)"
  using assms
proof (cases rule: turn.cases)
  case (served c u)
  then have "length (request c u) = 1" by (auto dest!: arg_cong [of _ _ length])
  then have "c = CMD_STOP" by (cases c) simp_all
  with served show ?thesis by auto
qed auto

text \<open>Once stopped or at rest, feeding pushes nothing and starts nothing.\<close>

definition halted :: "core1 \<Rightarrow> bool" where
  "halted s \<longleftrightarrow> m_state (mot s) = MOVING \<longrightarrow> m_stop_req (mot s) \<noteq> 0"

definition halts :: "core1 \<Rightarrow> core1 \<Rightarrow> bool" where
  "halts s t \<longleftrightarrow> (halted s \<longrightarrow> halted t \<and> step_words (hist t) = step_words (hist s)) \<and>
     (m_state (mot s) \<noteq> MOVING \<longrightarrow> mot t = mot s)"

interpretation halts: feeding halts
proof
  show "halts s (snd (feed_step s))" for s
    by (cases s rule: feed_step_cases)
      (auto simp: halts_def halted_def feed_step_idle feed_step_end feed_step_push)
qed (auto simp: halts_def halted_def)

lemma halted_turn:
  assumes "m_state (mot s) = MOVING" "m_stop_req (mot s) \<noteq> 0" "\<not> fst (pio_tx_full E s)"
  shows "m_state (mot (fed_state E s)) = IDLE"
proof -
  let ?s1 = "snd (pio_tx_full E s)"
  have "feed_step ?s1 = (False, ?s1\<lparr>mot := (mot s)\<lparr>m_state := IDLE, m_speed := 0, m_stop_req := 0\<rparr>\<rparr>)"
    using assms(1,2) by (simp add: feed_step_end)
  then show ?thesis using assms(1,3) unfolding fed_state_def feed_loop_step [of E s] by (simp add: Let_def)
qed

lemma idle_stays: "main_turns E n s = Some t \<Longrightarrow> mails (hist t) = mails (hist s) \<Longrightarrow>
    m_state (mot s) = IDLE \<Longrightarrow> m_state (mot t) = IDLE"
  using halts.turns [of E n s t] by (simp add: halts_def)

section \<open>A move to its end\<close>

lemma progress_later:
  assumes "progress s t" "no_requests E (hist t)" "main_turns E n t = Some u"
  shows "progress s u"
proof -
  have "mails (hist u) = mails (hist t)" using main_turns_quiet [OF assms(2), of n] assms(3) by auto
  then show ?thesis
    using assms(1) idle_stays [OF assms(3)] fed_steps [OF fed.turns [OF assms(3)]]
    by (auto simp: progress_def)
qed

text \<open>In any number of turns a move has gone on, or there was no room at any of them.\<close>

lemma turns_wait:
  "no_requests E (hist s) \<Longrightarrow> under_way s \<Longrightarrow> m_state (mot s) = MOVING \<Longrightarrow> main_turns E n s = Some t \<Longrightarrow>
     progress s t \<or> waited n s t"
proof (induction n arbitrary: s)
  case 0
  then show ?case by (simp add: waited_def)
next
  case (Suc n)
  let ?u = "snd (reg_rd E SIO_FIFO_ST (fed_state E s))"
  have u: "main_turns E (Suc 0) s = Some ?u" "main_turns E n ?u = Some t"
    using Suc.prems(4) main_turn_quiet [OF Suc.prems(1)] by simp_all
  obtain new where "hist ?u = new @ hist s" and w: "under_way ?u"
    using main_turns_quiet [OF Suc.prems(1), of "Suc 0"] u(1) Suc.prems(2) by auto
  then have r: "no_requests E (hist ?u)" using no_requests_later [OF Suc.prems(1)] by simp
  show ?case
  proof (cases "fst (pio_tx_full E s)")
    case True
    note v = main_turn_waits [OF Suc.prems(3) True]
    then have m: "mot ?u = mot s" by (simp add: waited_def)
    with Suc.IH [OF r w _ u(2)] Suc.prems(3) have "progress ?u t \<or> waited n ?u t" by simp
    then show ?thesis using waited_trans [OF v] m by (auto simp: progress_def)
  next
    case False
    then have "progress s ?u" using main_turn_progress [OF Suc.prems(3,2)] by (simp add: progress_def)
    then show ?thesis using progress_later [OF _ r u(2)] by blast
  qed
qed

lemma turns_progress:
  assumes "no_requests E (hist s)" "pio_queue E queued K (hist s)" "under_way s" "m_state (mot s) = MOVING"
    "main_turns E (Suc K) s = Some t"
  shows "progress s t"
proof -
  obtain u where u: "main_turns E K s = Some u" "main_turns E (Suc 0) u = Some t"
    by (rule main_turns_split [OF assms(5), of K]) (simp_all add: Suc_diff_le)
  obtain new where "hist u = new @ hist s" and w: "under_way u"
    using main_turns_quiet [OF assms(1), of K] u(1) assms(3) by auto
  then have r: "no_requests E (hist u)" using no_requests_later [OF assms(1)] by simp
  show ?thesis
    using turns_wait [OF assms(1,3,4) u(1)]
  proof
    assume "progress s u"
    then show ?thesis by (rule progress_later [OF _ r u(2)])
  next
    assume v: "waited K s u"
    then have "reg_val E PIO0_FSTAT (hist u) AND BIT 16 = 0" and m: "mot u = mot s"
      using pio_queue_room [OF assms(2)] by (auto simp: waited_def)
    then have "\<not> fst (pio_tx_full E u)" by (simp add: pio_tx_full_def reg_rd_def Let_def)
    from main_turn_progress [OF _ w this] have "progress u t"
      using u(2) main_turn_quiet [OF r] m assms(4) by (auto simp: progress_def)
    then show ?thesis by (simp add: progress_def m)
  qed
qed

lemma turns_to_rest:
  "no_requests E (hist s) \<Longrightarrow> pio_queue E queued K (hist s) \<Longrightarrow> under_way s \<Longrightarrow>
    m_state (mot s) = IDLE \<or> steps_left s < int n \<Longrightarrow> main_turns E (n * Suc K) s = Some t \<Longrightarrow>
    m_state (mot t) = IDLE"
proof (induction n arbitrary: s)
  case 0
  then show ?case by (auto simp: under_way_def)
next
  case (Suc n)
  obtain u where u: "main_turns E (Suc K) s = Some u" "main_turns E (n * Suc K) u = Some t"
    by (rule main_turns_split [OF Suc.prems(5), of "Suc K"]) (simp_all only: mult_Suc le_add1 diff_add_inverse)
  obtain new where h: "hist u = new @ hist s" and m: "mails (hist u) = mails (hist s)" and w: "under_way u"
    using main_turns_quiet [OF Suc.prems(1), of "Suc K"] u(1) Suc.prems(3) by auto
  have "m_state (mot u) = IDLE \<or> steps_left u < int n"
  proof (cases "m_state (mot s) = IDLE")
    case True
    then show ?thesis using idle_stays [OF u(1) m] by simp
  next
    case False
    then have "m_state (mot s) = MOVING" by (cases "m_state (mot s)") simp_all
    from turns_progress [OF Suc.prems(1-3) this u(1)] show ?thesis
      using Suc.prems(4) False by (auto simp: progress_def)
  qed
  then show ?case
    using Suc.IH [OF _ _ w _ u(2)] no_requests_later [OF Suc.prems(1)] pio_queue_later [OF Suc.prems(2)]
    by (simp add: h)
qed

lemma move_to_rest:
  assumes "no_requests E (hist s)" "pio_queue E queued K (hist s)" "m_state (mot s) = MOVING"
    "m_stop_req (mot s) = 0" "0 \<le> steps_left s" "Suc (nat (steps_left s)) * Suc K \<le> N"
  shows "\<exists>t ws. main_turns E N s = Some t \<and>
    m_state (mot t) = IDLE \<and> steps_left t = 0 \<and> mails (hist t) = mails (hist s) \<and>
    step_words (hist t) = ws @ step_words (hist s) \<and> int (length ws) = steps_left s \<and>
    (motion_ok (mot s) \<longrightarrow> list_all half_period_ok ws)"
proof -
  let ?n = "Suc (nat (steps_left s))"
  have w: "under_way s" "steps_left s < int ?n" using assms by (simp_all add: under_way_def)
  obtain t where t: "main_turns E N s = Some t" "mails (hist t) = mails (hist s)" "under_way t"
    using main_turns_quiet [OF assms(1), of N] w(1) by auto
  obtain u where u: "main_turns E (?n * Suc K) s = Some u" "main_turns E (N - ?n * Suc K) u = Some t"
    by (rule main_turns_split [OF t(1) assms(6)])
  have m: "mails (hist u) = mails (hist s)" using main_turns_quiet [OF assms(1), of "?n * Suc K"] u(1) by auto
  have "m_state (mot u) = IDLE" using turns_to_rest [OF assms(1,2) w(1) _ u(1)] w(2) by simp
  then have i: "m_state (mot t) = IDLE" using idle_stays [OF u(2)] t(2) m by simp
  have "fed s t" by (rule fed.turns [OF t(1,2)])
  moreover have "steps_left t = 0" using t(3) i by (simp add: under_way_def)
  ultimately show ?thesis using t(1,2) i unfolding fed_def by auto
qed

section \<open>Properties\<close>

text \<open>
  C14: Core1 never hangs. If resets finish, the timer runs, the other core takes its replies and
  sends the second word of a request after the first, and \<open>.bss\<close> does not reach the last word of the
  address space, then from reset on the image clears \<open>.bss\<close>, all of it and nothing else, completes its
  set-up and any number of turns of its main loop.
\<close>

theorem core1_never_hangs:
  assumes "resets_finish E" "peer_answers E" "timer_runs E cyc k" "unat (bss_end E) + 4 \<le> 2 ^ 32"
  shows "\<exists>t. core1_reset_handler E n r =
    Some (\<lambda>a. if word_of_region (bss_start E) (bss_end E) a then 0 else r a, t)"
proof -
  obtain s where "core1_setup E (fpu_enable E \<lparr>hist = [], mot = M_init\<rparr>) = Some s"
    using core1_setup_returns [OF assms(1,3)] by blast
  then show ?thesis using main_turns_return [OF assms(2,3), of n s]
    by (auto simp: core1_reset_handler_def core1_main_def clear_bss_zeroes [OF assms(4)])
qed

text \<open>A board whose every access takes a microsecond and whose status bits are all set.\<close>

definition slow_board :: core1_hw where
  "slow_board = bench []\<lparr>reg_val := \<lambda>r h. if r = TIMER0_TIMERAWL then word_of_nat (length h)
     else if r = SIO_FIFO_RD then 5 else 0xFFFFFFFF\<rparr>"

lemma slow_board_answers:
  "resets_finish slow_board" "peer_answers slow_board" "timer_runs slow_board length 1"
  by (auto simp: resets_finish_def peer_answers_def timer_runs_def soon_def slow_board_def bench_def)

lemma core1_never_hangs_witness:
  "\<exists>r1 t. core1_reset_handler slow_board 1000 (\<lambda>a. 7) = Some (r1, t) \<and> r1 0x20062C04 = 0 \<and> r1 0x20062C08 = 7"
  using core1_never_hangs [OF slow_board_answers, of 1000 "\<lambda>a. 7"]
  by (auto simp: slow_board_def bench_def word_of_region_def)

text \<open>
  C3: A move pushes exactly its steps. When a move is under way and not stopped, no request comes and
  the PIO has a queue of four words of which it takes a waiting one within the time of \<open>K\<close> accesses,
  then the main loop, which now and then finds the queue full and now and then finds room for several
  words, brings the motion to rest within \<open>K + 1\<close> turns per step left and as many more, having pushed
  exactly the steps that were left.
\<close>

theorem move_completes:
  assumes "no_requests E (hist s)" "pio_queue E queued K (hist s)" "m_state (mot s) = MOVING"
    "m_stop_req (mot s) = 0" "0 \<le> steps_left s" "Suc (nat (steps_left s)) * Suc K \<le> N"
  shows "\<exists>t ws. main_turns E N s = Some t \<and> m_state (mot t) = IDLE \<and> steps_left t = 0 \<and>
    step_words (hist t) = ws @ step_words (hist s) \<and> int (length ws) = steps_left s"
  using move_to_rest [OF assms] by blast

text \<open>A bench whose PIO has the queue of four words and takes a word in the time of ten accesses.\<close>

fun fifo_level :: "mmio list \<Rightarrow> nat" where
  "fifo_level [] = 0"
| "fifo_level (e # h) =
    (if is_push e then min 4 (Suc (fifo_level h)) else fifo_level h) - (if length h mod 10 = 9 then 1 else 0)"

definition fifo_bench :: "u32 list \<Rightarrow> core1_hw" where
  "fifo_bench script = (bench script)\<lparr>reg_val := \<lambda>r h.
     if r = PIO0_FSTAT then (if fifo_level h = 4 then BIT 16 else 0) else reg_val (bench script) r h\<rparr>"

lemma fifo_level_le: "fifo_level h \<le> 4"
  by (induction h) auto

lemma fifo_level_falls:
  "\<not> list_ex is_push new \<Longrightarrow> fifo_level (new @ h) \<le> fifo_level h - (length (new @ h) div 10 - length h div 10)"
proof (induction new)
  case (Cons e new)
  define n m where nm: "n = length (new @ h)" "m = length h"
  have "Suc n div 10 = (if n mod 10 = 9 then Suc (n div 10) else n div 10)" by presburger
  moreover have "m div 10 \<le> n div 10" unfolding nm by (intro div_le_mono) simp
  moreover have "fifo_level (new @ h) \<le> fifo_level h - (n div 10 - m div 10)" "\<not> is_push e"
    using Cons by (simp_all add: nm)
  ultimately have "fifo_level (e # new @ h) \<le> fifo_level h - (Suc n div 10 - m div 10)"
    by (simp add: nm(1) del: length_append) linarith
  then show ?case by (simp add: nm del: fifo_level.simps)
qed simp

lemma fifo_bench_queue: "pio_queue (fifo_bench script) fifo_level 10 h0"
proof -
  have falls: "fifo_level (later @ h) \<le> fifo_level h - 1" if "10 \<le> length later" "\<not> list_ex is_push later" for later h
    using fifo_level_falls [OF that(2), of h] div_le_mono [of "10 + length h" "length (later @ h)" 10] that(1)
    by simp
  have "let h = new @ h0 in fifo_level h \<le> 4 \<and>
      (reg_val (fifo_bench script) PIO0_FSTAT h AND BIT 16 \<noteq> 0 \<longleftrightarrow> fifo_level h = 4) \<and>
      (\<forall>e. fifo_level (e # h) \<le> (if is_push e then Suc (fifo_level h) else fifo_level h)) \<and>
      (\<forall>later. 10 \<le> length later \<and> \<not> list_ex is_push later \<longrightarrow> fifo_level (later @ h) \<le> fifo_level h - 1)"
    for new
  proof -
    define h where "h = new @ h0"
    have "fifo_level (e # h) \<le> (if is_push e then Suc (fifo_level h) else fifo_level h)" for e
      by (cases "is_push e") (auto intro: order.trans [OF diff_le_self])
    then show ?thesis using falls [of _ h] fifo_level_le [of h]
      unfolding Let_def h_def [symmetric] by (simp add: fifo_bench_def BIT_def)
  qed
  then show ?thesis unfolding pio_queue_def by blast
qed

lemma fifo_bench_quiet: "no_requests (fifo_bench []) h"
  by (simp add: no_requests_def fifo_bench_def bench_def)

lemma move_completes_witness:
  "\<exists>t ws. main_turns (fifo_bench []) 88
      \<lparr>hist = [Dsb], mot = M_init\<lparr>m_state := MOVING, m_remaining := 7, m_speed := MIN_SPEED_HZ\<rparr>\<rparr> = Some t \<and>
    m_state (mot t) = IDLE \<and> step_words (hist t) = ws \<and> length ws = 7"
  using move_completes [OF fifo_bench_quiet fifo_bench_queue, of
      "\<lparr>hist = [Dsb], mot = M_init\<lparr>m_state := MOVING, m_remaining := 7, m_speed := MIN_SPEED_HZ\<rparr>\<rparr>" 88]
  by (auto simp: M_init_def)

text \<open>
  C10: A stop request stops. When \<open>handle_command\<close> has taken \<open>CMD_STOP\<close> it has answered \<open>STEPPER_ACK_OK\<close>,
  and however many turns of the main loop follow without another request, no word is pushed to the PIO
  any later; if the queue had room at the first of them, the motion is at rest. What the queue held
  when the request came is still stepped.
\<close>

theorem stop_halts:
  assumes "handle_command E s = Some t"
    "mails (hist t) = Sent r # Recv (cmd_code CMD_STOP) # mails (hist s)"
    and "main_turns E n t = Some v" "mails (hist v) = mails (hist t)"
  shows "r = STEPPER_ACK_OK \<and> step_words (hist v) = step_words (hist s) \<and>
    (0 < n \<longrightarrow> \<not> fst (pio_tx_full E t) \<longrightarrow> m_state (mot v) = IDLE)"
proof -
  have h: "turn (mot s, mails (hist s)) (mot t, mails (hist t))" "step_words (hist t) = step_words (hist s)"
    using handle_command_turn [OF assms(1)] by simp_all
  note stop = turn_stop [OF h(1) [unfolded assms(2)]]
  then have "halted t" by (simp add: halted_def)
  then have "step_words (hist v) = step_words (hist s)"
    using halts.turns [OF assms(3,4)] h(2) by (simp add: halts_def)
  moreover have "m_state (mot v) = IDLE" if n: "0 < n" and room: "\<not> fst (pio_tx_full E t)"
  proof -
    obtain u m where u: "main_turn E t = Some u" "main_turns E m u = Some v"
      using assms(3) n by (cases n) (auto simp: bind_eq_Some_conv)
    obtain a b where "mails (hist v) = a @ mails (hist u)" "mails (hist u) = b @ mails (hist t)"
      using main_turns_mails [OF u(2)] turn_mails [OF main_turn_parts(3) [OF u(1)]] by blast
    with assms(4) have same: "mails (hist u) = mails (hist t)" "mails (hist v) = mails (hist u)" by auto
    have "m_state (mot (fed_state E t)) = IDLE"
    proof (cases "m_state (mot t)")
      case IDLE
      then show ?thesis by (simp add: fed_state_def)
    next
      case MOVING
      with \<open>halted t\<close> show ?thesis by (intro halted_turn room) (simp_all add: halted_def)
    qed
    then have "m_state (mot u) = IDLE" using main_turn_no_mail(1) [OF u(1) same(1)] by simp
    then show ?thesis by (rule idle_stays [OF u(2) same(2)])
  qed
  ultimately show ?thesis using stop by blast
qed

lemma stop_halts_witness:
  "\<exists>t v. handle_command (bench [4]) \<lparr>hist = [], mot = M_init\<lparr>m_state := MOVING, m_remaining := 7\<rparr>\<rparr> = Some t \<and>
     main_turns (bench [4]) (Suc (Suc 0)) t = Some v \<and> step_words (hist v) = [] \<and> m_state (mot v) = IDLE"
proof -
  have "\<exists>t v. handle_command (bench [4]) \<lparr>hist = [], mot = M_init\<lparr>m_state := MOVING, m_remaining := 7\<rparr>\<rparr> = Some t \<and>
     mails (hist t) = [Sent 0, Recv 4] \<and> \<not> fst (pio_tx_full (bench [4]) t) \<and>
     main_turns (bench [4]) (Suc (Suc 0)) t = Some v \<and> mails (hist v) = mails (hist t)"
    by (simp add: bench_eval STEPPER_ACK_OK_def main_turn_def cong: bind_cong_weak split del: if_split)
  then show ?thesis
    using stop_halts [of "bench [4]" "\<lparr>hist = [], mot = M_init\<lparr>m_state := MOVING, m_remaining := 7\<rparr>\<rparr>" _ 0 "Suc (Suc 0)"] by fastforce
qed

text \<open>
  \<open>delay_us\<close> waits as long as it says, whatever the timer shows when it begins (the counter
  wraps at two to the thirty-two): on a running timer it returns, and its last reading is \<open>us\<close> or
  \<open>us + 1\<close> microseconds after its first.
\<close>

lemma delay_us_waits:
  assumes "timer_runs E cyc k" "us < 0xFFFFFFFF"
  shows "\<exists>t. delay_us E us s = Some t \<and> mot t = mot s \<and>
    cyc (hist s) div k + unat us \<le> cyc (tl (hist t)) div k \<and>
    cyc (tl (hist t)) div k \<le> cyc (hist s) div k + unat us + 1"
proof -
  have "unat us < 2 ^ 32 - 1" using assms(2) by (simp add: word_less_nat_alt)
  then show ?thesis using delay_us_timed [OF assms(1)] delay_us_frame(1) by metis
qed

lemma delay_us_waits_example:
  "\<exists>t. delay_us slow_board 10000 \<lparr>hist = [], mot = M_init\<rparr> = Some t \<and>
     10000 \<le> length (tl (hist t))"
  using delay_us_waits [OF slow_board_answers(3), of 10000 "\<lparr>hist = [], mot = M_init\<rparr>"] by auto

end
