(* ===== verification/Core1_Profile.thy ===== *)
theory Core1_Profile
  imports Core1_Live
begin

text \<open>
  The acceleration profile of a whole move, in real numbers. \<open>next_speed\<close> of \<open>core1/core1_main.c\<close>
  computes with rounded squares and roots; here each of its steps is compared with the exact
  kinematics, and the steps of a move are shown to form a profile that keeps the acceleration
  limits and brakes in time.
\<close>

section \<open>Rounding errors\<close>

lemma rf_rel: "1 / 2 ^ 50 \<le> y \<Longrightarrow> y \<le> 2 ^ 100 \<Longrightarrow> \<bar>rf y - y\<bar> \<le> y / 16777216"
proof -
  assume y: "1 / 2 ^ 50 \<le> y" "y \<le> 2 ^ 100"
  let ?u = "2 ^ ux 23 8 :: real"
  have u: "?u = 2 ^ 149" by (simp add: ux_def)
  have "real (mag 23 (2 ^ 23)) \<le> 1 / 2 ^ 50 * ?u" by (simp add: mag_numeral u)
  also have "\<dots> \<le> y * ?u" using y(1) by (intro mult_right_mono) simp_all
  finally have lo: "real (mag 23 (2 ^ 23)) \<le> y * ?u" .
  have "y * ?u \<le> 2 ^ 100 * ?u" using y(2) by (intro mult_right_mono) simp_all
  also have "\<dots> < 2 ^ 128 * ?u" by (simp add: u)
  also have "\<dots> = real (mag 23 (inf_ix 23 8))"
    using rval_top by (simp add: single.rval_pair divide_eq_eq)
  finally have "y * ?u < real (mag 23 (inf_ix 23 8))" .
  with single.rr_rel_error [OF lo] show ?thesis by (simp add: inf_ix_single)
qed

lemma rf_err: "0 \<le> y \<Longrightarrow> y \<le> 2 ^ 100 \<Longrightarrow> \<bar>rf y - y\<bar> \<le> y / 16777216 + 1 / 1125899906842624"
proof (cases "1 / 2 ^ 50 \<le> y")
  case True
  moreover assume "0 \<le> y" "y \<le> 2 ^ 100"
  moreover have "0 \<le> (1 / 1125899906842624 :: real)" by simp
  ultimately show ?thesis using rf_rel [of y] by linarith
next
  case False
  moreover assume "0 \<le> y"
  moreover have "fin 0x26800000" "fv 0x26800000 = 1 / 1125899906842624"
    by (simp_all add: fv_def dev_eval single.rval_pair)
  ultimately have "0 \<le> y / 16777216" "rf y \<le> 1 / 1125899906842624" "0 \<le> rf y"
    using rf_le_fv [of "0x26800000" y] single.rr_ge_zero [of y] by simp_all
  moreover have "(1 / 2 ^ 50 :: real) = 1 / 1125899906842624" by simp
  ultimately show ?thesis using False \<open>0 \<le> y\<close> by linarith
qed

text \<open>The conversion to \<open>int32_t\<close> of a number that is not negative: its integer part, saturated.\<close>

lemma i32_floor:
  assumes "fin a" "0 \<le> fv a"
  shows "sint (f32_to_i32 a) = min (2 ^ 31 - 1) \<lfloor>fv a\<rfloor>"
proof -
  obtain s m where d: "dec32 a = (s, m)" by (cases "dec32 a")
  show ?thesis
  proof (cases s)
    case True
    then have "fv a = 0" using assms(2) d single.rval_True_le [of m] by (simp add: fv_def)
    then have "mag 23 m = 0" using True d by (simp add: fv_def single.rval_pair)
    then have "f32_to_i32 a = 0" using True d fin_not_nan [OF assms(1)] by (simp add: f32_to_i32_def)
    with \<open>fv a = 0\<close> show ?thesis by simp
  next
    case False
    let ?t = "int (mag 23 m div 2 ^ ux 23 8)"
    have "f32_to_i32 a = word_of_int (min (2 ^ 31 - 1) ?t)"
      using False d fin_not_nan [OF assms(1)] by (simp add: f32_to_i32_def Let_def)
    moreover have "\<lfloor>fv a\<rfloor> = ?t"
      using False d floor_divide_of_nat_eq [of "mag 23 m" "2 ^ ux 23 8", where 'a = real]
      by (simp add: fv_def single.rval_pair)
    ultimately show ?thesis by (simp add: sint_of_int32)
  qed
qed

lemma above_i32:
  assumes "fin a" "0 \<le> fv a" "sint (f32_to_i32 a) < sint (r :: u32)"
  shows "fv a < real_of_int (sint r)"
proof -
  have "\<lfloor>fv a\<rfloor> < sint r" using i32_floor [OF assms(1,2)] assms(3) sint_bounds32(2) [of r] by linarith
  then show ?thesis by (simp only: floor_less_iff)
qed

section \<open>The operations of \<open>next_speed\<close>\<close>

lemmas two_sided = abs_diff_le_iff add_divide_distrib diff_divide_distrib distrib_left
  right_diff_distrib

text \<open>Squares of speeds.\<close>

abbreviation (input) sq :: "f32 \<Rightarrow> real" where "sq v \<equiv> fv v * fv v"

lemma sq_range: "speed_ok v \<Longrightarrow> 2500 \<le> sq v \<and> sq v \<le> 25600000000"
  using mult_mono [of 50 "fv v" 50 "fv v"] mult_mono [of "fv v" 160000 "fv v" 160000]
  by (auto simp: speed_ok_iff)

lemma square_err: "speed_ok v \<Longrightarrow> \<bar>fv (f32_mul v v) - sq v\<bar> \<le> sq v / 16777216"
  unfolding square_speed(2) using sq_range by (intro rf_rel) force+

lemma double_err: "accel_ok d \<Longrightarrow> \<bar>fv (f32_mul F2 d) - 2 * fv d\<bar> \<le> 2 * fv d / 16777216 + 1 / 1125899906842624"
proof -
  assume d: "accel_ok d"
  then have "fv (f32_mul F2 d) = rf (2 * fv d)"
    using fv_mul [of F2 d] by (auto simp: accel_ok_iff fin_consts fv_consts)
  moreover have "0 \<le> 2 * fv d" "2 * fv d \<le> 2 ^ 100" using d by (auto simp: accel_ok_iff)
  ultimately show ?thesis using rf_err [of "2 * fv d"] by (simp only:)
qed

lemma root_err:
  assumes "fin x" "2500 \<le> fv x" "fv x \<le> 2 ^ 60"
  shows "\<bar>sq (hw_sqrtf x) - fv x\<bar> \<le> 3 * fv x / 16777216"
proof -
  define y w where "y = sqrt (fv x)" and "w = fv (hw_sqrtf x)"
  have y: "y * y = fv x" "50 \<le> y" "y \<le> 2 ^ 30"
    using assms(2,3) by (simp_all add: y_def real_le_rsqrt real_le_lsqrt power2_eq_square)
  have "w = rf y" using fv_sqrt [OF assms(1)] assms(2) y(3) by (simp add: w_def y_def hw_sqrtf_def)
  then have e: "\<bar>w - y\<bar> \<le> y / 16777216" using rf_rel [of y] y by simp
  define d where "d = w - y"
  have d: "\<bar>d\<bar> \<le> y / 16777216" "w = y + d" using e by (simp_all add: d_def)
  have "\<bar>2 * (y * d) + d * d\<bar> \<le> 2 * (y * \<bar>d\<bar>) + \<bar>d\<bar> * \<bar>d\<bar>"
    using abs_triangle_ineq [of "2 * (y * d)" "d * d"] y(2) by (simp add: abs_mult)
  also have "\<dots> \<le> 2 * (y * (y / 16777216)) + y / 16777216 * (y / 16777216)"
    using d(1) y(2) by (intro add_mono mult_left_mono mult_mono) simp_all
  also have "\<dots> \<le> 3 * (y * y) / 16777216" using y(2) by (simp add: field_simps)
  finally show ?thesis unfolding w_def [symmetric] y(1) [symmetric] d(2) by (simp add: algebra_simps)
qed

section \<open>One step against the exact kinematics\<close>

text \<open>The allowance for rounding: eight half units of the square of the user's limit.\<close>

definition slack :: "motion \<Rightarrow> real" where
  "slack M = sq (m_max_speed M) / 2097152"

text \<open>The two square roots of \<open>next_speed\<close>, before their comparison.\<close>

definition braked :: "motion \<Rightarrow> f32" where
  "braked M = f32_sub (f32_mul (m_speed M) (m_speed M)) (f32_mul F2 (m_decel M))"

definition sped_up :: "motion \<Rightarrow> f32" where
  "sped_up M = f32_add (f32_mul (m_speed M) (m_speed M)) (f32_mul F2 (m_accel M))"

lemma next_speed_cases: "next_speed M =
    (if sint (m_remaining M) \<le> sint (brake_window M)
     then if f32_lt (f32_mul MIN_SPEED_HZ MIN_SPEED_HZ) (braked M) then hw_sqrtf (braked M) else MIN_SPEED_HZ
     else if f32_lt (m_speed M) (m_max_speed M)
     then if f32_lt (sped_up M) (f32_mul (m_max_speed M) (m_max_speed M)) then hw_sqrtf (sped_up M)
       else m_max_speed M
     else m_max_speed M)"
  by (simp only: next_speed_def Let_def brake_window_def braked_def sped_up_def word_sle_eq)

lemma vmin_square: "fin (f32_mul MIN_SPEED_HZ MIN_SPEED_HZ)" "fv (f32_mul MIN_SPEED_HZ MIN_SPEED_HZ) = 2500"
proof -
  have "speed_ok MIN_SPEED_HZ" by (simp add: speed_ok_iff fin_consts fv_consts)
  from square_speed(1,2) [OF this] show "fin (f32_mul MIN_SPEED_HZ MIN_SPEED_HZ)" by blast
  have "f32_mul 0x42480000 0x42480000 = 0x451C4000" by (simp add: dev_eval)
  then show "fv (f32_mul MIN_SPEED_HZ MIN_SPEED_HZ) = 2500"
    by (simp add: fv_def dev_eval single.rval_pair)
qed

text \<open>Both candidates, as rounded real numbers.\<close>

lemma braked_value:
  assumes "speed_ok (m_speed M)" "accel_ok (m_decel M)"
  shows "fin (braked M)" "fv (braked M) =
    rf (fv (f32_mul (m_speed M) (m_speed M)) - fv (f32_mul F2 (m_decel M)))"
  using fv_sub [OF square_speed(1) [OF assms(1)] double_accel(1) [OF assms(2)]]
    square_speed(3,4) [OF assms(1)] double_accel(2,3) [OF assms(2)]
  by (auto simp: braked_def abs_le_iff)

lemma sped_up_value:
  assumes "speed_ok (m_speed M)" "accel_ok (m_accel M)"
  shows "fin (sped_up M)" "fv (sped_up M) =
    rf (fv (f32_mul (m_speed M) (m_speed M)) + fv (f32_mul F2 (m_accel M)))"
  using fv_add [OF square_speed(1) [OF assms(1)] double_accel(1) [OF assms(2)]]
    square_speed(3,4) [OF assms(1)] double_accel(2,3) [OF assms(2)]
  by (auto simp: sped_up_def abs_le_iff)

text \<open>Braking: the square falls by twice the deceleration, or the least speed is reached.\<close>

lemma brake_root:
  assumes v: "speed_ok (m_speed M)" "accel_ok (m_decel M)" "sq (m_speed M) \<le> W"
    and lt: "2500 < fv (braked M)"
  shows "\<bar>sq (hw_sqrtf (braked M)) - (sq (m_speed M) - 2 * fv (m_decel M))\<bar> \<le> W / 2097152"
proof -
  define S D where "S = fv (f32_mul (m_speed M) (m_speed M))" and "D = fv (f32_mul F2 (m_decel M))"
  have S: "\<bar>S - sq (m_speed M)\<bar> \<le> sq (m_speed M) / 16777216" "2500 \<le> S" "S \<le> 25600000000"
    using square_err square_speed(3,4) v(1) by (simp_all add: S_def)
  have D: "\<bar>D - 2 * fv (m_decel M)\<bar> \<le> 2 * fv (m_decel M) / 16777216 + 1 / 1125899906842624" "0 \<le> D"
    using double_err double_accel(2) v(2) by (simp_all only: D_def)
  have x: "fv (braked M) = rf (S - D)" using braked_value [OF v(1,2)] by (simp add: S_def D_def)
  have "2500 \<le> S - D"
  proof (rule ccontr)
    assume "\<not> 2500 \<le> S - D"
    then have "rf (S - D) \<le> 2500" using rf_le_fv [OF vmin_square(1)] unfolding vmin_square(2) by simp
    with lt x show False by simp
  qed
  moreover from this have "\<bar>rf (S - D) - (S - D)\<bar> \<le> (S - D) / 16777216"
    using S(3) D(2) by (intro rf_rel) simp_all
  moreover from this have "fv (braked M) \<le> 2 * S" using x \<open>2500 \<le> S - D\<close> D(2) by (simp only: two_sided) (elim conjE, (intro conjI TrueI)?; linarith)
  then have "\<bar>sq (hw_sqrtf (braked M)) - fv (braked M)\<bar> \<le> 3 * fv (braked M) / 16777216"
    using lt S(3) by (intro root_err braked_value v) simp_all
  moreover have "2500 \<le> sq (m_speed M)" using sq_range [OF v(1)] ..
  ultimately show ?thesis using S D v(3) x by (simp only: two_sided) (elim conjE, (intro conjI TrueI)?; linarith)
qed

lemma brake_floor:
  assumes v: "speed_ok (m_speed M)" "accel_ok (m_decel M)" "sq (m_speed M) \<le> W"
    and le: "fv (braked M) \<le> 2500"
  shows "sq (m_speed M) - 2 * fv (m_decel M) \<le> 2500 + W / 2097152"
proof -
  define S D where "S = fv (f32_mul (m_speed M) (m_speed M))" and "D = fv (f32_mul F2 (m_decel M))"
  have S: "\<bar>S - sq (m_speed M)\<bar> \<le> sq (m_speed M) / 16777216" "2500 \<le> S" "S \<le> 25600000000"
    using square_err square_speed(3,4) v(1) by (simp_all add: S_def)
  have D: "\<bar>D - 2 * fv (m_decel M)\<bar> \<le> 2 * fv (m_decel M) / 16777216 + 1 / 1125899906842624" "0 \<le> D"
    using double_err double_accel(2) v(2) by (simp_all only: D_def)
  have x: "fv (braked M) = rf (S - D)" using braked_value [OF v(1,2)] by (simp add: S_def D_def)
  have "S - D \<le> 2501"
  proof (rule ccontr)
    assume n: "\<not> S - D \<le> 2501"
    then have "\<bar>rf (S - D) - (S - D)\<bar> \<le> (S - D) / 16777216" using S(3) D(2) by (intro rf_rel) simp_all
    with le n show False unfolding x by (simp only: two_sided) (elim conjE, (intro conjI TrueI)?; linarith)
  qed
  moreover have "S - D \<le> 2500 + 5000 / 16777216"
  proof (cases "S - D \<le> 2500")
    case False
    then have "\<bar>rf (S - D) - (S - D)\<bar> \<le> (S - D) / 16777216" using S(3) D(2) by (intro rf_rel) simp_all
    with le \<open>S - D \<le> 2501\<close> show ?thesis unfolding x by (simp only: two_sided) (elim conjE, (intro conjI TrueI)?; linarith)
  qed simp
  moreover have "2500 \<le> sq (m_speed M)" using sq_range [OF v(1)] ..
  ultimately show ?thesis using S D v(3) by (simp only: two_sided) (elim conjE, (intro conjI TrueI)?; linarith)
qed

text \<open>Speeding up: the square rises by twice the acceleration, or the limit is reached.\<close>

lemma sped_up_err:
  assumes v: "speed_ok (m_speed M)" "accel_ok (m_accel M)"
  shows "\<bar>fv (sped_up M) - (sq (m_speed M) + 2 * fv (m_accel M))\<bar> \<le> 3 * (sq (m_speed M) + 2 * fv (m_accel M)) / 16777216"
    "2500 \<le> fv (sped_up M)"
proof -
  define S A where "S = fv (f32_mul (m_speed M) (m_speed M))" and "A = fv (f32_mul F2 (m_accel M))"
  have S: "\<bar>S - sq (m_speed M)\<bar> \<le> sq (m_speed M) / 16777216" "2500 \<le> S" "S \<le> 25600000000"
    using square_err square_speed(3,4) v(1) by (simp_all add: S_def)
  have A: "\<bar>A - 2 * fv (m_accel M)\<bar> \<le> 2 * fv (m_accel M) / 16777216 + 1 / 1125899906842624" "0 \<le> A" "A \<le> 5333332"
    using double_err double_accel(2,3) v(2) by (simp_all only: A_def)
  have x: "fv (sped_up M) = rf (S + A)" using sped_up_value [OF v] by (simp add: S_def A_def)
  have "\<bar>rf (S + A) - (S + A)\<bar> \<le> (S + A) / 16777216" using S A by (intro rf_rel) simp_all
  moreover have "2500 \<le> sq (m_speed M)" "0 \<le> fv (m_accel M)"
    using sq_range [OF v(1)] v(2) by (simp_all add: accel_ok_iff)
  ultimately show "\<bar>fv (sped_up M) - (sq (m_speed M) + 2 * fv (m_accel M))\<bar> \<le> 3 * (sq (m_speed M) + 2 * fv (m_accel M)) / 16777216"
    using S A unfolding x by (simp only: two_sided) (elim conjE, (intro conjI TrueI)?; linarith)
  show "2500 \<le> fv (sped_up M)" unfolding x
    using rf_ge_fv [OF vmin_square(1)] S(2) A(2) unfolding vmin_square(2) by simp
qed

lemma speed_up:
  assumes v: "speed_ok (m_speed M)" "accel_ok (m_accel M)" "speed_ok w" "sq (m_speed M) \<le> sq w"
    and n: "n = (if f32_lt (sped_up M) (f32_mul w w) then hw_sqrtf (sped_up M) else w)"
  shows "sq n \<le> sq (m_speed M) + 2 * fv (m_accel M) + sq w / 2097152" "sq n \<le> sq w"
    "min (sq (m_speed M) + 2 * fv (m_accel M)) (sq w) \<le> sq n + sq w / 2097152"
proof -
  define y where "y = sq (m_speed M) + 2 * fv (m_accel M)"
  have x: "\<bar>fv (sped_up M) - y\<bar> \<le> 3 * y / 16777216" "2500 \<le> fv (sped_up M)" "fin (sped_up M)"
    using sped_up_err [OF v(1,2)] sped_up_value [OF v(1,2)] by (simp_all add: y_def)
  have W: "\<bar>fv (f32_mul w w) - sq w\<bar> \<le> sq w / 16777216" "2500 \<le> sq w" "fin (f32_mul w w)" "fv (f32_mul w w) \<le> 25600000000"
    using square_err [OF v(3)] sq_range [OF v(3)] square_speed [OF v(3)] by simp_all
  have y: "sq (m_speed M) \<le> y" "2500 \<le> y" using sq_range [OF v(1)] v(2) by (simp_all add: y_def accel_ok_iff)
  have "sq n \<le> y + sq w / 2097152 \<and> sq n \<le> sq w \<and> min y (sq w) \<le> sq n + sq w / 2097152"
  proof (cases "f32_lt (sped_up M) (f32_mul w w)")
    case True
    then have lt: "fv (sped_up M) < fv (f32_mul w w)" using x(3) W(3) by (simp add: f32_lt_iff)
    have r: "\<bar>sq n - fv (sped_up M)\<bar> \<le> 3 * fv (sped_up M) / 16777216"
      using True root_err [OF x(3,2)] lt W(4) unfolding n by simp
    have "fv n \<le> fv w" "0 \<le> fv n"
      using sqrt_speed [OF v(3) x(3,2)] lt True unfolding n by (auto simp: speed_ok_iff)
    then have "sq n \<le> sq w" by (intro mult_mono) auto
    then show ?thesis using x(1) r W(1) lt y v(4)
      by (simp only: two_sided min_le_iff_disj) (elim conjE, (intro conjI TrueI disjI1)?; linarith)
  next
    case False
    then have "fv (f32_mul w w) \<le> fv (sped_up M)" using x(3) W(3) by (simp add: f32_lt_iff)
    then show ?thesis using False x(1) W(1,2) y v(4) unfolding n
      by (simp only: two_sided if_False min_le_iff_disj) (elim conjE, (intro conjI TrueI disjI2)?; linarith)
  qed
  then show "sq n \<le> sq (m_speed M) + 2 * fv (m_accel M) + sq w / 2097152" "sq n \<le> sq w"
    "min (sq (m_speed M) + 2 * fv (m_accel M)) (sq w) \<le> sq n + sq w / 2097152"
    by (simp_all only: y_def)
qed

text \<open>Outside its window the move has steps to spare for braking.\<close>

lemma quotient_err:
  assumes "0 \<le> x" "x \<le> 2 ^ 40" "1 / 1024 \<le> D"
  shows "x \<le> D * (rf (x / D) + rf (x / D) / 8388608 + 1 / 562949953421312)"
proof -
  define X where "X = x / D"
  have X: "0 \<le> X" using assms(1,3) by (simp add: X_def)
  have "X \<le> 2 ^ 40 / (1 / 1024)" unfolding X_def using assms by (intro frac_le) simp_all
  then have "X \<le> 2 ^ 100" by simp
  from rf_err [OF X this] have "X \<le> rf X + rf X / 8388608 + 1 / 562949953421312"
    using X by (simp only: two_sided) (elim conjE, linarith)
  from mult_left_mono [OF this, of D] show ?thesis using assms(3) by (simp add: X_def)
qed

lemma window_quotient:
  assumes v: "speed_ok (m_speed M)" "accel_ok (m_decel M)" and D: "1 / 1024 \<le> fv (f32_mul F2 (m_decel M))"
  obtains q x where "brake_window M = f32_to_i32 (f32_add q F1)" "fin q" "0 \<le> fv q" "fv q \<le> 2 ^ 60"
    "\<bar>x - (fv (f32_mul (m_speed M) (m_speed M)) - 2500)\<bar> \<le>
       (fv (f32_mul (m_speed M) (m_speed M)) - 2500) / 16777216 + 1 / 1125899906842624"
    "x \<le> fv (f32_mul F2 (m_decel M)) * (fv q + fv q / 8388608 + 1 / 562949953421312)"
proof -
  define x q where "x = f32_sub (f32_mul (m_speed M) (m_speed M)) (f32_mul MIN_SPEED_HZ MIN_SPEED_HZ)"
    and "q = f32_div x (f32_mul F2 (m_decel M))"
  define S where "S = fv (f32_mul (m_speed M) (m_speed M))"
  have S: "2500 \<le> S" "S \<le> 25600000000" "fin (f32_mul (m_speed M) (m_speed M))"
    using square_speed(1,3,4) v(1) by (simp_all add: S_def)
  have "\<bar>S - 2500\<bar> \<le> 2 ^ 100" using S by simp
  then have x: "fin x" "fv x = rf (S - 2500)"
    using fv_sub [OF S(3) vmin_square(1)] unfolding vmin_square(2) x_def S_def by simp_all
  have xe: "\<bar>fv x - (S - 2500)\<bar> \<le> (S - 2500) / 16777216 + 1 / 1125899906842624" "0 \<le> fv x"
    unfolding x(2) using S(1,2) single.rr_ge_zero by (intro rf_err, simp_all)
  then have xs: "fv x \<le> 2 ^ 40" using S(1,2) by (simp only: two_sided) (elim conjE, simp)
  have "fv x / fv (f32_mul F2 (m_decel M)) \<le> 2 ^ 40 / (1 / 1024)" using xs xe(2) D by (intro frac_le) simp_all
  then have r: "0 \<le> fv x / fv (f32_mul F2 (m_decel M))" "fv x / fv (f32_mul F2 (m_decel M)) \<le> fv 0x5D800000"
    using xe(2) D by (simp_all add: fv_def dev_eval single.rval_pair)
  moreover have big: "fin 0x5D800000" "fv 0x5D800000 = 2 ^ 60" by (simp_all add: fv_def dev_eval single.rval_pair)
  ultimately have q: "fin q" "fv q = rf (fv x / fv (f32_mul F2 (m_decel M)))"
    using fv_div [OF x(1) double_accel(1) [OF v(2)]] D unfolding q_def by simp_all
  show thesis
  proof
    show "brake_window M = f32_to_i32 (f32_add q F1)" by (simp only: brake_window_def q_def x_def)
    show "fv q \<le> 2 ^ 60" unfolding q(2) using rf_le_fv [OF big(1) r(2)] by (simp only: big(2))
    show "0 \<le> fv q" unfolding q(2) using r(1) by (rule single.rr_ge_zero)
    show "fv x \<le> fv (f32_mul F2 (m_decel M)) * (fv q + fv q / 8388608 + 1 / 562949953421312)"
      unfolding q(2) using xe(2) xs D by (rule quotient_err)
  qed (use q(1) xe(1) in \<open>simp_all only: S_def\<close>)
qed

lemma above_window:
  assumes "fin q" "0 \<le> fv q" "fv q \<le> 2 ^ 60" "sint (f32_to_i32 (f32_add q F1)) < sint (r :: u32)"
  shows "1 \<le> real_of_int (sint r) - 1 \<and> fv q + fv q / 8388608 + 1 / 562949953421312 \<le>
    (real_of_int (sint r) - 1) + 7 * (real_of_int (sint r) - 1) / 16777216"
proof -
  define C R where "C = fv (f32_add q F1)" and "R = real_of_int (sint r)"
  have C: "fin (f32_add q F1)" "C = rf (fv q + 1)"
    using fv_add [OF assms(1), of F1] assms(2,3) unfolding C_def by (simp_all add: fin_consts fv_consts)
  have err: "\<bar>C - (fv q + 1)\<bar> \<le> (fv q + 1) / 16777216" unfolding C(2) using assms(2,3) by (intro rf_rel) simp_all
  have one: "1 \<le> C"
    unfolding C(2) using rf_ge_fv [of "0x3F800000" "fv q + 1"] assms(2) by (simp add: fin_consts fv_consts)
  then have CR: "C < R" unfolding C_def R_def using assms(4) by (intro above_i32 C(1)) simp_all
  with one have "1 < R" by linarith
  then have "2 \<le> sint r" unfolding R_def by (simp only: of_int_1_less_iff)
  then have "of_int 2 \<le> R" unfolding R_def by (simp only: of_int_le_iff)
  then have "2 \<le> R" by (simp only: of_int_numeral)
  then show ?thesis using err CR unfolding R_def [symmetric]
    by (simp only: two_sided) (elim conjE, intro conjI; linarith)
qed

lemma spare_steps:
  assumes v: "speed_ok (m_speed M)" "accel_ok (m_decel M)" "1 / 512 \<le> fv (m_decel M)"
    and W: "sq (m_speed M) \<le> W"
    and out: "sint (brake_window M) < sint (m_remaining M)"
  shows "sq (m_speed M) \<le> 2500 + 2 * fv (m_decel M) * (real_of_int (sint (m_remaining M)) - 1) + W / 1048576"
proof -
  define S D T where "S = fv (f32_mul (m_speed M) (m_speed M))" and "D = fv (f32_mul F2 (m_decel M))"
    and "T = real_of_int (sint (m_remaining M)) - 1"
  have S: "\<bar>S - sq (m_speed M)\<bar> \<le> sq (m_speed M) / 16777216" "2500 \<le> S"
    using square_err square_speed(3) v(1) by (simp_all add: S_def)
  have D: "\<bar>D - 2 * fv (m_decel M)\<bar> \<le> 2 * fv (m_decel M) / 16777216 + 1 / 1125899906842624"
    using double_err v(2) by (simp only: D_def)
  have D0: "1 / 1024 \<le> D" "D \<le> 2 * fv (m_decel M) + 2 * (2 * fv (m_decel M)) / 16777216"
    using D v(3) by (simp_all only: two_sided) (elim conjE, linarith)+
  obtain q x where q: "brake_window M = f32_to_i32 (f32_add q F1)" "fin q" "0 \<le> fv q" "fv q \<le> 2 ^ 60"
    and x: "\<bar>x - (S - 2500)\<bar> \<le> (S - 2500) / 16777216 + 1 / 1125899906842624"
      "x \<le> D * (fv q + fv q / 8388608 + 1 / 562949953421312)"
    using window_quotient [OF v(1,2) D0(1) [unfolded D_def]] unfolding S_def D_def by blast
  note T = above_window [OF q(2-4) out [unfolded q(1)], folded T_def]
  define p where "p = 2 * fv (m_decel M) * T"
  have "x \<le> D * (T + 7 * T / 16777216)"
    using x(2) mult_left_mono [OF conjunct2 [OF T], of D] D0(1) by linarith
  also have "\<dots> \<le> (2 * fv (m_decel M) + 2 * (2 * fv (m_decel M)) / 16777216) * (T + 7 * T / 16777216)"
    using D0(2) T by (intro mult_right_mono) simp_all
  also have "\<dots> = p * ((1 + 2 / 16777216) * (1 + 7 / 16777216))" by (simp add: p_def field_simps)
  also have "\<dots> \<le> p * (1 + 10 / 16777216)"
    using v(3) T by (intro mult_left_mono) (simp_all add: p_def)
  finally have xp: "x \<le> p + 10 * p / 16777216" by (simp add: field_simps)
  have "sq (m_speed M) \<le> 2500 + p + W / 1048576"
  proof (cases "W \<le> p")
    case True
    have "0 \<le> W" using W sq_range [OF v(1)] by linarith
    with True W show ?thesis by linarith
  next
    case False
    then show ?thesis
      using xp x(1) S W sq_range [OF v(1)] by (simp only: two_sided) (elim conjE, linarith)
  qed
  then show ?thesis by (simp add: p_def T_def)
qed

section \<open>One step of the profile\<close>

text \<open>What a step of the profile may assume: the limits are in range and the speed is within
  the user's limit.\<close>

definition in_limits :: "motion \<Rightarrow> bool" where
  "in_limits M \<longleftrightarrow> speed_ok (m_speed M) \<and> speed_ok (m_max_speed M) \<and> accel_ok (m_accel M) \<and>
     accel_ok (m_decel M) \<and> fv (m_speed M) \<le> fv (m_max_speed M)"

lemma in_limits_sq: "in_limits M \<Longrightarrow> 2500 \<le> sq (m_speed M) \<and> sq (m_speed M) \<le> sq (m_max_speed M)"
  using sq_range [of "m_speed M"] mult_mono [of "fv (m_speed M)" "fv (m_max_speed M)" "fv (m_speed M)" "fv (m_max_speed M)"]
  by (auto simp: in_limits_def speed_ok_iff)

lemma next_speed_limits:
  assumes "in_limits M"
  shows "speed_ok (next_speed M)" "fv (next_speed M) \<le> fv (m_max_speed M)"
  using next_speed_range [of M] assms by (auto simp: in_limits_def)

lemma vmin_sq: "sq MIN_SPEED_HZ = 2500" by (simp add: fv_consts)

lemma braked_below: "fin (braked M) \<Longrightarrow>
    f32_lt (f32_mul MIN_SPEED_HZ MIN_SPEED_HZ) (braked M) \<longleftrightarrow> 2500 < fv (braked M)"
  using f32_lt_iff [OF vmin_square(1), of "braked M"] unfolding vmin_square(2) .

text \<open>Within the window.\<close>

lemma brake_step:
  assumes M: "in_limits M" and win: "sint (m_remaining M) \<le> sint (brake_window M)"
  shows "sq (m_speed M) - 2 * fv (m_decel M) - slack M \<le> sq (next_speed M)"
    "sq (next_speed M) \<le> max 2500 (sq (m_speed M) - 2 * fv (m_decel M) + slack M)"
proof -
  have v: "speed_ok (m_speed M)" "accel_ok (m_decel M)" "sq (m_speed M) \<le> sq (m_max_speed M)"
    using M in_limits_sq [OF M] by (simp_all add: in_limits_def)
  note b = braked_below [OF braked_value(1) [OF v(1,2)]]
  have "sq (m_speed M) - 2 * fv (m_decel M) - slack M \<le> sq (next_speed M) \<and>
    sq (next_speed M) \<le> max 2500 (sq (m_speed M) - 2 * fv (m_decel M) + slack M)"
  proof (cases "2500 < fv (braked M)")
    case True
    with b win have n: "next_speed M = hw_sqrtf (braked M)" by (simp only: next_speed_cases simp_thms if_True)
    show ?thesis
      using brake_root [OF v True] unfolding n slack_def
      by (simp only: two_sided le_max_iff_disj simp_thms)
  next
    case False
    with b win have n: "next_speed M = MIN_SPEED_HZ" by (simp only: next_speed_cases if_True if_False simp_thms)
    have "fv (braked M) \<le> 2500" using False by linarith
    from brake_floor [OF v this] show ?thesis
      unfolding n slack_def vmin_sq by (simp only: le_max_iff_disj) (intro conjI disjI1; linarith)
  qed
  then show "sq (m_speed M) - 2 * fv (m_decel M) - slack M \<le> sq (next_speed M)"
    "sq (next_speed M) \<le> max 2500 (sq (m_speed M) - 2 * fv (m_decel M) + slack M)" by blast+
qed

text \<open>Outside it.\<close>

lemma cruise_step:
  assumes M: "in_limits M" and out: "\<not> sint (m_remaining M) \<le> sint (brake_window M)"
  shows "sq (next_speed M) \<le> sq (m_speed M) + 2 * fv (m_accel M) + slack M"
    "min (sq (m_speed M) + 2 * fv (m_accel M)) (sq (m_max_speed M)) \<le> sq (next_speed M) + slack M"
proof -
  let ?w = "m_max_speed M"
  have v: "speed_ok (m_speed M)" "accel_ok (m_accel M)" "speed_ok ?w" "sq (m_speed M) \<le> sq ?w"
    using M in_limits_sq [OF M] by (simp_all add: in_limits_def)
  have "sq (next_speed M) \<le> sq (m_speed M) + 2 * fv (m_accel M) + slack M \<and>
    min (sq (m_speed M) + 2 * fv (m_accel M)) (sq ?w) \<le> sq (next_speed M) + slack M"
  proof (cases "f32_lt (m_speed M) ?w")
    case True
    with out have n: "next_speed M = (if f32_lt (sped_up M) (f32_mul ?w ?w) then hw_sqrtf (sped_up M) else ?w)"
      by (simp only: next_speed_cases if_True if_False simp_thms)
    from speed_up [OF v n] show ?thesis by (simp only: slack_def)
  next
    case False
    with out have n: "next_speed M = ?w" by (simp only: next_speed_cases if_True if_False simp_thms)
    have "fv (m_speed M) = fv ?w" using False M by (auto simp: f32_lt_iff in_limits_def speed_ok_iff)
    moreover have "0 \<le> 2 * fv (m_accel M)" "0 \<le> slack M"
      using v(2) in_limits_sq [OF M] by (simp_all add: accel_ok_iff slack_def)
    ultimately show ?thesis unfolding n by (simp add: min_le_iff_disj)
  qed
  then show "sq (next_speed M) \<le> sq (m_speed M) + 2 * fv (m_accel M) + slack M"
    "min (sq (m_speed M) + 2 * fv (m_accel M)) (sq (m_max_speed M)) \<le> sq (next_speed M) + slack M" by blast+
qed

lemma accel_limits:
  assumes "in_limits M"
  shows "sq (next_speed M) \<le> sq (m_speed M) + 2 * fv (m_accel M) + slack M"
    "sq (m_speed M) \<le> sq (next_speed M) + 2 * fv (m_decel M) + slack M"
proof -
  have "0 < fv (m_accel M)" "0 < fv (m_decel M)" "0 \<le> slack M" "2500 \<le> sq (m_speed M)"
    using assms in_limits_sq [OF assms] by (simp_all add: in_limits_def accel_ok_iff slack_def)
  then show "sq (next_speed M) \<le> sq (m_speed M) + 2 * fv (m_accel M) + slack M"
    "sq (m_speed M) \<le> sq (next_speed M) + 2 * fv (m_decel M) + slack M"
    using brake_step [OF assms] cruise_step [OF assms] in_limits_sq [OF assms]
    unfolding le_max_iff_disj min_le_iff_disj by linarith+
qed

section \<open>Braking in time\<close>

text \<open>
  The square of the speed that may be left when a move has \<open>k\<close> steps to go after this one: what
  braking takes off in \<open>k\<close> steps, one step of acceleration, and the rounding of all the steps of a
  braking from the limit.
\<close>

definition overrun :: "motion \<Rightarrow> real" where
  "overrun M = 2500 + 2 * fv (m_accel M) + 3 * slack M +
     slack M * (2 * sq (m_max_speed M) / (3 * fv (m_decel M)))"

definition ceiling_sq :: "motion \<Rightarrow> real \<Rightarrow> real" where
  "ceiling_sq M k = overrun M + (2 * fv (m_decel M) - slack M) * k"

text \<open>The deceleration is not lost in the rounding.\<close>

definition can_brake :: "motion \<Rightarrow> bool" where
  "can_brake M \<longleftrightarrow> sq (m_max_speed M) \<le> 1048576 * fv (m_decel M)"

lemma can_brakeD:
  assumes "in_limits M" "can_brake M"
  shows "2 * slack M \<le> fv (m_decel M)" "1 / 512 \<le> fv (m_decel M)" "0 \<le> slack M"
  using assms in_limits_sq [OF assms(1)] by (simp_all add: can_brake_def slack_def)

lemma brakes_in_time:
  assumes M: "in_limits M" "can_brake M" and r: "1 \<le> sint (m_remaining M)"
    and u: "sq (m_speed M) \<le> ceiling_sq M (real_of_int (sint (m_remaining M)))"
  shows "sq (next_speed M) \<le> ceiling_sq M (real_of_int (sint (m_remaining M)) - 1)"
proof -
  define T e d W where "T = real_of_int (sint (m_remaining M)) - 1" and "e = slack M"
    and "d = fv (m_decel M)" and "W = sq (m_max_speed M)"
  note b = can_brakeD [OF M, folded d_def e_def]
  have "of_int 1 \<le> real_of_int (sint (m_remaining M))" using r by (simp only: of_int_le_iff)
  then have T: "0 \<le> T" unfolding T_def by (simp only: of_int_1)
  have a: "0 < fv (m_accel M)" using M by (simp add: in_limits_def accel_ok_iff)
  have W: "0 \<le> W" unfolding W_def using in_limits_sq [OF M(1)] by linarith
  have over: "2500 + 2 * fv (m_accel M) + 3 * e + e * (2 * W / (3 * d)) = overrun M"
    by (simp add: overrun_def e_def d_def W_def)
  have eK: "0 \<le> e * (2 * W / (3 * d))" using b W by simp
  have dT: "0 \<le> (2 * d - e) * T" using b T by (intro mult_nonneg_nonneg) linarith+
  have goal: "sq (next_speed M) \<le> overrun M + (2 * d - e) * T"
  proof (cases "sint (m_remaining M) \<le> sint (brake_window M)")
    case True
    have "sq (m_speed M) \<le> overrun M + (2 * d - e) * T + (2 * d - e)"
      using u by (simp add: ceiling_sq_def T_def d_def e_def algebra_simps)
    then have "max 2500 (sq (m_speed M) - 2 * d + e) \<le> overrun M + (2 * d - e) * T"
      using dT eK a b unfolding over [symmetric] by (simp only: max.bounded_iff) (intro conjI; linarith)
    with brake_step(2) [OF M(1) True] show ?thesis by (simp only: d_def e_def)
  next
    case False
    then have out: "sint (brake_window M) < sint (m_remaining M)" by linarith
    have "sq (m_speed M) \<le> 2500 + 2 * d * T + 2 * e"
      using spare_steps [OF _ _ _ _ out, of W] M b(2) in_limits_sq [OF M(1)]
      by (simp add: in_limits_def d_def T_def e_def slack_def W_def)
    with cruise_step(1) [OF M(1) False]
    have n: "sq (next_speed M) \<le> 2500 + 2 * fv (m_accel M) + 3 * e + 2 * (d * T)" by (simp add: e_def)
    show ?thesis
    proof (cases "T \<le> 2 * W / (3 * d)")
      case True
      then have "e * T \<le> e * (2 * W / (3 * d))" using b(3) by (rule mult_left_mono)
      with n show ?thesis unfolding over [symmetric] by (simp only: left_diff_distrib mult.assoc)
    next
      case False
      then have "2 * W \<le> 3 * d * T" using b(2) by (simp add: field_simps)
      moreover have "e * T \<le> d / 2 * T" using b(1) T by (intro mult_right_mono) linarith+
      moreover have "sq (next_speed M) \<le> W"
      proof -
        have "0 \<le> fv (next_speed M)" using next_speed_limits(1) [OF M(1)] by (simp add: speed_ok_iff)
        then show ?thesis unfolding W_def using next_speed_limits(2) [OF M(1)] by (intro mult_mono) linarith+
      qed
      ultimately show ?thesis using a b(3) eK unfolding over [symmetric]
        by (simp only: left_diff_distrib mult.assoc)
    qed
  qed
  then show ?thesis by (simp add: ceiling_sq_def d_def e_def T_def)
qed

section \<open>The speeds of a whole move\<close>

definition pushed_step :: "motion \<Rightarrow> motion" where
  "pushed_step M = M\<lparr>m_speed := next_speed M, m_remaining := m_remaining M - 1\<rparr>"

primrec speeds :: "nat \<Rightarrow> motion \<Rightarrow> f32 list" where
  "speeds 0 M = []"
| "speeds (Suc k) M = next_speed M # speeds k (pushed_step M)"

lemma speeds_length [simp]: "length (speeds k M) = k"
  by (induction k arbitrary: M) simp_all

lemma speeds_add: "speeds (k + j) M = speeds k M @ speeds j ((pushed_step ^^ k) M)"
  by (induction k arbitrary: M) (simp_all add: funpow_swap1)

lemma pushed_steps_add: "(pushed_step ^^ (k + j)) M = (pushed_step ^^ j) ((pushed_step ^^ k) M)"
  by (simp add: add.commute [of k j] funpow_add)

text \<open>\<open>drives s t\<close>: from \<open>s\<close> to \<open>t\<close> the words pushed are the half-periods of the next speeds of the
  motion, one by one.\<close>

definition drives :: "core1 \<Rightarrow> core1 \<Rightarrow> bool" where
  "drives s t \<longleftrightarrow> (\<exists>k. step_words (hist t) =
       rev (map hz_to_half_period (speeds k (mot s))) @ step_words (hist s) \<and>
     (m_state (mot s) = MOVING \<or> k = 0 \<and> mot t = mot s) \<and>
     (m_state (mot t) = MOVING \<longrightarrow> mot t = (pushed_step ^^ k) (mot s)))"

lemma drives_trans: "drives s t \<Longrightarrow> drives t u \<Longrightarrow> drives s u"
proof -
  assume "drives s t" "drives t u"
  then obtain k j where
    k: "step_words (hist t) = rev (map hz_to_half_period (speeds k (mot s))) @ step_words (hist s)"
      "m_state (mot s) = MOVING \<or> k = 0 \<and> mot t = mot s"
      "m_state (mot t) = MOVING \<longrightarrow> mot t = (pushed_step ^^ k) (mot s)"
    and j: "step_words (hist u) = rev (map hz_to_half_period (speeds j (mot t))) @ step_words (hist t)"
      "m_state (mot t) = MOVING \<or> j = 0 \<and> mot u = mot t"
      "m_state (mot u) = MOVING \<longrightarrow> mot u = (pushed_step ^^ j) (mot t)"
    unfolding drives_def by blast
  have "m_state (mot t) = MOVING \<Longrightarrow> drives s u"
    using k j unfolding drives_def
    by (intro exI [of _ "k + j"]) (auto simp: speeds_add pushed_steps_add)
  moreover have "m_state (mot t) \<noteq> MOVING \<Longrightarrow> drives s u"
    using k j unfolding drives_def by (intro exI [of _ k]) auto
  ultimately show ?thesis by blast
qed

lemma drives_step: "drives s (snd (feed_step s))"
proof (cases s rule: feed_step_cases)
  case push
  then show ?thesis unfolding drives_def
    by (intro exI [of _ 1]) (simp add: feed_step_push pushed_step_def)
qed (auto simp: drives_def feed_step_idle feed_step_end intro!: exI [of _ 0])

interpretation drives: feeding drives
proof
  show "drives s t" if "mot t = mot s" "step_words (hist t) = step_words (hist s)" for s t
    using that unfolding drives_def by (intro exI [of _ 0]) auto
qed (fact drives_trans drives_step)+

text \<open>
  A profile within the limits of \<open>M\<close>, from speed \<open>v\<close> on: every speed is in range, the square rises
  by at most twice the acceleration and falls by at most twice the deceleration from step to step
  (up to rounding), and with \<open>k\<close> steps to go it is at most what braking takes off in \<open>k\<close> steps.
\<close>

primrec trapezoid :: "motion \<Rightarrow> f32 \<Rightarrow> f32 list \<Rightarrow> bool" where
  "trapezoid M v [] \<longleftrightarrow> True"
| "trapezoid M v (w # ws) \<longleftrightarrow>
     50 \<le> fv w \<and> fv w \<le> fv (m_max_speed M) \<and>
     sq w \<le> sq v + 2 * fv (m_accel M) + slack M \<and>
     sq v \<le> sq w + 2 * fv (m_decel M) + slack M \<and>
     sq w \<le> overrun M + 2 * fv (m_decel M) * real (length ws) \<and>
     trapezoid M w ws"

lemma pushed_step_limits [simp]:
  "m_max_speed (pushed_step M) = m_max_speed M" "m_accel (pushed_step M) = m_accel M"
  "m_decel (pushed_step M) = m_decel M" "m_speed (pushed_step M) = next_speed M"
  "m_remaining (pushed_step M) = m_remaining M - 1"
  by (simp_all add: pushed_step_def)

lemma in_limits_pushed: "in_limits M \<Longrightarrow> in_limits (pushed_step M)"
  using next_speed_limits [of M] by (simp add: in_limits_def)

lemma pushed_step_same [simp]:
  "slack (pushed_step M) = slack M" "overrun (pushed_step M) = overrun M"
  "ceiling_sq (pushed_step M) k = ceiling_sq M k" "can_brake (pushed_step M) = can_brake M"
  by (simp_all add: slack_def overrun_def ceiling_sq_def can_brake_def)

lemma trapezoid_same [simp]: "trapezoid (pushed_step M) v ws = trapezoid M v ws"
  by (induction ws arbitrary: v) simp_all

lemma speeds_trapezoid:
  assumes "in_limits M" "can_brake M" "sq (m_speed M) \<le> ceiling_sq M (real n)" "sint (m_remaining M) = int n"
  shows "trapezoid M (m_speed M) (speeds n M)"
  using assms
proof (induction n arbitrary: M)
  case (Suc n)
  note lim = in_limits_pushed [OF Suc.prems(1)]
  have r: "1 \<le> sint (m_remaining M)" using Suc.prems(4) by simp
  have c: "sq (next_speed M) \<le> ceiling_sq M (real n)"
    using brakes_in_time [OF Suc.prems(1,2) r] Suc.prems(3) unfolding Suc.prems(4) by simp
  have "sint (m_remaining (pushed_step M)) = int n"
    using sint_dec [of "m_remaining M"] r Suc.prems(4) by simp
  with Suc.IH [OF lim] Suc.prems(2) c have IH: "trapezoid M (next_speed M) (speeds n (pushed_step M))" by simp
  have "ceiling_sq M (real n) \<le> overrun M + 2 * fv (m_decel M) * real n"
    using can_brakeD(3) [OF Suc.prems(1,2)] by (simp add: ceiling_sq_def left_diff_distrib)
  with c IH show ?case
    using accel_limits [OF Suc.prems(1)] next_speed_limits [OF Suc.prems(1)] by (simp add: speed_ok_iff)
qed simp

text \<open>A move as \<open>motion_start\<close> leaves it.\<close>

lemma start_trapezoid:
  assumes "motion_ok M" "m_state M = MOVING" "m_speed M = MIN_SPEED_HZ" "can_brake M" "0 \<le> sint (m_remaining M)"
  shows "trapezoid M MIN_SPEED_HZ (speeds (nat (sint (m_remaining M))) M)"
proof -
  have lim: "in_limits M"
    using assms(1-3) by (auto simp: in_limits_def motion_ok_def speed_ok_iff fv_consts fin_consts)
  note b = can_brakeD [OF lim assms(4)]
  have a: "0 < fv (m_accel M)" using lim by (simp add: in_limits_def accel_ok_iff)
  have "0 \<le> slack M * (2 * sq (m_max_speed M) / (3 * fv (m_decel M)))"
    "0 \<le> (2 * fv (m_decel M) - slack M) * real (nat (sint (m_remaining M)))"
    using b by simp_all
  then have "sq (m_speed M) \<le> ceiling_sq M (real (nat (sint (m_remaining M))))"
    using a b(3) unfolding assms(3) vmin_sq ceiling_sq_def overrun_def by linarith
  from speeds_trapezoid [OF lim assms(4) this] assms(3,5) show ?thesis by simp
qed

lemma trapezoid_started [simp]:
  "trapezoid (started u M) v ws = trapezoid M v ws" "can_brake (started u M) = can_brake M"
proof -
  have "slack (started u M) = slack M" "overrun (started u M) = overrun M"
    "m_max_speed (started u M) = m_max_speed M" "m_accel (started u M) = m_accel M"
    "m_decel (started u M) = m_decel M"
    by (simp_all add: started_def slack_def overrun_def)
  then show "trapezoid (started u M) v ws = trapezoid M v ws" "can_brake (started u M) = can_brake M"
    by (induction ws arbitrary: v) (simp_all add: can_brake_def)
qed

lemma started_steps:
  assumes "u \<noteq> 0" "u \<noteq> 0x80000000"
  shows "sint (m_remaining (started u M)) = \<bar>sint u\<bar>"
  using assms sint_neg [of u] sint_bounds32(1) [of u] int_min_iff [of u]
  by (auto simp: started_def word_sless_alt)

lemma motion_start_extends:
  assumes "motion_start E u s = Some t" "u \<noteq> 0"
  shows "\<exists>new. hist t = new @ hist s"
proof -
  let ?w = "Wr (if 0 <s u then SIO_GPIO_OUT_SET else SIO_GPIO_OUT_CLR) (BIT PIN_DIR)"
  obtain v where v: "delay_us E 5 (s\<lparr>hist := ?w # hist s\<rparr>) = Some v" "hist t = hist v"
    using assms by (auto simp: motion_start_def bind_eq_Some_conv Let_def reg_wr_def split: if_splits)
  then show ?thesis using delay_us_Some [OF v(1)] by auto
qed

section \<open>Properties\<close>

text \<open>
  C4: The speeds of a move form a trapezoid. Let \<open>motion_start\<close> have begun a move of \<open>steps\<close> (not
  \<open>INT32_MIN\<close>) under limits in range, the deceleration not so small beside the limit that rounding loses
  it (\<open>can_brake\<close>: the limit's square is at most the deceleration times two to the twentieth). Let no
  request come, and the PIO have a queue of four words of which it takes a waiting one within the time
  of \<open>K\<close> accesses. Then the main loop comes to rest within \<open>K + 1\<close> turns per step and as many more; the
  words it pushed are the half-periods of as many speeds, from \<open>MIN_SPEED_HZ\<close> on, each between
  \<open>MIN_SPEED_HZ\<close> and the user's limit, each square at most twice the acceleration above and twice the
  deceleration below the one before, and the move brakes in time: with \<open>k\<close> steps to go the square is
  at most what braking takes off in \<open>k\<close> steps, one step of acceleration, and the rounding of a whole
  braking (\<open>overrun\<close>).
\<close>

theorem move_profile:
  assumes start: "motion_start E steps s0 = Some s" "steps \<noteq> 0" "steps \<noteq> 0x80000000"
    and env: "no_requests E (hist s0)" "pio_queue E queued K (hist s0)"
    and lim: "motion_ok (mot s0)" "can_brake (mot s0)"
    and turns: "Suc (nat \<bar>sint steps\<bar>) * Suc K \<le> N"
  shows "\<exists>t vs. main_turns E N s = Some t \<and> m_state (mot t) = IDLE \<and>
    step_words (hist t) = rev (map hz_to_half_period vs) @ step_words (hist s0) \<and>
    int (length vs) = \<bar>sint steps\<bar> \<and> trapezoid (mot s0) MIN_SPEED_HZ vs"
proof -
  let ?M = "mot s" and ?n = "nat \<bar>sint steps\<bar>"
  have M: "?M = started steps (mot s0)" and w0: "step_words (hist s) = step_words (hist s0)"
    using motion_start_Some [OF start(1)] by simp_all
  have r: "sint (m_remaining ?M) = \<bar>sint steps\<bar>" unfolding M by (rule started_steps [OF start(2,3)])
  have go: "m_state ?M = MOVING" "m_stop_req ?M = 0" "m_speed ?M = MIN_SPEED_HZ" "motion_ok ?M"
    using start(2) lim(1) by (simp_all add: M started_def motion_ok_def speed_ok_iff fin_consts fv_consts)
  obtain new where h: "hist s = new @ hist s0" using motion_start_extends [OF start(1,2)] by blast
  have "no_requests E (hist s)" "pio_queue E queued K (hist s)"
    using no_requests_later [OF env(1)] pio_queue_later [OF env(2)] by (simp_all add: h)
  moreover have "Suc (nat (steps_left s)) * Suc K \<le> N" using turns r by simp
  ultimately obtain t ws where
    t: "main_turns E N s = Some t" "m_state (mot t) = IDLE" "mails (hist t) = mails (hist s)"
      "step_words (hist t) = ws @ step_words (hist s)" "int (length ws) = \<bar>sint steps\<bar>"
    using move_to_rest [of E s queued K N] go(1,2) r by auto
  obtain k where k: "step_words (hist t) = rev (map hz_to_half_period (speeds k ?M)) @ step_words (hist s)"
    using drives.turns [OF t(1,3)] unfolding drives_def by blast
  with t(4,5) have "k = ?n" by (metis append_same_eq length_map length_rev nat_int speeds_length)
  then have "trapezoid (mot s0) MIN_SPEED_HZ (speeds k ?M)"
    using start_trapezoid [OF go(4,1,3)] lim(2) r by (simp add: M)
  with t(1,2) k w0 \<open>k = ?n\<close> show ?thesis by (intro exI [of _ t] exI [of _ "speeds k ?M"]) simp
qed

text \<open>A board with that queue, no mail and a timer that runs.\<close>

definition idle_board :: core1_hw where
  "idle_board = (fifo_bench [])\<lparr>reg_val := \<lambda>r h. if r = TIMER0_TIMERAWL then word_of_nat (length h)
     else reg_val (fifo_bench []) r h\<rparr>"

lemma idle_board_runs:
  "no_requests idle_board h" "pio_queue idle_board fifo_level 10 h" "timer_runs idle_board length 1"
  using fifo_bench_quiet [of h] fifo_bench_queue [of "[]" h]
  by (auto simp: idle_board_def no_requests_def pio_queue_def timer_runs_def fifo_bench_def)

lemma move_profile_witness:
  "\<exists>s t vs. motion_start idle_board (- 20000) \<lparr>hist = [], mot = M_init\<rparr> = Some s \<and>
    main_turns idle_board 220011 s = Some t \<and> step_words (hist t) = rev (map hz_to_half_period vs) \<and>
    length vs = 20000 \<and> trapezoid M_init MIN_SPEED_HZ vs"
proof -
  have "motion_ok M_init" "can_brake M_init"
    by (simp_all add: motion_ok_def can_brake_def M_init_def speed_ok_iff accel_ok_iff fin_consts fv_consts)
  moreover obtain s where "motion_start idle_board (- 20000) \<lparr>hist = [], mot = M_init\<rparr> = Some s"
    using motion_start_returns [OF idle_board_runs(3)] by blast
  ultimately show ?thesis
    using move_profile [OF _ _ _ idle_board_runs(1,2), of "- 20000" "\<lparr>hist = [], mot = M_init\<rparr>" s 220011] by auto
qed




text \<open>
  Lowering the limit does not brake. With more steps to go than its window, a move whose limit
  is set below its speed takes the next step at the new limit, whatever the deceleration allows.
\<close>

lemma lowered_limit_drops:
  assumes "speed_ok u" "speed_ok (m_speed M)" "fv u < fv (m_speed M)"
    "sint (brake_window M) < sint (m_remaining M)"
  shows "next_speed (snd (serve CMD_SPEED u M)) = u"
proof -
  let ?N = "snd (serve CMD_SPEED u M)"
  have "\<not> f32_lt u MIN_SPEED_HZ" "\<not> f32_lt ABS_MAX_SPEED u"
    using assms(1) by (simp_all add: speed_ok_iff f32_lt_iff fin_consts fv_consts)
  then have N: "m_max_speed ?N = u" "m_speed ?N = m_speed M" "m_remaining ?N = m_remaining M"
    "m_decel ?N = m_decel M" by (simp_all add: clamp_speed_def)
  moreover have "brake_window ?N = brake_window M" by (simp only: brake_window_def N)
  moreover have "\<not> f32_lt (m_speed M) u" using assms(1-3) by (simp add: speed_ok_iff f32_lt_iff)
  ultimately show ?thesis using assms(4) unfolding next_speed_cases by simp
qed

lemma lowered_limit_drops_example:
  "next_speed (snd (serve CMD_SPEED MIN_SPEED_HZ
     (M_init\<lparr>m_state := MOVING, m_speed := DEF_MAX_SPEED, m_remaining := 100000\<rparr>))) = MIN_SPEED_HZ"
proof -
  let ?M = "M_init\<lparr>m_state := MOVING, m_speed := DEF_MAX_SPEED, m_remaining := 100000\<rparr>"
  have "brake_window ?M = 5000" by (simp add: M_init_def brake_window_def dev_eval)
  then show ?thesis
    using lowered_limit_drops [of MIN_SPEED_HZ ?M]
    by (simp add: M_init_def speed_ok_iff fin_consts fv_consts)
qed

end
