(* ===== verification/Stepper_Shell.thy ===== *)
theory Stepper_Shell
  imports Core1_Command
begin

text \<open>
  \<open>src/stepper_shell.c\<close>: the shell commands of core0, clients of core1's mailbox. Zephyr's mailbox,
  its timeouts and the C library's number parsers are the parameter \<open>shell_env\<close>: what they
  answer is a function of the calls made so far. Callbacks of the mailbox interrupt arrive at
  every call, as many as the environment says.
\<close>

section \<open>The code\<close>

text \<open>Calls and interrupts, newest first; a printed line is its format and its arguments.\<close>

datatype sev =
    Send u32 | Callback u32 | Wait | Take bool | Shell_error string | Shell_print string "u32 list"
  | Sem_init nat nat | Register_callback | Set_enabled

record shell_env =
  device_is_ready :: bool
  mbox_register_callback :: "sev list \<Rightarrow> int"
  mbox_set_enabled :: "sev list \<Rightarrow> int"
  mbox_send :: "sev list \<Rightarrow> u32 \<Rightarrow> int"
  arrivals :: "sev list \<Rightarrow> u32 list"
  strtof :: "string \<Rightarrow> f32"
  strtol :: "string \<Rightarrow> u32"

record shell_state =
  reply_sem :: nat
  last_reply :: u32
  slog :: "sev list"

definition ENODEV :: int where [dev_eval]: "ENODEV = 19"
definition ETIMEDOUT :: int where [dev_eval]: "ETIMEDOUT = 116"

definition STEPS_PER_INCH :: f32 where
  "STEPS_PER_INCH = f32_lit 67733 10"

definition say :: "sev \<Rightarrow> shell_state \<Rightarrow> shell_state" where
  [simp]: "say e s = s\<lparr>slog := e # slog s\<rparr>"

text \<open>The semaphore was initialised with limit 1.\<close>

definition mbox_cb :: "u32 \<Rightarrow> shell_state \<Rightarrow> shell_state" where
  "mbox_cb data s =
    s\<lparr>last_reply := data, reply_sem := min 1 (reply_sem s + 1), slog := Callback data # slog s\<rparr>"

definition interrupts :: "shell_env \<Rightarrow> shell_state \<Rightarrow> shell_state" where
  "interrupts E s = fold mbox_cb (arrivals E (slog s)) s"

definition stepper_mbox_init :: "shell_env \<Rightarrow> shell_state \<Rightarrow> int \<times> shell_state" where
  "stepper_mbox_init E s =
    (if \<not> device_is_ready E then (- ENODEV, s)
     else let s1 = say (Sem_init 0 1) (s\<lparr>reply_sem := 0\<rparr>);
              ret = mbox_register_callback E (slog s1);
              s2 = say Register_callback s1
          in if ret \<noteq> 0 then (ret, s2)
             else (mbox_set_enabled E (slog s2), say Set_enabled s2))"

definition mbox_send_word :: "shell_env \<Rightarrow> u32 \<Rightarrow> shell_state \<Rightarrow> int \<times> shell_state" where
  "mbox_send_word E word s = (mbox_send E (slog s) word, interrupts E (say (Send word) s))"

text \<open>The reply written through the pointer, when there is one.\<close>

definition mbox_wait_reply :: "shell_env \<Rightarrow> shell_state \<Rightarrow> int \<times> u32 option \<times> shell_state" where
  "mbox_wait_reply E s =
    (let s1 = interrupts E (say Wait s)
     in if reply_sem s1 = 0 then (- ETIMEDOUT, None, say (Take False) s1)
        else (0, Some (last_reply s1), say (Take True) (s1\<lparr>reply_sem := reply_sem s1 - 1\<rparr>)))"

definition cmd_roundtrip0 :: "shell_env \<Rightarrow> u32 \<Rightarrow> shell_state \<Rightarrow> int \<times> u32 option \<times> shell_state" where
  "cmd_roundtrip0 E opcode s =
    (let (ret, s1) = mbox_send_word E opcode s
     in if ret \<noteq> 0 then (ret, None, s1) else mbox_wait_reply E s1)"

definition cmd_roundtrip1 ::
  "shell_env \<Rightarrow> u32 \<Rightarrow> u32 \<Rightarrow> shell_state \<Rightarrow> int \<times> u32 option \<times> shell_state" where
  "cmd_roundtrip1 E opcode payload s =
    (let (ret, s1) = mbox_send_word E opcode s
     in if ret \<noteq> 0 then (ret, None, s1)
        else let (ret, s2) = mbox_send_word E payload s1
        in if ret \<noteq> 0 then (ret, None, s2) else mbox_wait_reply E s2)"

definition no_response :: "shell_state \<Rightarrow> int \<times> shell_state" where
  "no_response s = (- 1, say (Shell_error ''core1 did not respond'') s)"

definition status_query :: "shell_env \<Rightarrow> u32 \<Rightarrow> shell_state \<Rightarrow> int \<times> u32 option \<times> shell_state" where
  "status_query E field s =
    (let (ret, out, s1) = cmd_roundtrip1 E (cmd_code CMD_STATUS) field s
     in if ret \<noteq> 0 then (fst (no_response s1), out, snd (no_response s1)) else (0, out, s1))"

definition cmd_stepper_speed :: "shell_env \<Rightarrow> string \<Rightarrow> shell_state \<Rightarrow> int \<times> shell_state" where
  "cmd_stepper_speed E arg s =
    (let hz = strtof E arg; (ret, reply, s1) = cmd_roundtrip1 E (cmd_code CMD_SPEED) (mbox_pack_float hz) s
     in if ret \<noteq> 0 then no_response s1
        else (0, say (Shell_print ''max speed set to %.0f steps/sec''
               [mbox_unpack_float (the reply)]) s1))"

definition cmd_stepper_accel :: "shell_env \<Rightarrow> string \<Rightarrow> shell_state \<Rightarrow> int \<times> shell_state" where
  "cmd_stepper_accel E arg s =
    (let v = strtof E arg; (ret, reply, s1) = cmd_roundtrip1 E (cmd_code CMD_ACCEL) (mbox_pack_float v) s
     in if ret \<noteq> 0 then no_response s1
        else (0, say (Shell_print ''accel set to %.0f steps/sec^2''
               [mbox_unpack_float (the reply)]) s1))"

definition cmd_stepper_decel :: "shell_env \<Rightarrow> string \<Rightarrow> shell_state \<Rightarrow> int \<times> shell_state" where
  "cmd_stepper_decel E arg s =
    (let v = strtof E arg; (ret, reply, s1) = cmd_roundtrip1 E (cmd_code CMD_DECEL) (mbox_pack_float v) s
     in if ret \<noteq> 0 then no_response s1
        else (0, say (Shell_print ''decel set to %.0f steps/sec^2''
               [mbox_unpack_float (the reply)]) s1))"

text \<open>The \<open>%s\<close> of the last line is written out: it is one of two words.\<close>

definition move_steps :: "shell_env \<Rightarrow> u32 \<Rightarrow> shell_state \<Rightarrow> int \<times> shell_state" where
  "move_steps E steps s =
    (if steps = 0 then (- 1, say (Shell_error ''step count cannot be zero'') s)
     else let (ret, reply, s1) = cmd_roundtrip1 E (cmd_code CMD_MOVE) steps s
     in if ret \<noteq> 0 then no_response s1
        else if the reply = STEPPER_ACK_BUSY
        then (- 1, say (Shell_error ''already moving; use 'stepper stop' first'') s1)
        else (0, say (Shell_print
               (if 0 <s steps then ''moving %d steps forward...'' else ''moving %d steps reverse...'')
               [steps]) s1))"

definition cmd_stepper_move :: "shell_env \<Rightarrow> string \<Rightarrow> shell_state \<Rightarrow> int \<times> shell_state" where
  "cmd_stepper_move E arg s = move_steps E (strtol E arg) s"

definition cmd_stepper_movein :: "shell_env \<Rightarrow> string \<Rightarrow> shell_state \<Rightarrow> int \<times> shell_state" where
  "cmd_stepper_movein E arg s =
    (let inches = strtof E arg; steps = f32_lround (f32_mul inches STEPS_PER_INCH)
     in move_steps E steps s)"

definition cmd_stepper_stop :: "shell_env \<Rightarrow> shell_state \<Rightarrow> int \<times> shell_state" where
  "cmd_stepper_stop E s =
    (let (ret, reply, s1) = cmd_roundtrip0 E (cmd_code CMD_STOP) s
     in if ret \<noteq> 0 then no_response s1
        else (0, say (Shell_print ''stop requested - will halt after current step.'' []) s1))"

text \<open>The queries of \<open>status\<close>, up to the first that fails, and the replies so far.\<close>

fun status_queries ::
  "shell_env \<Rightarrow> stepper_status_field list \<Rightarrow> shell_state \<Rightarrow> int \<times> u32 list \<times> shell_state" where
  "status_queries E [] s = (0, [], s)"
| "status_queries E (f # fs) s =
    (let (ret, out, s1) = status_query E (field_code f) s
     in if ret \<noteq> 0 then (ret, [], s1)
        else let (ret, outs, s2) = status_queries E fs s1 in (ret, the out # outs, s2))"

definition cmd_stepper_status :: "shell_env \<Rightarrow> shell_state \<Rightarrow> int \<times> shell_state" where
  "cmd_stepper_status E s =
    (let (ret, outs, s1) = status_queries E
       [STATUS_STATE, STATUS_MAX_SPEED, STATUS_ACCEL, STATUS_DECEL, STATUS_SPEED, STATUS_REMAINING] s
     in if ret \<noteq> 0 then (- 1, s1)
        else let s2 = say (Shell_print ''  max speed : %.0f steps/sec'' [mbox_unpack_float (outs ! 1)]) s1;
                 s3 = say (Shell_print ''  accel     : %.0f steps/sec^2'' [mbox_unpack_float (outs ! 2)]) s2;
                 s4 = say (Shell_print ''  decel     : %.0f steps/sec^2'' [mbox_unpack_float (outs ! 3)]) s3
        in (0, if outs ! 0 \<noteq> 0
               then say (Shell_print ''  state     : moving - %d steps remaining, current %.0f steps/sec''
                      [outs ! 5, mbox_unpack_float (outs ! 4)]) s4
               else say (Shell_print ''  state     : idle'' []) s4))"

text \<open>The table of commands; a handler gets the words of the line, its own name first.\<close>

definition sub_stepper :: "shell_env \<Rightarrow> (string list \<Rightarrow> shell_state \<Rightarrow> int \<times> shell_state) subcmd list" where
  "sub_stepper E =
    [SHELL_CMD_ARG ''speed'' ''Set max step rate (steps/sec)'' (\<lambda>argv. cmd_stepper_speed E (argv ! 1)) 2 0,
     SHELL_CMD_ARG ''accel'' ''Set acceleration (steps/sec^2)'' (\<lambda>argv. cmd_stepper_accel E (argv ! 1)) 2 0,
     SHELL_CMD_ARG ''decel'' ''Set deceleration (steps/sec^2)'' (\<lambda>argv. cmd_stepper_decel E (argv ! 1)) 2 0,
     SHELL_CMD_ARG ''move'' ''Move N steps (+forward/-reverse)'' (\<lambda>argv. cmd_stepper_move E (argv ! 1)) 2 0,
     SHELL_CMD_ARG ''movein'' ''Move N inches (+forward/-reverse)'' (\<lambda>argv. cmd_stepper_movein E (argv ! 1)) 2 0,
     SHELL_CMD_ARG ''stop'' ''Abort the current move'' (\<lambda>argv. cmd_stepper_stop E) 1 0,
     SHELL_CMD_ARG ''status'' ''Show settings and motion state'' (\<lambda>argv. cmd_stepper_status E) 1 0]"

text \<open>No handler reads beyond the words the shell has counted for it.\<close>

lemma sub_stepper_args:
  assumes "c \<in> set (sub_stepper E)" "admits c (length argv)"
    and same: "\<And>i. i < length argv \<Longrightarrow> argv ! i = behind ! i"
  shows "sub_handler c argv s = sub_handler c behind s"
  using assms(1,2) same [of 1] by (auto simp: sub_stepper_def)

section \<open>A peer that answers in time\<close>

text \<open>While the request \<open>c u\<close> is sent after the calls \<open>h\<close>, sending works and the one word that
  arrives is the reply \<open>r\<close>, before the time-out.\<close>

definition answered :: "shell_env \<Rightarrow> stepper_cmd \<Rightarrow> u32 \<Rightarrow> u32 \<Rightarrow> sev list \<Rightarrow> bool" where
  "answered E c u r h \<longleftrightarrow>
    (\<forall>g w. mbox_send E g w = 0) \<and>
    (let sent = rev (map Send (request c u)) @ h
     in (c \<noteq> CMD_STOP \<longrightarrow> arrivals E (Send (cmd_code c) # h) = []) \<and>
        (arrivals E sent = [r] \<and> arrivals E (Wait # Callback r # sent) = [] \<or>
         arrivals E sent = [] \<and> arrivals E (Wait # sent) = [r]))"

text \<open>A round trip with such a peer returns the reply and leaves the semaphore as it found it.\<close>

lemma roundtrip_answered:
  assumes "answered E c u r (slog s)" "reply_sem s = 0" "c \<noteq> CMD_STOP"
  shows "\<exists>t. cmd_roundtrip1 E (cmd_code c) u s = (0, Some r, t) \<and> reply_sem t = 0 \<and>
    (\<exists>new. slog t = new @ slog s)"
proof -
  have q: "request c u = [cmd_code c, u]" using assms(3) by (cases c) simp_all
  show ?thesis
    using assms unfolding answered_def q
    by (auto simp: cmd_roundtrip1_def mbox_send_word_def mbox_wait_reply_def interrupts_def
        mbox_cb_def Let_def)
qed

lemma roundtrip0_answered:
  assumes "answered E CMD_STOP u r (slog s)" "reply_sem s = 0"
  shows "\<exists>t. cmd_roundtrip0 E (cmd_code CMD_STOP) s = (0, Some r, t) \<and> reply_sem t = 0"
  using assms unfolding answered_def
  by (auto simp: cmd_roundtrip0_def mbox_send_word_def mbox_wait_reply_def interrupts_def
      mbox_cb_def Let_def)

section \<open>A peer that answers late\<close>

text \<open>The round trip of a request, by its number of words.\<close>

definition round_trip ::
  "shell_env \<Rightarrow> stepper_cmd \<Rightarrow> u32 \<Rightarrow> shell_state \<Rightarrow> int \<times> u32 option \<times> shell_state" where
  "round_trip E c u s = (if c = CMD_STOP then cmd_roundtrip0 E (cmd_code c) s
     else cmd_roundtrip1 E (cmd_code c) u s)"

text \<open>Requests one after the other, each with the reply that arrives when its round trip is over.\<close>

fun late_run ::
  "shell_env \<Rightarrow> (stepper_cmd \<times> u32 \<times> u32) list \<Rightarrow> shell_state \<Rightarrow> (int \<times> u32 option) list \<times> shell_state" where
  "late_run E [] s = ([], s)"
| "late_run E ((c, u, r) # qs) s =
    (let (ret, out, s1) = round_trip E c u s; (outs, s2) = late_run E qs (mbox_cb r s1)
     in ((ret, out) # outs, s2))"

definition silent :: "shell_env \<Rightarrow> bool" where
  "silent E \<longleftrightarrow> (\<forall>g w. mbox_send E g w = 0) \<and> (\<forall>g. arrivals E g = [])"

lemma round_trip_silent:
  assumes "silent E"
  shows "\<exists>t. round_trip E c u s =
      (if reply_sem s = 0 then (- ETIMEDOUT, None, t) else (0, Some (last_reply s), t)) \<and>
    reply_sem t = reply_sem s - 1"
  using assms
  by (auto simp: silent_def round_trip_def cmd_roundtrip0_def cmd_roundtrip1_def mbox_send_word_def
      mbox_wait_reply_def interrupts_def Let_def)

lemma late_run_after:
  assumes "silent E"
  shows "reply_sem s = 1 \<Longrightarrow>
    fst (late_run E qs s) = map (\<lambda>r. (0, Some r)) (take (length qs) (last_reply s # map (\<lambda>(c, u, r). r) qs)) \<and>
    reply_sem (snd (late_run E qs s)) = 1 \<and>
    last_reply (snd (late_run E qs s)) = last (last_reply s # map (\<lambda>(c, u, r). r) qs)"
proof (induction qs arbitrary: s)
  case (Cons q qs)
  obtain c u r where q: "q = (c, u, r)" by (cases q) auto
  obtain t where t: "round_trip E c u s = (0, Some (last_reply s), t)" "reply_sem t = 0"
    using round_trip_silent [OF assms, of c u s] Cons.prems by auto
  define s1 where "s1 = mbox_cb r t"
  have s1: "reply_sem s1 = 1" "last_reply s1 = r" using t(2) by (simp_all add: s1_def mbox_cb_def)
  have "late_run E (q # qs) s = ((0, Some (last_reply s)) # fst (late_run E qs s1), snd (late_run E qs s1))"
    by (simp add: q t(1) s1_def split_beta)
  then show ?case using Cons.IH [OF s1(1)] by (simp add: q s1(2))
qed simp

section \<open>The interface of the mailbox\<close>

text \<open>
  What the shell relies on of the server behind the mailbox: a setting is reported as it was
  accepted, queries change nothing, and a motion that was started is reported as one.
\<close>

locale mailbox_server =
  fixes answer :: "stepper_cmd \<Rightarrow> u32 \<Rightarrow> 'm \<Rightarrow> u32 \<times> 'm"
  assumes speed_report: "fst (answer CMD_STATUS (field_code STATUS_MAX_SPEED) (snd (answer CMD_SPEED u m)))
      = fst (answer CMD_SPEED u m)"
    and speed_kept: "c \<noteq> CMD_SPEED \<Longrightarrow>
      fst (answer CMD_STATUS (field_code STATUS_MAX_SPEED) (snd (answer c u m)))
      = fst (answer CMD_STATUS (field_code STATUS_MAX_SPEED) m)"
    and query_pure: "snd (answer CMD_STATUS f m) = m"
    and busy: "fst (answer CMD_STATUS (field_code STATUS_STATE) m) = 1 \<Longrightarrow>
      answer CMD_MOVE u m = (STEPPER_ACK_BUSY, m)"
    and move_started: "fst (answer CMD_STATUS (field_code STATUS_STATE) m) = 0 \<Longrightarrow> n \<noteq> 0 \<Longrightarrow>
      fst (answer CMD_MOVE n m) = STEPPER_ACK_OK \<and>
      fst (answer CMD_STATUS (field_code STATUS_STATE) (snd (answer CMD_MOVE n m))) = 1"
begin

text \<open>A sequence of requests, and the limit a status query reports after it.\<close>

fun answer_all :: "(stepper_cmd \<times> u32) list \<Rightarrow> 'm \<Rightarrow> 'm" where
  "answer_all [] m = m"
| "answer_all ((c, u) # rs) m = answer_all rs (snd (answer c u m))"

lemma limit_persists:
  "\<forall>(c, u) \<in> set rs. c \<noteq> CMD_SPEED \<Longrightarrow>
     fst (answer CMD_STATUS (field_code STATUS_MAX_SPEED) (answer_all rs (snd (answer CMD_SPEED u m))))
     = fst (answer CMD_SPEED u m)"
proof -
  assume rs: "\<forall>(c, u) \<in> set rs. c \<noteq> CMD_SPEED"
  then have "fst (answer CMD_STATUS (field_code STATUS_MAX_SPEED) (answer_all rs k))
      = fst (answer CMD_STATUS (field_code STATUS_MAX_SPEED) k)" for k
    by (induction rs arbitrary: k) (auto simp: speed_kept split_beta simp del: field_code.simps)
  then show ?thesis by (simp add: speed_report del: field_code.simps)
qed

text \<open>Of two moves, the second is refused and changes nothing.\<close>

lemma second_move_refused:
  assumes "fst (answer CMD_STATUS (field_code STATUS_STATE) m) = 0" "n \<noteq> 0"
  shows "answer CMD_MOVE k (snd (answer CMD_MOVE n m)) = (STEPPER_ACK_BUSY, snd (answer CMD_MOVE n m))"
  using move_started [OF assms] busy by blast

end

text \<open>Core1's server is one.\<close>

interpretation core1_server: mailbox_server serve
proof
  show "fst (serve CMD_STATUS (field_code STATUS_MAX_SPEED) (snd (serve CMD_SPEED u m)))
      = fst (serve CMD_SPEED u m)" for u m
    by (simp add: status_reply_def mbox_pack_float_def)
  show "fst (serve CMD_STATUS (field_code STATUS_MAX_SPEED) (snd (serve c u m)))
      = fst (serve CMD_STATUS (field_code STATUS_MAX_SPEED) m)" if "c \<noteq> CMD_SPEED" for c u m
    using that by (cases c) (simp_all add: status_reply_def started_def)
  show "snd (serve CMD_STATUS f m) = m" for f m
    by simp
  show "serve CMD_MOVE u m = (STEPPER_ACK_BUSY, m)"
    if "fst (serve CMD_STATUS (field_code STATUS_STATE) m) = 1" for u m
    using that by (cases "m_state m") (simp_all add: status_reply_def)
  show "fst (serve CMD_MOVE n m) = STEPPER_ACK_OK \<and>
      fst (serve CMD_STATUS (field_code STATUS_STATE) (snd (serve CMD_MOVE n m))) = 1"
    if "fst (serve CMD_STATUS (field_code STATUS_STATE) m) = 0" "n \<noteq> 0" for n m
    using that by (cases "m_state m") (simp_all add: status_reply_def started_def)
qed

primrec serve_all :: "(stepper_cmd \<times> u32) list \<Rightarrow> motion \<Rightarrow> motion" where
  "serve_all [] M = M"
| "serve_all (r # rs) M = serve_all rs (snd (serve (fst r) (snd r) M))"

lemma serve_all_answers: "serve_all rs M = core1_server.answer_all rs M"
  by (induction rs arbitrary: M) auto

section \<open>Properties\<close>

text \<open>
  The two sides of the mailbox agree. When core1 serves the request in time, the command
  \<open>stepper speed\<close> prints the limit core1 has set, and any status query after it, whatever
  commands other than a new speed came between, reports that same limit.
\<close>

lemma speed_command_agrees:
  assumes "answered E CMD_SPEED (strtof E arg) (fst (serve CMD_SPEED (strtof E arg) M)) (slog s)"
    "reply_sem s = 0" "\<forall>(c, u) \<in> set rs. c \<noteq> CMD_SPEED"
  shows "\<exists>t. cmd_stepper_speed E arg s = (0, t) \<and>
    hd (slog t) = Shell_print ''max speed set to %.0f steps/sec'' [clamp_speed (strtof E arg)] \<and>
    fst (serve CMD_STATUS (field_code STATUS_MAX_SPEED)
      (serve_all rs (snd (serve CMD_SPEED (strtof E arg) M)))) = clamp_speed (strtof E arg)"
proof -
  have "fst (serve CMD_STATUS (field_code STATUS_MAX_SPEED)
      (serve_all rs (snd (serve CMD_SPEED (strtof E arg) M)))) = clamp_speed (strtof E arg)"
    unfolding serve_all_answers using core1_server.limit_persists [OF assms(3)] by simp
  then show ?thesis
    using roundtrip_answered [OF assms(1,2)]
    by (auto simp: cmd_stepper_speed_def mbox_pack_float_def mbox_unpack_float_def)
qed

text \<open>An environment whose peer answers the word \<open>r\<close> as soon as two words were sent.\<close>

definition prompt_env :: "u32 \<Rightarrow> shell_env" where
  "prompt_env r = \<lparr>device_is_ready = True, mbox_register_callback = \<lambda>h. 0,
     mbox_set_enabled = \<lambda>h. 0, mbox_send = \<lambda>h w. 0,
     arrivals = \<lambda>h. (case h of Send u # Send c # g \<Rightarrow> [r] | _ \<Rightarrow> []),
     strtof = \<lambda>a. 0x461C4000, strtol = \<lambda>a. 100\<rparr>"

lemma clamp_example: "clamp_speed 0x461C4000 = 0x461C4000"
  by (simp add: clamp_speed_def dev_eval)

lemma speed_command_agrees_example:
  "\<exists>t. cmd_stepper_speed (prompt_env 0x461C4000) ''10000'' \<lparr>reply_sem = 0, last_reply = 0, slog = []\<rparr>
      = (0, t) \<and> hd (slog t) = Shell_print ''max speed set to %.0f steps/sec'' [0x461C4000] \<and>
    fst (serve CMD_STATUS 1 (serve_all [(CMD_MOVE, 5), (CMD_STOP, 0)]
      (snd (serve CMD_SPEED 0x461C4000 M_init)))) = 0x461C4000"
proof -
  have "answered (prompt_env 0x461C4000) CMD_SPEED 0x461C4000 0x461C4000 []"
    by (simp add: answered_def prompt_env_def)
  then show ?thesis
    using speed_command_agrees [of "prompt_env 0x461C4000" "''10000''" M_init
        "\<lparr>reply_sem = 0, last_reply = 0, slog = []\<rparr>" "[(CMD_MOVE, 5), (CMD_STOP, 0)]"]
    by (simp add: clamp_example prompt_env_def)
qed

text \<open>
  A move from the shell. A count of zero sends nothing; otherwise, when core1 answers in
  time, the command succeeds exactly if core1 was idle, and core1 then is moving, with a
  second move refused and without effect.
\<close>

lemma move_command_agrees:
  assumes "answered E CMD_MOVE n (fst (serve CMD_MOVE n M)) (slog s)" "reply_sem s = 0" "n \<noteq> 0"
  shows "(fst (move_steps E n s) = 0 \<longleftrightarrow> m_state M = IDLE) \<and>
    m_state (snd (serve CMD_MOVE n M)) = MOVING \<and>
    serve CMD_MOVE k (snd (serve CMD_MOVE n M)) = (STEPPER_ACK_BUSY, snd (serve CMD_MOVE n M)) \<and>
    move_steps E 0 s = (- 1, s\<lparr>slog := Shell_error ''step count cannot be zero'' # slog s\<rparr>)"
proof -
  obtain t where t: "cmd_roundtrip1 E (cmd_code CMD_MOVE) n s = (0, Some (fst (serve CMD_MOVE n M)), t)"
    using roundtrip_answered [OF assms(1,2)] by auto
  show ?thesis
  proof (cases "m_state M")
    case IDLE
    moreover have "fst (serve CMD_STATUS (field_code STATUS_STATE) M) = 0"
      using IDLE by (simp add: status_reply_def)
    from core1_server.second_move_refused [OF this assms(3), of k]
    have "serve CMD_MOVE k (snd (serve CMD_MOVE n M)) = (STEPPER_ACK_BUSY, snd (serve CMD_MOVE n M))" .
    ultimately show ?thesis
      using t assms(3) by (simp add: move_steps_def started_def STEPPER_ACK_OK_def STEPPER_ACK_BUSY_def)
  next
    case MOVING
    then show ?thesis using t assms(3) by (simp add: move_steps_def)
  qed
qed

lemma move_command_agrees_example:
  "fst (move_steps (prompt_env STEPPER_ACK_OK) 5 \<lparr>reply_sem = 0, last_reply = 0, slog = []\<rparr>) = 0"
proof -
  have "answered (prompt_env STEPPER_ACK_OK) CMD_MOVE 5 (fst (serve CMD_MOVE 5 M_init)) []"
    by (simp add: answered_def prompt_env_def M_init_def)
  then show ?thesis
    using move_command_agrees [of "prompt_env STEPPER_ACK_OK" 5 M_init
        "\<lparr>reply_sem = 0, last_reply = 0, slog = []\<rparr>"]
    by (simp add: M_init_def)
qed

text \<open>
  C34: After a time-out the replies are off by one. Let no interrupt come while a command runs, and the
  reply to each of a sequence of requests arrive only when the command that sent it has returned. Then
  the first round trip times out; every later one finds a word in the semaphore, does not wait, and
  reports success with the reply to the request before it; and \<open>stepper speed\<close> after them prints the
  reply to the last of them as the limit it has set.
\<close>

theorem late_reply_misread:
  assumes "silent E" "reply_sem s = 0"
  shows "fst (late_run E ((c, u, r) # qs) s) =
      (- ETIMEDOUT, None) # map (\<lambda>r. (0, Some r)) (butlast (r # map (\<lambda>(c, u, r). r) qs)) \<and>
    (\<exists>t. cmd_stepper_speed E arg (snd (late_run E ((c, u, r) # qs) s)) = (0, t) \<and>
      hd (slog t) = Shell_print ''max speed set to %.0f steps/sec'' [last (r # map (\<lambda>(c, u, r). r) qs)])"
proof -
  obtain t where t: "round_trip E c u s = (- ETIMEDOUT, None, t)" "reply_sem t = 0"
    using round_trip_silent [OF assms(1), of c u s] assms(2) by auto
  define s1 where "s1 = mbox_cb r t"
  have s1: "reply_sem s1 = 1" "last_reply s1 = r" using t(2) by (simp_all add: s1_def mbox_cb_def)
  note run = late_run_after [OF assms(1) s1(1), of qs]
  let ?s2 = "snd (late_run E qs s1)"
  obtain t2 where "round_trip E CMD_SPEED (strtof E arg) ?s2 = (0, Some (last_reply ?s2), t2)"
    using round_trip_silent [OF assms(1), of CMD_SPEED "strtof E arg" ?s2] run by auto
  then have "\<exists>t. cmd_stepper_speed E arg ?s2 = (0, t) \<and>
      hd (slog t) = Shell_print ''max speed set to %.0f steps/sec'' [last_reply ?s2]"
    by (simp add: round_trip_def cmd_stepper_speed_def mbox_pack_float_def mbox_unpack_float_def)
  moreover have "take (length qs) (r # map (\<lambda>(c, u, r). r) qs) = butlast (r # map (\<lambda>(c, u, r). r) qs)"
    by (simp add: butlast_conv_take)
  moreover have "late_run E ((c, u, r) # qs) s = ((- ETIMEDOUT, None) # fst (late_run E qs s1), ?s2)"
    by (simp add: t(1) s1_def split_beta)
  ultimately show ?thesis using run unfolding s1(2) by simp
qed

lemma late_reply_misread_witness:
  "let E = prompt_env 0\<lparr>arrivals := \<lambda>h. []\<rparr>;
       (outs, s) = late_run E [(CMD_MOVE, 5, STEPPER_ACK_OK), (CMD_STATUS, 1, 0x42480000), (CMD_STOP, 0, 9)]
         \<lparr>reply_sem = 0, last_reply = 7, slog = []\<rparr>
   in outs = [(- 116, None), (0, Some 0), (0, Some 0x42480000)] \<and>
      (\<exists>t. cmd_stepper_speed E ''200'' s = (0, t) \<and>
        hd (slog t) = Shell_print ''max speed set to %.0f steps/sec'' [9])"
proof -
  let ?E = "prompt_env 0\<lparr>arrivals := \<lambda>h. []\<rparr>"
  have "silent ?E" by (simp add: silent_def prompt_env_def)
  from late_reply_misread [OF this, of "\<lparr>reply_sem = 0, last_reply = 7, slog = []\<rparr>" CMD_MOVE 5 STEPPER_ACK_OK
      "[(CMD_STATUS, 1, 0x42480000), (CMD_STOP, 0, 9)]" "''200''"]
  show ?thesis by (simp only: Let_def split_beta) (simp add: ETIMEDOUT_def STEPPER_ACK_OK_def del: late_run.simps)
qed

end
