(* ===== verification/Stepper_Pio.thy ===== *)
theory Stepper_Pio
  imports Core1_Motion
begin

text \<open>
  The PIO program \<open>core1/stepper.pio\<close>, on the part of the PIO state machine it uses: one
  instruction a cycle, \<open>pull block\<close> stalling on an empty FIFO, \<open>jmp x--\<close> testing before it
  decrements, and a side-set bit with every instruction that drives the STEP pin. The lemmas give
  the waveform of a step, cycle by cycle.
\<close>

section \<open>The program and its machine\<close>

datatype pio_op = Pull_block | Mov_y_osr | Mov_x_y | Jmp_x_dec nat

text \<open>Each instruction with its side-set value.\<close>

definition stepper_program :: "(pio_op \<times> bool) list" where
  [dev_eval]: "stepper_program =
    [(Pull_block, False), (Mov_y_osr, False), (Mov_x_y, True), (Jmp_x_dec 3, True),
     (Mov_x_y, False), (Jmp_x_dec 5, False)]"

record pio =
  pc :: nat
  osr :: u32
  rx :: u32
  ry :: u32
  txf :: "u32 list"

text \<open>The program counter after \<open>n\<close>, with the wrap of \<open>.wrap_target\<close> and \<open>.wrap\<close>.\<close>

definition next_pc :: "nat \<Rightarrow> nat" where
  [dev_eval]: "next_pc n = (if n = 5 then 0 else n + 1)"

text \<open>One cycle: the level of the STEP pin in it, and the state after.\<close>

definition pio_cycle :: "pio \<Rightarrow> bool \<times> pio" where
  "pio_cycle s =
    (let (i, side) = stepper_program ! pc s; t = s\<lparr>pc := next_pc (pc s)\<rparr>
     in (side,
         case i of
           Pull_block \<Rightarrow> (case txf s of [] \<Rightarrow> s | w # ws \<Rightarrow> t\<lparr>osr := w, txf := ws\<rparr>)
         | Mov_y_osr \<Rightarrow> t\<lparr>ry := osr s\<rparr>
         | Mov_x_y \<Rightarrow> t\<lparr>rx := ry s\<rparr>
         | Jmp_x_dec l \<Rightarrow> (if rx s \<noteq> 0 then s\<lparr>pc := l, rx := rx s - 1\<rparr> else t\<lparr>rx := rx s - 1\<rparr>)))"

text \<open>The levels of the pin over \<open>n\<close> cycles.\<close>

primrec pio_run :: "nat \<Rightarrow> pio \<Rightarrow> bool list \<times> pio" where
  "pio_run 0 s = ([], s)"
| "pio_run (Suc n) s =
    (let (b, t) = pio_cycle s; (bs, u) = pio_run n t in (b # bs, u))"

lemma pio_run_add: "pio_run (m + n) s =
    (fst (pio_run m s) @ fst (pio_run n (snd (pio_run m s))), snd (pio_run n (snd (pio_run m s))))"
  by (induction m arbitrary: s) (simp_all add: Let_def split_beta)

lemma pio_run_1: "pio_run 1 s = ([fst (pio_cycle s)], snd (pio_cycle s))"
  by (simp add: Let_def split_beta)

text \<open>A counting loop of \<open>x + 1\<close> cycles.\<close>

lemma count_loop:
  assumes "l = 3 \<or> l = 5" "pc s = l"
  shows "pio_run (Suc (unat (rx s))) s =
    (replicate (Suc (unat (rx s))) (l = 3), s\<lparr>pc := next_pc l, rx := - 1\<rparr>)"
  using assms(2)
proof (induction "unat (rx s)" arbitrary: s)
  case 0
  then have "rx s = 0" by (simp add: unat_eq_zero)
  with 0(2) assms(1) show ?case
    by (auto simp: pio_cycle_def stepper_program_def Let_def)
next
  case (Suc n)
  let ?t = "s\<lparr>pc := l, rx := rx s - 1\<rparr>"
  have nz: "rx s \<noteq> 0" using Suc(2) by auto
  then have n: "n = unat (rx ?t)" using Suc(2) by (simp add: unat_minus_one)
  have c: "pio_cycle s = (l = 3, ?t)"
    using nz Suc.prems assms(1) by (auto simp: pio_cycle_def stepper_program_def Let_def)
  have "pio_run (Suc n) ?t = (replicate (Suc n) (l = 3), s\<lparr>pc := next_pc l, rx := - 1\<rparr>)"
    using Suc(1) [of ?t] n by simp
  then show ?case unfolding Suc(2) [symmetric]
    by (simp only: pio_run.simps c Let_def prod.case) simp
qed

lemma pio_step_run:
  assumes "pc s = 0" "txf s = w # ws"
  shows "pio_run (2 * unat w + 6) s =
    (replicate 2 False @ replicate (unat w + 2) True @ replicate (unat w + 2) False,
     s\<lparr>osr := w, ry := w, rx := - 1, txf := ws\<rparr>)"
proof -
  define s3 where "s3 = s\<lparr>pc := 3, osr := w, ry := w, rx := w, txf := ws\<rparr>"
  define s5 where "s5 = s3\<lparr>pc := 5\<rparr>"
  have 1: "pio_run 3 s = ([False, False, True], s3)"
    using assms by (simp add: numeral_eq_Suc pio_cycle_def stepper_program_def next_pc_def Let_def s3_def)
  have 2: "pio_run (Suc (unat w)) s3 = (replicate (Suc (unat w)) True, s3\<lparr>pc := 4, rx := - 1\<rparr>)"
    using count_loop [of 3 s3] by (simp add: s3_def next_pc_def)
  have 3: "pio_run 1 (s3\<lparr>pc := 4, rx := - 1\<rparr>) = ([False], s5)"
    by (simp add: pio_cycle_def stepper_program_def next_pc_def Let_def s3_def s5_def)
  have 4: "pio_run (Suc (unat w)) s5 =
      (replicate (Suc (unat w)) False, s\<lparr>osr := w, ry := w, rx := - 1, txf := ws\<rparr>)"
    using count_loop [of 5 s5] assms(1) by (simp add: s5_def s3_def next_pc_def)
  have "2 * unat w + 6 = 3 + (Suc (unat w) + (1 + Suc (unat w)))" by simp
  then show ?thesis
    by (simp only: pio_run_add 1 2 3 4 fst_conv snd_conv)
      (simp add: replicate_append_same [symmetric] numeral_eq_Suc)
qed

section \<open>A queue of steps\<close>

text \<open>Rising edges of a waveform, from the level before it.\<close>

fun rising :: "bool \<Rightarrow> bool list \<Rightarrow> nat" where
  "rising b [] = 0"
| "rising b (c # cs) = (if \<not> b \<and> c then 1 else 0) + rising c cs"

definition last_level :: "bool \<Rightarrow> bool list \<Rightarrow> bool" where
  "last_level b cs = (if cs = [] then b else last cs)"

lemma rising_append: "rising b (xs @ ys) = rising b xs + rising (last_level b xs) ys"
  by (induction xs arbitrary: b) (auto simp: last_level_def)

lemma rising_replicate: "rising b (replicate n c) = (if 0 < n \<and> \<not> b \<and> c then 1 else 0)"
  by (induction n arbitrary: b) auto

definition step_cycles :: "u32 \<Rightarrow> nat" where
  [dev_eval]: "step_cycles w = 2 * unat w + 6"

lemma pio_idle:
  "pc s = 0 \<Longrightarrow> txf s = [] \<Longrightarrow> pio_run n s = (replicate n False, s)"
  by (induction n) (simp_all add: pio_cycle_def stepper_program_def Let_def)

lemma pio_queue_run:
  "pc s = 0 \<Longrightarrow> txf s = ws \<Longrightarrow> (let r = pio_run (sum_list (map step_cycles ws)) s in
     rising False (fst r) = length ws \<and> \<not> last_level False (fst r) \<and>
     pc (snd r) = 0 \<and> txf (snd r) = [])"
proof (induction ws arbitrary: s)
  case Nil
  then show ?case by (simp add: last_level_def)
next
  case (Cons w ws)
  let ?t = "s\<lparr>osr := w, ry := w, rx := - 1, txf := ws\<rparr>"
  let ?u = "replicate 2 False @ replicate (unat w + 2) True @ replicate (unat w + 2) False"
  let ?r = "pio_run (sum_list (map step_cycles ws)) ?t"
  have first: "pio_run (step_cycles w) s = (?u, ?t)"
    using pio_step_run [OF Cons.prems] by (simp add: step_cycles_def)
  have "rising False ?u = 1" "\<not> last_level False ?u"
    by (simp_all add: rising_append rising_replicate last_level_def)
  moreover have "pio_run (sum_list (map step_cycles (w # ws))) s = (?u @ fst ?r, snd ?r)"
    using pio_run_add [of "step_cycles w" "sum_list (map step_cycles ws)" s] by (simp add: first)
  moreover have "rising False (fst ?r) = length ws \<and> \<not> last_level False (fst ?r) \<and>
      pc (snd ?r) = 0 \<and> txf (snd ?r) = []"
    using Cons.IH [of ?t] Cons.prems by (simp add: Let_def)
  moreover have "last_level False (?u @ fst ?r) = last_level (last_level False ?u) (fst ?r)"
    by (simp add: last_level_def)
  ultimately show ?case by (simp only: Let_def fst_conv snd_conv rising_append) simp
qed

section \<open>Words that arrive while the machine runs\<close>

text \<open>
  Core1 pushes a word whenever the queue has room, at any cycle of the machine: a schedule says how
  many cycles pass before each push.
\<close>

fun pio_feed :: "(nat \<times> u32) list \<Rightarrow> pio \<Rightarrow> bool list \<times> pio" where
  "pio_feed [] s = ([], s)"
| "pio_feed ((n, w) # es) s =
    (let (bs, t) = pio_run n s; (cs, u) = pio_feed es (t\<lparr>txf := txf t @ [w]\<rparr>) in (bs @ cs, u))"

text \<open>The level of the pin before the next cycle, and the pulses that queued and taken words are still
  to make, both read off the state.\<close>

definition level :: "pio \<Rightarrow> bool" where
  "level s \<longleftrightarrow> pc s = 3 \<or> pc s = 4"

definition owed :: "pio \<Rightarrow> nat" where
  "owed s = length (txf s) + (if pc s = 1 \<or> pc s = 2 then 1 else 0)"

text \<open>The cycles that must pass before the pin can rise.\<close>

definition low_for :: "pio \<Rightarrow> nat" where
  "low_for s =
    (if pc s = 0 then 2 else if pc s = 1 then 1 else if pc s = 2 then 0
     else if pc s = 3 then unat (rx s) + unat (ry s) + 5
     else if pc s = 4 then unat (ry s) + 4 else unat (rx s) + 3)"

text \<open>Every word in the queue, and the one being worked off, is at least \<open>m\<close>.\<close>

definition words_from :: "nat \<Rightarrow> pio \<Rightarrow> bool" where
  "words_from m s \<longleftrightarrow> list_all (\<lambda>w. m \<le> unat w) (txf s) \<and>
     (pc s = 1 \<longrightarrow> m \<le> unat (osr s)) \<and> (pc s = 2 \<longrightarrow> m \<le> unat (ry s))"

lemma pc_cases:
  assumes "pc s < 6"
  obtains "pc s = 0" | "pc s = 1" | "pc s = 2" | "pc s = 3" | "pc s = 4" | "pc s = 5"
  using assms by linarith

lemmas pio_cycle_eval = pio_cycle_def stepper_program_def next_pc_def Let_def

lemma pio_cycle_owed:
  assumes "pc s < 6"
  shows "rising (level s) [fst (pio_cycle s)] + owed (snd (pio_cycle s)) = owed s"
    "level (snd (pio_cycle s)) = fst (pio_cycle s)" "pc (snd (pio_cycle s)) < 6"
  by (cases rule: pc_cases [OF assms];
      simp add: pio_cycle_eval level_def owed_def split: list.split)+

lemma unat_pred: "(x :: u32) \<noteq> 0 \<Longrightarrow> unat (x - 1) = unat x - 1 \<and> 0 < unat x"
  by (simp add: unat_minus_one unat_gt_0)

lemma pio_cycle_low:
  assumes "pc s < 6"
  shows "low_for s \<le> low_for (snd (pio_cycle s)) + 1"
    "words_from m s \<Longrightarrow> words_from m (snd (pio_cycle s))"
    "\<not> level s \<Longrightarrow> fst (pio_cycle s) \<Longrightarrow> low_for s = 0 \<and>
       (words_from m s \<longrightarrow> 2 * m + 5 \<le> low_for (snd (pio_cycle s)))"
  subgoal
    by (cases rule: pc_cases [OF assms];
        cases "rx s = 0"; simp add: pio_cycle_eval low_for_def unat_pred split: list.split)
  subgoal
    by (cases rule: pc_cases [OF assms]; auto simp: pio_cycle_eval words_from_def split: list.splits)
  subgoal
    by (cases rule: pc_cases [OF assms];
        simp add: pio_cycle_eval low_for_def words_from_def level_def split: list.splits)
  done

lemma pio_run_owed:
  "pc s < 6 \<Longrightarrow> rising (level s) (fst (pio_run n s)) + owed (snd (pio_run n s)) = owed s \<and>
     last_level (level s) (fst (pio_run n s)) = level (snd (pio_run n s)) \<and> pc (snd (pio_run n s)) < 6"
proof (induction n arbitrary: s)
  case (Suc n)
  note c = pio_cycle_owed [OF Suc.prems]
  have "rising (level s) (fst (pio_run (Suc n) s)) =
      rising (level s) [fst (pio_cycle s)] + rising (level (snd (pio_cycle s))) (fst (pio_run n (snd (pio_cycle s))))"
    by (simp add: Let_def split_beta c(2))
  with Suc.IH [OF c(3)] c show ?case
    by (auto simp: Let_def split_beta last_level_def)
qed (simp add: last_level_def)

text \<open>Rising edges with at least \<open>d\<close> cycles from one to the next, and the first not within \<open>k\<close>.\<close>

fun spaced :: "nat \<Rightarrow> nat \<Rightarrow> bool \<Rightarrow> bool list \<Rightarrow> bool" where
  "spaced d k b [] = True"
| "spaced d k b (c # cs) =
    (if \<not> b \<and> c then k = 0 \<and> spaced d (d - 1) c cs else spaced d (k - 1) c cs)"

text \<open>What is left to wait after a waveform.\<close>

fun wait_left :: "nat \<Rightarrow> nat \<Rightarrow> bool \<Rightarrow> bool list \<Rightarrow> nat" where
  "wait_left d k b [] = k"
| "wait_left d k b (c # cs) = wait_left d (if \<not> b \<and> c then d - 1 else k - 1) c cs"

lemma last_level_append: "last_level b (xs @ ys) = last_level (last_level b xs) ys"
  by (simp add: last_level_def)

lemma spaced_append:
  "spaced d k b (xs @ ys) \<longleftrightarrow> spaced d k b xs \<and> spaced d (wait_left d k b xs) (last_level b xs) ys"
  by (induction xs arbitrary: k b) (auto simp: last_level_def)

lemma wait_left_append: "wait_left d k b (xs @ ys) = wait_left d (wait_left d k b xs) (last_level b xs) ys"
  by (induction xs arbitrary: k b) (auto simp: last_level_def)

lemma pio_run_spaced:
  "pc s < 6 \<Longrightarrow> words_from m s \<Longrightarrow> k \<le> low_for s \<Longrightarrow>
     spaced (2 * m + 6) k (level s) (fst (pio_run n s)) \<and>
     wait_left (2 * m + 6) k (level s) (fst (pio_run n s)) \<le> low_for (snd (pio_run n s)) \<and>
     words_from m (snd (pio_run n s))"
proof (induction n arbitrary: s k)
  case (Suc n)
  let ?t = "snd (pio_cycle s)"
  let ?k = "if \<not> level s \<and> fst (pio_cycle s) then 2 * m + 6 - 1 else k - 1"
  note c = pio_cycle_owed [OF Suc.prems(1)] and l = pio_cycle_low [OF Suc.prems(1)]
  have "?k \<le> low_for ?t" "\<not> level s \<Longrightarrow> fst (pio_cycle s) \<Longrightarrow> k = 0"
    using l(1) l(3) [of m] Suc.prems by auto
  moreover have "spaced (2 * m + 6) ?k (level ?t) (fst (pio_run n ?t)) \<and>
      wait_left (2 * m + 6) ?k (level ?t) (fst (pio_run n ?t)) \<le> low_for (snd (pio_run n ?t)) \<and>
      words_from m (snd (pio_run n ?t))"
    using Suc.IH [OF c(3) l(2) [OF Suc.prems(2)]] calculation(1) by blast
  ultimately show ?case by (auto simp: Let_def split_beta c(2))
qed simp

text \<open>A push adds a pulse to make and takes nothing from the wait.\<close>

lemma push_frame [simp]:
  "pc (s\<lparr>txf := txf s @ [w]\<rparr>) = pc s" "level (s\<lparr>txf := txf s @ [w]\<rparr>) = level s"
  "low_for (s\<lparr>txf := txf s @ [w]\<rparr>) = low_for s" "owed (s\<lparr>txf := txf s @ [w]\<rparr>) = Suc (owed s)"
  "words_from m (s\<lparr>txf := txf s @ [w]\<rparr>) \<longleftrightarrow> words_from m s \<and> m \<le> unat w"
  by (auto simp: level_def low_for_def owed_def words_from_def)

lemma pio_feed_owed:
  "pc s < 6 \<Longrightarrow> rising (level s) (fst (pio_feed es s)) + owed (snd (pio_feed es s)) = owed s + length es \<and>
     last_level (level s) (fst (pio_feed es s)) = level (snd (pio_feed es s)) \<and> pc (snd (pio_feed es s)) < 6"
proof (induction es arbitrary: s)
  case (Cons e es)
  obtain n w where e: "e = (n, w)" by (rule prod.exhaust)
  let ?t = "(snd (pio_run n s))\<lparr>txf := txf (snd (pio_run n s)) @ [w]\<rparr>"
  note r = pio_run_owed [OF Cons.prems, of n]
  then have "pc ?t < 6" by simp
  from Cons.IH [OF this] r show ?case
    by (simp add: e Let_def split_beta rising_append last_level_append)
qed (simp add: last_level_def)

lemma pio_feed_spaced:
  "pc s < 6 \<Longrightarrow> words_from m s \<Longrightarrow> list_all (\<lambda>(n, w). m \<le> unat w) es \<Longrightarrow> k \<le> low_for s \<Longrightarrow>
     spaced (2 * m + 6) k (level s) (fst (pio_feed es s)) \<and>
     wait_left (2 * m + 6) k (level s) (fst (pio_feed es s)) \<le> low_for (snd (pio_feed es s)) \<and>
     words_from m (snd (pio_feed es s))"
proof (induction es arbitrary: s k)
  case (Cons e es)
  obtain n w where e: "e = (n, w)" by (rule prod.exhaust)
  let ?r = "pio_run n s"
  let ?t = "(snd ?r)\<lparr>txf := txf (snd ?r) @ [w]\<rparr>"
  let ?k = "wait_left (2 * m + 6) k (level s) (fst ?r)"
  note o = pio_run_owed [OF Cons.prems(1), of n]
    and sp = pio_run_spaced [OF Cons.prems(1,2,4), of n]
  have "spaced (2 * m + 6) ?k (level ?t) (fst (pio_feed es ?t)) \<and>
     wait_left (2 * m + 6) ?k (level ?t) (fst (pio_feed es ?t)) \<le> low_for (snd (pio_feed es ?t)) \<and>
     words_from m (snd (pio_feed es ?t))"
    using o sp Cons.prems(3) by (intro Cons.IH) (auto simp: e)
  then show ?case using o sp by (simp add: e Let_def split_beta spaced_append wait_left_append)
qed simp

text \<open>From any point of a step the machine gets back to its wait on the queue.\<close>

lemma pio_finishes_step:
  assumes "pc s < 6" shows "\<exists>n. pc (snd (pio_run n s)) = 0"
proof -
  have jump: "\<exists>n. pc (snd (pio_run n s)) = 0"
    if "pio_run k s = (bs, t)" "\<exists>n. pc (snd (pio_run n t)) = 0" for k s bs t
  proof -
    from that(2) obtain n where "pc (snd (pio_run n t)) = 0" by blast
    then show ?thesis using that(1) by (intro exI [of _ "k + n"]) (simp only: pio_run_add snd_conv)
  qed
  have five: "\<exists>n. pc (snd (pio_run n s)) = 0" if "pc s = 5" for s
    by (rule jump [OF count_loop [of 5 s, OF disjI2 [OF refl] that]], rule exI [of _ "0 :: nat"])
      (simp add: next_pc_def)
  have four: "\<exists>n. pc (snd (pio_run n s)) = 0" if "pc s = 4" for s
    using that by (intro jump [OF pio_run_1 [of s]] five) (simp add: pio_cycle_eval)
  have three: "\<exists>n. pc (snd (pio_run n s)) = 0" if "pc s = 3" for s
    by (rule jump [OF count_loop [of 3 s, OF disjI1 [OF refl] that] four]) (simp add: next_pc_def)
  have two: "\<exists>n. pc (snd (pio_run n s)) = 0" if "pc s = 2" for s
    using that by (intro jump [OF pio_run_1 [of s]] three) (simp add: pio_cycle_eval)
  have one: "\<exists>n. pc (snd (pio_run n s)) = 0" if "pc s = 1" for s
    using that by (intro jump [OF pio_run_1 [of s]] two) (simp add: pio_cycle_eval)
  have zero: "\<exists>n. pc (snd (pio_run n s)) = 0" if "pc s = 0" for s
    using that by (intro exI [of _ "0 :: nat"]) simp
  show ?thesis by (rule pc_cases [OF assms]) (fact zero one two three four five)+
qed

text \<open>And works off the queue: at the end no pulse is owed.\<close>

lemma pio_drains_queue:
  assumes "pc s < 6" shows "\<exists>n. pc (snd (pio_run n s)) = 0 \<and> txf (snd (pio_run n s)) = []"
proof -
  obtain n where n: "pc (snd (pio_run n s)) = 0" using pio_finishes_step [OF assms] by blast
  let ?t = "snd (pio_run n s)"
  have "pc (snd (pio_run (sum_list (map step_cycles (txf ?t))) ?t)) = 0"
    "txf (snd (pio_run (sum_list (map step_cycles (txf ?t))) ?t)) = []"
    using pio_queue_run [OF n refl] by (simp_all add: Let_def)
  then show ?thesis
    by (intro exI [of _ "n + sum_list (map step_cycles (txf ?t))"]) (simp only: pio_run_add snd_conv simp_thms)
qed

lemma pio_feed_pulses:
  assumes "pc s = 0" "txf s = []" "list_all (\<lambda>(n, w). m \<le> unat w) es"
  shows "rising False (fst (pio_feed es s)) \<le> length es"
    "\<exists>n. txf (snd (pio_run n (snd (pio_feed es s)))) = [] \<and> pc (snd (pio_run n (snd (pio_feed es s)))) = 0 \<and>
      rising False (fst (pio_feed es s) @ fst (pio_run n (snd (pio_feed es s)))) = length es"
    "spaced (2 * m + 6) 0 False (fst (pio_feed es s) @ fst (pio_run k (snd (pio_feed es s))))"
proof -
  have s: "pc s < 6" "level s = False" "owed s = 0" "words_from m s"
    using assms(1,2) by (simp_all add: level_def owed_def words_from_def)
  note f = pio_feed_owed [OF s(1), of es, unfolded s(2,3)]
  from f show "rising False (fst (pio_feed es s)) \<le> length es" by simp
  let ?t = "snd (pio_feed es s)"
  have t: "pc ?t < 6" using f by blast
  obtain n where n: "pc (snd (pio_run n ?t)) = 0" "txf (snd (pio_run n ?t)) = []"
    using pio_drains_queue [OF t] by blast
  then have "owed (snd (pio_run n ?t)) = 0" by (simp add: owed_def)
  then have "rising False (fst (pio_feed es s) @ fst (pio_run n ?t)) = length es"
    using f pio_run_owed [OF t, of n] by (simp add: rising_append)
  then show "\<exists>n. txf (snd (pio_run n ?t)) = [] \<and> pc (snd (pio_run n ?t)) = 0 \<and>
      rising False (fst (pio_feed es s) @ fst (pio_run n ?t)) = length es"
    using n by blast
  have "spaced (2 * m + 6) 0 False (fst (pio_feed es s) @ fst (pio_run k ?t))" for k
    using pio_feed_spaced [OF s(1,4) assms(3), of 0] pio_run_spaced [OF t, of m] f s(2)
    by (simp add: spaced_append)
  then show "spaced (2 * m + 6) 0 False (fst (pio_feed es s) @ fst (pio_run k (snd (pio_feed es s))))" .
qed

text \<open>A cycle in which the pin rises, from the level \<open>b\<close> before the first.\<close>

definition rises :: "bool \<Rightarrow> bool list \<Rightarrow> nat \<Rightarrow> bool" where
  "rises b cs i \<longleftrightarrow> i < length cs \<and> cs ! i \<and> \<not> (b # cs) ! i"

lemma rises_Cons [simp]:
  "rises b (c # cs) 0 \<longleftrightarrow> \<not> b \<and> c" "rises b (c # cs) (Suc i) \<longleftrightarrow> rises c cs i" "\<not> rises b [] i"
  by (auto simp: rises_def)

lemma spaced_first: "spaced d k b cs \<Longrightarrow> rises b cs i \<Longrightarrow> k \<le> i"
proof (induction cs arbitrary: k b i)
  case (Cons c cs)
  show ?case
  proof (cases i)
    case (Suc j)
    have "k = 0 \<or> spaced d (k - 1) c cs" using Cons.prems(1) by (auto split: if_splits)
    with Cons.IH [of "k - 1" c j] Cons.prems(2) Suc show ?thesis by auto
  qed (use Cons.prems in simp)
qed simp

lemma spaced_rises: "spaced d k b cs \<Longrightarrow> rises b cs i \<Longrightarrow> rises b cs j \<Longrightarrow> i < j \<Longrightarrow> i + d \<le> j"
proof (induction cs arbitrary: k b i j)
  case (Cons c cs)
  then obtain j' where j: "j = Suc j'" by (cases j) auto
  show ?case
  proof (cases i)
    case 0
    then have "spaced d (d - 1) c cs" "rises c cs j'" using Cons.prems j by simp_all
    then show ?thesis using spaced_first j 0 by fastforce
  next
    case (Suc i')
    have "\<exists>k. spaced d k c cs" using Cons.prems(1) by (auto split: if_splits)
    then show ?thesis using Cons.IH [of _ c i' j'] Cons.prems Suc j by auto
  qed
qed simp

section \<open>Properties\<close>

text \<open>
  The waveform of a step. From its wait on the queue, a word \<open>w\<close> takes the state machine
  exactly \<open>2 * w + 6\<close> cycles: STEP is high for \<open>w + 2\<close> of them, not for the \<open>w + 3\<close> (half of the
  period) its comment states, and low for two cycles before and \<open>w + 2\<close> after; then it waits for
  the next word.
\<close>

lemma pio_step_waveform:
  assumes "pc s = 0" "txf s = w # ws"
  shows "pio_run (2 * unat w + 6) s =
    (replicate 2 False @ replicate (unat w + 2) True @ replicate (unat w + 2) False,
     s\<lparr>osr := w, ry := w, rx := - 1, txf := ws\<rparr>)"
  by (rule pio_step_run) (fact assms)+

lemma pio_step_waveform_example:
  "fst (pio_run 10 \<lparr>pc = 0, osr = 0, rx = 0, ry = 0, txf = [2, 9]\<rparr>) =
    [False, False, True, True, True, True, False, False, False, False]"
proof -
  have n: "2 * unat (2 :: u32) + 6 = 10" "unat (2 :: u32) + 2 = 4" by simp_all
  have "replicate 2 False @ replicate 4 True @ replicate 4 False =
      [False, False, True, True, True, True, False, False, False, False]"
    by (simp add: numeral_eq_Suc)
  then show ?thesis
    using pio_step_waveform [of "\<lparr>pc = 0, osr = 0, rx = 0, ry = 0, txf = [2, 9]\<rparr>" 2 "[9]"]
    by (simp only: n pio.simps fst_conv simp_thms)
qed

text \<open>
  A queue of words is worked off in the sum of their periods with exactly one rising edge of STEP for
  each, and the machine is then waiting; while it waits it makes no pulse.
\<close>

lemma pio_one_pulse_per_word:
  assumes "pc s = 0" "list_all half_period_ok (txf s)"
  shows "(let r = pio_run (sum_list (map step_cycles (txf s))) s in
      rising False (fst r) = length (txf s) \<and> pc (snd r) = 0 \<and> txf (snd r) = [] \<and>
      pio_run n (snd r) = (replicate n False, snd r)) \<and>
    list_all (\<lambda>w. 936 \<le> step_cycles w \<and> step_cycles w \<le> 3000000) (txf s)"
  using pio_queue_run [OF assms(1) refl] pio_idle assms(2)
  by (auto simp: Let_def step_cycles_def half_period_ok_def list_all_iff)

lemma pushed_words_from: "list_all (\<lambda>(n, w). half_period_ok w) es \<Longrightarrow> list_all (\<lambda>(n, w). 465 \<le> unat w) es"
  by (auto simp: list_all_iff half_period_ok_def)

lemma step_pin_pulses:
  assumes "pc s = 0" "txf s = []" "list_all (\<lambda>(n, w). half_period_ok w) es"
  shows "rising False (fst (pio_feed es s)) \<le> length es \<and>
    (\<forall>i j. rises False (fst (pio_feed es s)) i \<and> rises False (fst (pio_feed es s)) j \<and> i < j \<longrightarrow> i + 936 \<le> j) \<and>
    (\<exists>n. let cs = fst (pio_feed es s) @ fst (pio_run n (snd (pio_feed es s))) in
      rising False cs = length es \<and> (\<forall>i j. rises False cs i \<and> rises False cs j \<and> i < j \<longrightarrow> i + 936 \<le> j))"
proof -
  note p = pio_feed_pulses [OF assms(1,2) pushed_words_from [OF assms(3)]]
  have sp: "spaced 936 0 False (fst (pio_feed es s) @ fst (pio_run k (snd (pio_feed es s))))" for k
    using p(3) [of k] by simp
  from sp [of 0] have "spaced 936 0 False (fst (pio_feed es s))" by simp
  with p(1,2) sp show ?thesis unfolding Let_def using spaced_rises by blast
qed

text \<open>
  C33: The STEP pin is paced. Whenever in the machine's cycles core1 pushes its half-periods, the pin
  never has more rising edges than words were pushed, in the end has exactly as many, and any two are
  at least 936 cycles apart, at 150 MHz at most 160256 steps per second.
\<close>

theorem step_pin_paced:
  assumes "pc s = 0" "txf s = []" "list_all (\<lambda>(n, w). half_period_ok w) es"
  shows "rising False (fst (pio_feed es s)) \<le> length es \<and>
    (\<forall>i j. rises False (fst (pio_feed es s)) i \<and> rises False (fst (pio_feed es s)) j \<and> i < j \<longrightarrow> i + 936 \<le> j) \<and>
    (\<exists>n. let cs = fst (pio_feed es s) @ fst (pio_run n (snd (pio_feed es s))) in
      rising False cs = length es \<and> (\<forall>i j. rises False cs i \<and> rises False cs j \<and> i < j \<longrightarrow> i + 936 \<le> j))"
  using assms by (rule step_pin_pulses)

lemma step_pin_paced_witness:
  "\<exists>n. let p = pio_feed [(3, 465), (700, 1499997)] \<lparr>pc = 0, osr = 0, rx = 0, ry = 0, txf = []\<rparr> in
     rising False (fst p @ fst (pio_run n (snd p))) = length [(3 :: nat, 465 :: u32), (700, 1499997)]"
proof -
  have "list_all (\<lambda>(n, w). half_period_ok w) [(3, 465), (700, 1499997)]" by (simp add: dev_eval)
  from step_pin_paced [OF _ _ this, of "\<lparr>pc = 0, osr = 0, rx = 0, ry = 0, txf = []\<rparr>"]
  show ?thesis unfolding Let_def pio.select_convs by blast
qed

end
