(* ===== verification/Stepper_System.thy ===== *)
theory Stepper_System
  imports Core1_Live Stepper_Shell Stepper_Pio
begin

text \<open>
  The two cores and the PIO together: a move typed at the shell, its way over the mailbox to core1, the
  direction pin and the half-periods core1 pushes, and the pulses the PIO program makes of them. The
  parts are the models of their own theories; what joins them is the mail both sides see and the words
  in the queue.
\<close>

section \<open>What a request does to the output pins\<close>

text \<open>Writes to the output registers of the pins.\<close>

fun is_out :: "mmio \<Rightarrow> bool" where
  "is_out (Wr r v) = (r = SIO_GPIO_OUT_SET \<or> r = SIO_GPIO_OUT_CLR)"
| "is_out e = False"

text \<open>The history grew, and the new output writes are \<open>xs\<close>, newest first.\<close>

definition grows :: "mmio list \<Rightarrow> core1 \<Rightarrow> core1 \<Rightarrow> bool" where
  "grows xs s t \<longleftrightarrow> (\<exists>new. hist t = new @ hist s \<and> filter is_out new = xs)"

named_theorems grows_rules \<open>what the accesses add to the output writes\<close>

lemma grows_trans: "grows xs s t \<Longrightarrow> grows ys t u \<Longrightarrow> grows (ys @ xs) s u"
  unfolding grows_def by (metis append.assoc filter_append)

lemma grows_quiet: "grows [] s t \<Longrightarrow> grows xs t u \<Longrightarrow> grows xs s u"
  using grows_trans by fastforce

lemma no_outs_polls: "filter is_out (map (Rd r) vs) = []"
  by (induction vs) simp_all

lemma grows_hist: "hist s' = hist s \<Longrightarrow> grows xs s' t = grows xs s t"
  "hist t' = hist t \<Longrightarrow> grows xs s t' = grows xs s t"
  by (simp_all add: grows_def)

lemma grows_wait [grows_rules]: "wait_bit E r msk s = Some t \<Longrightarrow> grows [] s t"
  using wait_bit_Some [of E r msk s t] no_outs_polls unfolding grows_def
  by (metis append_Cons filter.simps(2) is_out.simps(2))

lemma grows_read [grows_rules]: "fifo_read_blocking E s = Some (w, t) \<Longrightarrow> grows [] s t"
  unfolding fifo_read_blocking_def
  by (auto simp: bind_eq_Some_conv reg_rd_def Let_def dest!: grows_wait) (auto simp: grows_def)

lemma grows_write [grows_rules]: "fifo_write_blocking E w s = Some t \<Longrightarrow> grows [] s t"
  unfolding fifo_write_blocking_def
  by (auto simp: bind_eq_Some_conv dest!: grows_wait) (auto simp: grows_def)

lemma grows_delay [grows_rules]: "delay_us E us s = Some t \<Longrightarrow> grows [] s t"
  using delay_us_Some [of E us s t] no_outs_polls unfolding grows_def by blast

definition dir_write :: "u32 \<Rightarrow> mmio" where
  "dir_write u = Wr (if 0 <s u then SIO_GPIO_OUT_SET else SIO_GPIO_OUT_CLR) (BIT PIN_DIR)"

lemma grows_start:
  assumes "motion_start E u s = Some t" "u \<noteq> 0"
  shows "grows [dir_write u] s t"
proof -
  let ?s1 = "reg_wr (if 0 <s u then SIO_GPIO_OUT_SET else SIO_GPIO_OUT_CLR) (BIT PIN_DIR) s"
  from assms obtain s2 where "delay_us E 5 ?s1 = Some s2" "hist t = hist s2"
    by (auto simp: motion_start_def bind_eq_Some_conv Let_def)
  then have "grows [] ?s1 t" using grows_delay grows_hist(2) by blast
  moreover have "grows [dir_write u] s ?s1" by (simp add: grows_def dir_write_def)
  ultimately show ?thesis using grows_trans by fastforce
qed

text \<open>The turn that takes a move while idle: it answers, starts the motion, and sets the direction.\<close>

lemma served_move:
  assumes "handle_command E s = Some t" "m_state (mot s) = IDLE" "u \<noteq> 0"
    "mails (hist t) = Sent r # rev (map Recv (request CMD_MOVE u)) @ mails (hist s)"
  shows "r = STEPPER_ACK_OK \<and> mot t = started u (mot s) \<and> grows [dir_write u] s t"
proof -
  define st s1 where rd1: "st = fst (reg_rd E SIO_FIFO_ST s)" "s1 = snd (reg_rd E SIO_FIFO_ST s)"
  define op s2 where rd2: "op = fst (reg_rd E SIO_FIFO_RD s1)" "s2 = snd (reg_rd E SIO_FIFO_RD s1)"
  have s2: "mot s2 = mot s" "mails (hist s2) = Recv op # mails (hist s)" "grows [] s s2"
    by (auto simp: rd1 rd2 reg_rd_def Let_def grows_def)
  note h = assms(1) [unfolded handle_command_def Let_def split_beta, folded rd1, folded rd2]
  have valid: "\<not> st AND SIO_FIFO_ST_VLD_BITS E = 0"
  proof
    assume "st AND SIO_FIFO_ST_VLD_BITS E = 0"
    with h have "t = s1" by simp
    then show False using assms(4) by (simp add: rd1 reg_rd_def Let_def)
  qed
  note h = h [unfolded if_not_P [OF valid]]
  have "\<exists>new. mails (hist t) = new @ mails (hist s2)"
    using h by (auto simp: bind_eq_Some_conv fifo_read_Some fifo_write_Some motion_start_Some split: if_splits)
  then obtain new where "mails (hist t) = new @ Recv op # mails (hist s)" using s2(2) by auto
  then have "[Sent r, Recv u, Recv (cmd_code CMD_MOVE)] = new @ [Recv op]" using assms(4) by simp
  then have op: "op = cmd_code CMD_MOVE" by (auto simp: append_eq_Cons_conv Cons_eq_append_conv)
  with h obtain w s3 where s3: "fifo_read_blocking E s2 = Some (w, s3)"
    and k: "(if m_state (mot s3) = MOVING then fifo_write_blocking E STEPPER_ACK_BUSY s3
      else motion_start E w s3 \<bind> fifo_write_blocking E STEPPER_ACK_OK) = Some t"
    by (auto simp: bind_eq_Some_conv cong: if_cong)
  note f3 = fifo_read_Some [OF s3]
  from k obtain s4 where s4: "motion_start E w s3 = Some s4" "fifo_write_blocking E STEPPER_ACK_OK s4 = Some t"
    using assms(2) f3(1) s2(1) by (auto simp: bind_eq_Some_conv)
  note f4 = motion_start_Some [OF s4(1)] and f5 = fifo_write_Some [OF s4(2)]
  have w: "w = u" "r = STEPPER_ACK_OK" using assms(4) f5(2) f4(2) f3(2) s2(2) by simp_all
  have "grows [dir_write u] s t"
    using s2(3) grows_read [OF s3] grows_start [OF s4(1)] grows_write [OF s4(2)] assms(3) w
    by (metis grows_quiet grows_trans append_Nil)
  then show ?thesis using w f5(1) f4(1) f3(1) s2(1) by simp
qed

section \<open>A turn without mail leaves the pins alone\<close>

lemma feed_loop_grows: "grows [] s (feed_loop E s)"
proof (induction s rule: feed_loop_induct [of E])
  case (1 s)
  let ?s1 = "snd (pio_tx_full E s)" let ?s2 = "snd (feed_step ?s1)"
  have s1: "grows [] s ?s1" by (simp add: grows_def pio_tx_full_def reg_rd_def Let_def)
  have "grows [] ?s1 ?s2"
    by (cases ?s1 rule: feed_step_cases)
      (auto simp: grows_def feed_step_idle feed_step_end feed_step_push)
  with s1 have s2: "grows [] s ?s2" by (rule grows_quiet)
  have "grows [] s (feed_loop E ?s2)" if "\<not> fst (pio_tx_full E s)" "fst (feed_step ?s1)"
    using 1 [OF that] s2 by (rule grows_quiet [rotated])
  with s1 s2 show ?case unfolding feed_loop_step [of E s] Let_def by simp
qed

lemma idle_turn_grows:
  assumes "main_turn E s = Some t" "mails (hist t) = mails (hist s)"
  shows "grows [] s t"
proof -
  let ?f = "fed_state E s"
  have f: "grows [] s ?f" using feed_loop_grows by (simp add: fed_state_def grows_def)
  have m: "mails (hist ?f) = mails (hist s)" by (simp add: fed_state_def feed_loop_mails)
  have h: "handle_command E ?f = Some t" using assms(1) by (simp add: main_turn_def fed_state_def)
  define st s1 where rd1: "st = fst (reg_rd E SIO_FIFO_ST ?f)" "s1 = snd (reg_rd E SIO_FIFO_ST ?f)"
  define op s2 where rd2: "op = fst (reg_rd E SIO_FIFO_RD s1)" "s2 = snd (reg_rd E SIO_FIFO_RD s1)"
  have s2: "mails (hist s2) = Recv op # mails (hist s)"
    using m by (simp add: rd1 rd2 reg_rd_def Let_def)
  note h = h [unfolded handle_command_def Let_def split_beta, folded rd1, folded rd2]
  have "st AND SIO_FIFO_ST_VLD_BITS E = 0"
  proof (rule ccontr)
    assume "st AND SIO_FIFO_ST_VLD_BITS E \<noteq> 0"
    note h = h [unfolded if_not_P [OF this]]
    have "\<exists>new. mails (hist t) = new @ mails (hist s2)"
      using h by (auto simp: bind_eq_Some_conv fifo_read_Some fifo_write_Some motion_start_Some split: if_splits)
    then show False using assms(2) s2 by auto
  qed
  with h have "t = s1" by simp
  then have "grows [] ?f t" by (simp add: rd1 grows_def reg_rd_def Let_def)
  with f show ?thesis by (rule grows_quiet)
qed

lemma idle_turns_grow:
  "main_turns E n s = Some t \<Longrightarrow> mails (hist t) = mails (hist s) \<Longrightarrow> grows [] s t"
proof (induction n arbitrary: s)
  case (Suc n)
  then obtain u where u: "main_turn E s = Some u" "main_turns E n u = Some t"
    by (auto simp: bind_eq_Some_conv)
  obtain v w where "mails (hist t) = v @ mails (hist u)" "mails (hist u) = w @ mails (hist s)"
    using main_turns_mails [OF u(2)] turn_mails [OF main_turn_parts(3) [OF u(1)]] by blast
  with Suc.prems(2) have "mails (hist u) = mails (hist s)" "mails (hist t) = mails (hist u)" by auto
  then show ?case using idle_turn_grows [OF u(1)] Suc.IH [OF u(2)] grows_quiet by blast
qed (simp add: grows_def)

section \<open>From the shell to the pin\<close>

text \<open>
  C9: A typed move moves exactly that far. When core1 is idle and serves the request of \<open>stepper move\<close>
  in one of its turns, no other request follows, and the queue of the PIO holds four words of which a
  waiting one is taken within the time of \<open>K\<close> accesses of core1, then the shell reports success; core1
  writes the direction pin once, to the sign of the count; within \<open>K + 1\<close> turns per step and as many
  more it comes to rest having pushed as many words as steps were asked for; and whenever in the cycles
  of the PIO these words arrive, STEP never has more rising edges than steps, in the end exactly as
  many, and any two are at least 936 cycles apart.
\<close>

theorem typed_move_steps:
  assumes "u = strtol A arg" "u \<noteq> 0" "- (2 ^ 31) < sint u"
    and shell: "answered A CMD_MOVE u r (slog s)" "reply_sem s = 0"
    and core1: "main_turn E c = Some c1" "m_state (mot c) = IDLE" "motion_ok (mot c)"
      "mails (hist c1) = Sent r # rev (map Recv (request CMD_MOVE u)) @ mails (hist c)"
      "no_requests E (hist c1)" "pio_queue E queued K (hist c1)" "Suc (nat \<bar>sint u\<bar>) * Suc K \<le> N"
    and pio: "pc p = 0" "txf p = []"
  shows "\<exists>s1 c2 ws. cmd_stepper_move A arg s = (0, s1) \<and>
    main_turns E N c1 = Some c2 \<and> m_state (mot c2) = IDLE \<and>
    grows [dir_write u] c c2 \<and>
    step_words (hist c2) = rev ws @ step_words (hist c) \<and> length ws = nat \<bar>sint u\<bar> \<and>
    (\<forall>es. map snd es = ws \<longrightarrow> rising False (fst (pio_feed es p)) \<le> length ws \<and>
      (\<exists>n. let cs = fst (pio_feed es p) @ fst (pio_run n (snd (pio_feed es p))) in
        rising False cs = length ws \<and>
        (\<forall>i j. rises False cs i \<and> rises False cs j \<and> i < j \<longrightarrow> i + 936 \<le> j)))"
proof -
  have "handle_command E c = Some c1" using core1(1,2) by (simp add: main_turn_def)
  from served_move [OF this core1(2) assms(2) core1(4)]
  have c1: "r = STEPPER_ACK_OK" "mot c1 = started u (mot c)" "grows [dir_write u] c c1" by blast+
  have sw: "step_words (hist c1) = step_words (hist c)"
    using handle_command_turn [of E c c1] core1(1,2) by (simp add: main_turn_def)
  have left: "steps_left c1 = \<bar>sint u\<bar>" and st: "m_state (mot c1) = MOVING" "m_stop_req (mot c1) = 0"
    using assms(2,3) sint_neg [OF assms(3)] by (auto simp: c1(2) started_def word_sless_alt)
  have ok: "motion_ok (mot c1)" using core1(3) sint_bounds32 by (simp add: c1(2) started_ok)
  obtain c2 ws where c2: "main_turns E N c1 = Some c2" "m_state (mot c2) = IDLE"
    "mails (hist c2) = mails (hist c1)" "step_words (hist c2) = ws @ step_words (hist c)"
    "int (length ws) = \<bar>sint u\<bar>" "list_all half_period_ok ws"
    using move_to_rest [OF core1(5,6) st, of N] core1(7) ok sw unfolding left by auto
  have "grows [dir_write u] c c2"
    using grows_trans [OF c1(3) idle_turns_grow [OF c2(1,3)]] by simp
  moreover obtain s1 where "cmd_stepper_move A arg s = (0, s1)"
  proof -
    obtain t where "cmd_roundtrip1 A (cmd_code CMD_MOVE) u s = (0, Some r, t)"
      using roundtrip_answered [OF shell] by auto
    then have "\<exists>s1. cmd_stepper_move A arg s = (0, s1)" using assms(1,2) c1(1)
      by (simp add: cmd_stepper_move_def move_steps_def STEPPER_ACK_OK_def STEPPER_ACK_BUSY_def)
    with that show ?thesis by blast
  qed
  moreover have "rising False (fst (pio_feed es p)) \<le> length ws \<and>
      (\<exists>n. let cs = fst (pio_feed es p) @ fst (pio_run n (snd (pio_feed es p))) in
        rising False cs = length ws \<and>
        (\<forall>i j. rises False cs i \<and> rises False cs j \<and> i < j \<longrightarrow> i + 936 \<le> j))"
    if "map snd es = rev ws" for es
  proof -
    have "half_period_ok (snd e)" if "e \<in> set es" for e
    proof -
      have "snd e \<in> set (map snd es)" using that by simp
      then have "snd e \<in> set ws" by (simp only: \<open>map snd es = rev ws\<close> set_rev)
      with c2(6) show ?thesis by (simp add: list_all_iff)
    qed
    then have "list_all (\<lambda>(n, w). half_period_ok w) es" by (simp add: list_all_iff split_beta)
    moreover have "length es = length ws" using arg_cong [OF that, of length] by simp
    ultimately show ?thesis using step_pin_pulses [OF pio, of es] by simp
  qed
  ultimately show ?thesis using c2
    by (intro exI [of _ s1] exI [of _ c2] exI [of _ "rev ws"]) (simp add: nat_abs_int_diff)
qed

text \<open>A bench on which two words arrive, a move of a hundred steps, and nothing after them.\<close>

lemma mails_append: "mails (new @ h) = mails new @ mails h"
  by (induction new) (simp_all split: mmio.split)

lemma bench_no_requests: "length script \<le> received h \<Longrightarrow> no_requests (fifo_bench script) h"
  by (simp add: no_requests_def fifo_bench_def bench_def received_def mails_append)

lemma bench_takes_move:
  "\<exists>c1. main_turn (fifo_bench [3, 100]) \<lparr>hist = [], mot = M_init\<rparr> = Some c1 \<and>
    mails (hist c1) = [Sent 0, Recv 100, Recv 3]"
  by (simp add: main_turn_def fifo_bench_def bench_eval STEPPER_ACK_OK_def cong: bind_cong_weak split del: if_split)

lemma typed_move_steps_witness:
  "\<exists>s1. cmd_stepper_move (prompt_env 0) ''100'' \<lparr>reply_sem = 0, last_reply = 0, slog = []\<rparr> = (0, s1) \<and>
    (\<exists>c1 c2. main_turn (fifo_bench [3, 100]) \<lparr>hist = [], mot = M_init\<rparr> = Some c1 \<and>
      main_turns (fifo_bench [3, 100]) 1111 c1 = Some c2 \<and> length (step_words (hist c2)) = 100)"
proof -
  let ?s = "\<lparr>reply_sem = 0, last_reply = 0, slog = []\<rparr>"
  let ?p = "\<lparr>pc = 0, osr = 0, rx = 0, ry = 0, txf = []\<rparr>"
  obtain c1 where c1: "main_turn (fifo_bench [3, 100]) \<lparr>hist = [], mot = M_init\<rparr> = Some c1"
    "mails (hist c1) = [Sent 0, Recv 100, Recv 3]" using bench_takes_move by blast
  have quiet: "no_requests (fifo_bench [3, 100]) (hist c1)"
    by (rule bench_no_requests) (simp add: received_def c1(2))
  have u: "100 = strtol (prompt_env 0) ''100''" "answered (prompt_env 0) CMD_MOVE 100 0 (slog ?s)"
    by (simp_all add: prompt_env_def answered_def)
  show ?thesis
    using typed_move_steps [OF u(1) _ _ u(2) _ c1(1) _ _ _ quiet fifo_bench_queue, of 1111 ?p] c1 M_init_ok
    by (auto simp: M_init_def)
qed

end
