(* ===== verification/Lan_Bus.thy ===== *)
theory Lan_Bus
  imports Prelude
begin

text \<open>
  The bottom of \<open>drivers/eth_lan9250/eth_lan9250.c\<close>: register access of the LAN9250 over SPI, the
  polling loops, and the indirect MAC and PHY registers.

  The state is the driver's runtime struct and the trace of everything it did to its
  surroundings (SPI transfers, waits, locks, packets), newest first. The surroundings answer as
  a function of that trace: the parameter \<open>lan_env\<close> stands for the SPI bus with the chip behind
  it, the kernel's clock and the functions of Zephyr the driver calls.
\<close>

section \<open>State and surroundings\<close>

type_synonym pkt = nat

datatype lock = Bank_lock | Hash_lock

datatype sem = Tx_rx_sem | Int_sem

datatype ev =
    Spi "u8 list" nat                   \<comment> \<open>bytes sent, then the number of bytes clocked in\<close>
  | Busy_wait nat | Sleep_ms nat | Sleep_us nat
  | Lock lock | Unlock lock | Sem_take sem | Sem_give sem
  | Pkt_alloc nat | Pkt_read pkt nat | Pkt_ref pkt | Pkt_unref pkt
  | Buf_add pkt nat                     \<comment> \<open>the bytes just clocked in become part of the packet\<close>
  | Set_timestamp pkt u32 u32 | Net_recv pkt | Tx_timestamp pkt
  | Carrier bool | Rx_error | Mac_load
  | Gpio_configure | Gpio_callback | Gpio_interrupt | Reset_configure | Reset_set bool

record rx_pending =
  rp_pkt :: "pkt option"
  rp_msg_type :: u8
  rp_seq_id :: u16
  rp_deadline :: int

record rx_unclaimed =
  ru_valid :: bool
  ru_msg_type :: u8
  ru_seq_id :: u16
  ru_sec :: u32
  ru_ns :: u32
  ru_deadline :: int

record lan =
  trace :: "ev list"
  mac_address :: "u8 list"
  txbuf :: "u8 list"
  ptp_clock :: "nat option"
  rx_pending :: "rx_pending list"
  rx_unclaimed :: "rx_unclaimed list"
  mcast_hash_refcount :: "u8 list"
  diag_matched_immediate :: u32
  diag_matched_pending :: u32
  diag_queued_pending :: u32
  diag_expired_unmatched :: u32
  diag_last_summary_ms :: int

text \<open>
  The surroundings: the status of the SPI transfer the trace ends with and the bytes it clocked
  in; the kernel's uptime in milliseconds; the byte-order helpers; the packet and network calls,
  with the number of buffers in the chain of the packet allocated last; the number of bytes and the bytes of the device id; what lies in memory behind the transmit
  buffer; the configuration constants.
\<close>

record lan_env =
  spi_ret :: "ev list \<Rightarrow> int"
  spi_rx :: "ev list \<Rightarrow> u8 list"
  uptime :: "ev list \<Rightarrow> int"
  sys_put_be16 :: "u16 \<Rightarrow> u8 list"
  sys_put_le32 :: "u32 \<Rightarrow> u8 list"
  sys_get_be16 :: "u8 list \<Rightarrow> u16"
  net_pkt_alloc :: "ev list \<Rightarrow> pkt option"
  pkt_frags :: "ev list \<Rightarrow> nat"
  net_pkt_len :: "pkt \<Rightarrow> nat"
  net_pkt_read :: "ev list \<Rightarrow> int \<times> u8 list"
  net_recv :: "ev list \<Rightarrow> int"
  hwinfo_device_id :: "int \<times> u8 list"
  mac_load :: "u8 list \<Rightarrow> u8 list"
  gpio_ret :: "ev list \<Rightarrow> int"
  spi_ready :: bool
  gpio_ready :: bool
  reset_present :: bool
  reset_ready :: bool
  after_txbuf :: "u8 list"
  NET_BUF_DATA_SIZE :: nat
  NET_ETH_MAX_FRAME :: nat
  PKT_TIMESTAMP_THREAD :: bool
  PROMISCUOUS_MODE :: bool

definition act :: "ev \<Rightarrow> lan \<Rightarrow> lan" where
  "act e s = s\<lparr>trace := e # trace s\<rparr>"

definition act_cmd :: "ev \<Rightarrow> lan cmd" where
  "act_cmd e s = Some (0, act e s)"

text \<open>Errors are negated POSIX numbers.\<close>

definition EIO :: int where [dev_eval]: "EIO = 5"
definition ENODEV :: int where [dev_eval]: "ENODEV = 19"
definition EINVAL :: int where [dev_eval]: "EINVAL = 22"
definition ERANGE :: int where [dev_eval]: "ERANGE = 34"
definition EALREADY :: int where [dev_eval]: "EALREADY = 120"
definition ENOTSUP :: int where [dev_eval]: "ENOTSUP = 134"

section \<open>System registers\<close>

definition LAN9250_SPI_INSTR_WRITE :: u8 where [dev_eval]: "LAN9250_SPI_INSTR_WRITE = 0x02"
definition LAN9250_SPI_INSTR_READ :: u8 where [dev_eval]: "LAN9250_SPI_INSTR_READ = 0x03"

definition spi_write :: "lan_env \<Rightarrow> u16 \<Rightarrow> u32 \<Rightarrow> ev" where
  "spi_write E address data =
    Spi ([LAN9250_SPI_INSTR_WRITE] @ sys_put_be16 E address @ sys_put_le32 E data) 0"

definition spi_read :: "lan_env \<Rightarrow> u16 \<Rightarrow> ev" where
  "spi_read E address = Spi ([LAN9250_SPI_INSTR_READ] @ sys_put_be16 E address) 4"

definition lan9250_write_sys_reg :: "lan_env \<Rightarrow> u16 \<Rightarrow> u32 \<Rightarrow> lan cmd" where
  "lan9250_write_sys_reg E address data s =
    (let s1 = act (spi_write E address data) s in Some (spi_ret E (trace s1), s1))"

text \<open>A read also yields the value; after a failed transfer that is whatever the buffer
  holds.\<close>

type_synonym 'v query = "lan \<Rightarrow> (int \<times> 'v \<times> lan) option"

definition lan9250_read_sys_reg :: "lan_env \<Rightarrow> u16 \<Rightarrow> u32 query" where
  "lan9250_read_sys_reg E address s =
    (let s1 = act (spi_read E address) s
     in Some (spi_ret E (trace s1), le32 (spi_rx E (trace s1)), s1))"

text \<open>A query, an early return when it failed, and what is done with the value.\<close>

definition query_ok :: "'v query \<Rightarrow> ('v \<Rightarrow> lan cmd) \<Rightarrow> lan cmd" where
  "query_ok q k s = do { (ret, v, s1) \<leftarrow> q s; if ret < 0 then Some (ret, s1) else k v s1 }"

section \<open>Waiting for the chip\<close>

partial_function (option) wait_ready_loop ::
  "lan_env \<Rightarrow> u16 \<Rightarrow> u32 \<Rightarrow> u32 \<Rightarrow> int \<Rightarrow> lan \<Rightarrow> (int \<times> lan) option" where
  "wait_ready_loop E address msk expected fin_time s = do {
     (ret, tmp, s1) \<leftarrow> lan9250_read_sys_reg E address s;
     if ret = 0 \<and> tmp AND msk = expected then Some (0, s1)
     else if fin_time \<le> uptime E (trace s1) then Some (- EIO, s1)
     else wait_ready_loop E address msk expected fin_time (act (Busy_wait 1000) s1)
   }"

definition lan9250_wait_ready :: "lan_env \<Rightarrow> u16 \<Rightarrow> u32 \<Rightarrow> u32 \<Rightarrow> nat \<Rightarrow> lan cmd" where
  "lan9250_wait_ready E address msk expected m_second s =
    wait_ready_loop E address msk expected (uptime E (trace s) + int m_second) s"

section \<open>MAC registers\<close>

definition LAN9250_MAC_CSR_CMD :: u16 where [dev_eval]: "LAN9250_MAC_CSR_CMD = 0x00A4"
definition LAN9250_MAC_CSR_DATA :: u16 where [dev_eval]: "LAN9250_MAC_CSR_DATA = 0x00A8"
definition LAN9250_MAC_CSR_CMD_BUSY :: u32 where [dev_eval]: "LAN9250_MAC_CSR_CMD_BUSY = 0x80000000"
definition LAN9250_MAC_CSR_CMD_READ :: u32 where [dev_eval]: "LAN9250_MAC_CSR_CMD_READ = 0x40000000"
definition LAN9250_MAC_TIMEOUT :: nat where [dev_eval]: "LAN9250_MAC_TIMEOUT = 2000"
definition LAN9250_PHY_TIMEOUT :: nat where [dev_eval]: "LAN9250_PHY_TIMEOUT = 2000"

definition mac_ready :: "lan_env \<Rightarrow> lan cmd" where
  "mac_ready E = lan9250_wait_ready E LAN9250_MAC_CSR_CMD LAN9250_MAC_CSR_CMD_BUSY 0
     LAN9250_MAC_TIMEOUT"

definition lan9250_read_mac_reg :: "lan_env \<Rightarrow> u8 \<Rightarrow> u32 query" where
  "lan9250_read_mac_reg E address s = do {
     (ret, s1) \<leftarrow> run_cmds
       [mac_ready E,
        lan9250_write_sys_reg E LAN9250_MAC_CSR_CMD
          (ucast address OR LAN9250_MAC_CSR_CMD_BUSY OR LAN9250_MAC_CSR_CMD_READ),
        mac_ready E] s;
     if ret < 0 then Some (ret, 0, s1)
     else do {
       (ret, tmp, s2) \<leftarrow> lan9250_read_sys_reg E LAN9250_MAC_CSR_DATA s1;
       if ret < 0 then Some (ret, 0, s2) else Some (0, tmp, s2)
     }
   }"

definition lan9250_write_mac_reg :: "lan_env \<Rightarrow> u8 \<Rightarrow> u32 \<Rightarrow> lan cmd" where
  "lan9250_write_mac_reg E address data = run_cmds
     [mac_ready E,
      lan9250_write_sys_reg E LAN9250_MAC_CSR_DATA data,
      lan9250_write_sys_reg E LAN9250_MAC_CSR_CMD (ucast address OR LAN9250_MAC_CSR_CMD_BUSY),
      mac_ready E]"

partial_function (option) wait_mac_loop ::
  "lan_env \<Rightarrow> u8 \<Rightarrow> u32 \<Rightarrow> u32 \<Rightarrow> int \<Rightarrow> lan \<Rightarrow> (int \<times> lan) option" where
  "wait_mac_loop E address msk expected fin_time s = do {
     (ret, tmp, s1) \<leftarrow> lan9250_read_mac_reg E address s;
     if ret = 0 \<and> tmp AND msk = expected then Some (0, s1)
     else if fin_time \<le> uptime E (trace s1) then Some (- EIO, s1)
     else wait_mac_loop E address msk expected fin_time (act (Sleep_ms 1) s1)
   }"

definition lan9250_wait_mac_ready :: "lan_env \<Rightarrow> u8 \<Rightarrow> u32 \<Rightarrow> u32 \<Rightarrow> nat \<Rightarrow> lan cmd" where
  "lan9250_wait_mac_ready E address msk expected m_second s =
    wait_mac_loop E address msk expected (uptime E (trace s) + int m_second) s"

section \<open>PHY registers\<close>

definition LAN9250_HMAC_MII_ACC :: u8 where [dev_eval]: "LAN9250_HMAC_MII_ACC = 0x06"
definition LAN9250_HMAC_MII_DATA :: u8 where [dev_eval]: "LAN9250_HMAC_MII_DATA = 0x07"
definition LAN9250_HMAC_MII_ACC_MIIW_R :: u32 where [dev_eval]: "LAN9250_HMAC_MII_ACC_MIIW_R = 2"
definition LAN9250_HMAC_MII_ACC_MIIBZY :: u32 where [dev_eval]: "LAN9250_HMAC_MII_ACC_MIIBZY = 1"

definition phy_ready :: "lan_env \<Rightarrow> lan cmd" where
  "phy_ready E = lan9250_wait_mac_ready E LAN9250_HMAC_MII_ACC LAN9250_HMAC_MII_ACC_MIIBZY 0
     LAN9250_PHY_TIMEOUT"

definition mii_select :: "u8 \<Rightarrow> u32" where
  [dev_eval]: "mii_select address = BIT 11 OR push_bit 6 (ucast address AND 0x1F)"

definition lan9250_read_phy_reg :: "lan_env \<Rightarrow> u8 \<Rightarrow> u16 query" where
  "lan9250_read_phy_reg E address s = do {
     (ret, s1) \<leftarrow> run_cmds
       [phy_ready E,
        lan9250_write_mac_reg E LAN9250_HMAC_MII_ACC (mii_select address),
        phy_ready E] s;
     if ret < 0 then Some (ret, 0, s1)
     else do {
       (ret, tmp, s2) \<leftarrow> lan9250_read_mac_reg E LAN9250_HMAC_MII_DATA s1;
       if ret < 0 then Some (ret, 0, s2) else Some (0, ucast tmp, s2)
     }
   }"

definition lan9250_write_phy_reg :: "lan_env \<Rightarrow> u8 \<Rightarrow> u16 \<Rightarrow> lan cmd" where
  "lan9250_write_phy_reg E address data = run_cmds
     [phy_ready E,
      lan9250_write_mac_reg E LAN9250_HMAC_MII_DATA (ucast data),
      lan9250_write_mac_reg E LAN9250_HMAC_MII_ACC
        (mii_select address OR LAN9250_HMAC_MII_ACC_MIIW_R),
      phy_ready E]"

section \<open>What a command adds to the trace\<close>

text \<open>\<open>emits P m\<close>: the command \<open>m\<close> only appends events that satisfy \<open>P\<close>, and leaves the
  runtime struct alone; \<open>emits_q\<close> is the same for a query.\<close>

definition extends :: "(ev \<Rightarrow> bool) \<Rightarrow> lan \<Rightarrow> lan \<Rightarrow> bool" where
  "extends P s t \<longleftrightarrow> (\<exists>new. t = s\<lparr>trace := new @ trace s\<rparr> \<and> list_all P new)"

definition emits :: "(ev \<Rightarrow> bool) \<Rightarrow> lan cmd \<Rightarrow> bool" where
  "emits P m \<longleftrightarrow> (\<forall>s r t. m s = Some (r, t) \<longrightarrow> extends P s t)"

definition emits_q :: "(ev \<Rightarrow> bool) \<Rightarrow> 'v query \<Rightarrow> bool" where
  "emits_q P q \<longleftrightarrow> (\<forall>s r v t. q s = Some (r, v, t) \<longrightarrow> extends P s t)"

lemma extends_refl [simp]: "extends P s s"
  by (auto simp: extends_def intro: exI [of _ "[]"])

lemma extends_trans [trans]: "extends P s t \<Longrightarrow> extends P t u \<Longrightarrow> extends P s u"
  unfolding extends_def by (auto intro: exI [of _ "_ @ _"])

lemma extends_act: "P e \<Longrightarrow> extends P s (act e s)"
  by (auto simp: extends_def act_def intro: exI [of _ "[e]"])

lemma extends_fields:
  assumes "extends P s t"
  shows "mac_address t = mac_address s" "txbuf t = txbuf s" "rx_pending t = rx_pending s"
    "rx_unclaimed t = rx_unclaimed s" "mcast_hash_refcount t = mcast_hash_refcount s"
    "ptp_clock t = ptp_clock s" "diag_expired_unmatched t = diag_expired_unmatched s"
  using assms by (auto simp: extends_def)

named_theorems emits_rules \<open>what commands and queries emit\<close>
named_theorems returns_rules \<open>commands and queries that return\<close>

lemma emits_act [emits_rules]: "P e \<Longrightarrow> emits P (act_cmd e)"
  by (simp add: emits_def act_cmd_def extends_act)

lemma emits_write [emits_rules]: "P (spi_write E a d) \<Longrightarrow> emits P (lan9250_write_sys_reg E a d)"
  by (simp add: emits_def lan9250_write_sys_reg_def Let_def extends_act)

lemma emits_read [emits_rules]: "P (spi_read E a) \<Longrightarrow> emits_q P (lan9250_read_sys_reg E a)"
  by (simp add: emits_q_def lan9250_read_sys_reg_def Let_def extends_act)

lemma emits_then: "emits P m \<Longrightarrow> emits P n \<Longrightarrow> emits P (then_ok m n)"
  unfolding emits_def then_ok_def
  by (auto simp: bind_eq_Some_conv split: if_splits) (blast intro: extends_trans)

lemma emits_run [emits_rules]: "list_all (emits P) ms \<Longrightarrow> emits P (run_cmds ms)"
proof (induction ms rule: induct_list012)
  case 1
  then show ?case by (simp add: emits_def)
next
  case (2 m)
  then show ?case by (simp add: emits_def)
next
  case (3 m n ms)
  have "run_cmds (m # n # ms) = then_ok m (run_cmds (n # ms))" by (rule run_cmds_fun)
  with 3 show ?case by (simp add: emits_then)
qed

lemma emits_query [emits_rules]: "emits_q P q \<Longrightarrow> (\<And>v. emits P (k v)) \<Longrightarrow> emits P (query_ok q k)"
  unfolding emits_def emits_q_def query_ok_def
  by (auto simp: bind_eq_Some_conv split: if_splits) (blast intro: extends_trans)+

text \<open>The loops: unfolding one turn at a time.\<close>

lemma wait_ready_loop_extends:
  assumes "wait_ready_loop E a msk x f s = Some r"
  shows "P (spi_read E a) \<longrightarrow> P (Busy_wait 1000) \<longrightarrow> extends P s (snd r)"
proof (rule wait_ready_loop.raw_induct [where P = "\<lambda>E a msk x f s r.
    P (spi_read E a) \<longrightarrow> P (Busy_wait 1000) \<longrightarrow> extends P s (snd r)", OF _ assms], intro impI)
  fix w E a msk x f s r
  assume IH: "\<And>E a msk x f s r. w E a msk x f s = Some r \<Longrightarrow>
      P (spi_read E a) \<longrightarrow> P (Busy_wait 1000) \<longrightarrow> extends P s (snd r)"
    and step: "do {
     (ret, tmp, s1) \<leftarrow> lan9250_read_sys_reg E a s;
     if ret = 0 \<and> tmp AND msk = x then Some (0, s1)
     else if f \<le> uptime E (trace s1) then Some (- EIO, s1)
     else w E a msk x f (act (Busy_wait 1000) s1)
   } = Some r"
    and P: "P (spi_read E a)" "P (Busy_wait 1000)"
  obtain ret tmp s1 where rd: "lan9250_read_sys_reg E a s = Some (ret, tmp, s1)"
    by (simp add: lan9250_read_sys_reg_def Let_def)
  then have s1: "extends P s s1" using emits_read [of P E a] P by (auto simp: emits_q_def)
  have s2: "extends P s (act (Busy_wait 1000) s1)"
    using s1 extends_act [of P, OF P(2)] by (rule extends_trans)
  have "w E a msk x f (act (Busy_wait 1000) s1) = Some r \<or> snd r = s1"
    using step rd by (auto split: if_splits)
  then show "extends P s (snd r)"
    using s1 s2 IH P extends_trans by blast
qed

lemma emits_wait_ready [emits_rules]:
  "P (spi_read E a) \<Longrightarrow> P (Busy_wait 1000) \<Longrightarrow> emits P (lan9250_wait_ready E a msk x m)"
  unfolding emits_def lan9250_wait_ready_def
  using wait_ready_loop_extends by (metis snd_conv)

text \<open>What the indirect registers need: reads and writes of the two registers of the MAC
  interface, and waits.\<close>

definition indirect_ok :: "lan_env \<Rightarrow> (ev \<Rightarrow> bool) \<Rightarrow> bool" where
  "indirect_ok E P \<longleftrightarrow> P (Busy_wait 1000) \<and> P (Sleep_ms 1) \<and>
     (\<forall>a \<in> {LAN9250_MAC_CSR_CMD, LAN9250_MAC_CSR_DATA}. P (spi_read E a) \<and> (\<forall>d. P (spi_write E a d)))"

lemma emits_write_mac [emits_rules]: "indirect_ok E P \<Longrightarrow> emits P (lan9250_write_mac_reg E a d)"
  unfolding lan9250_write_mac_reg_def mac_ready_def indirect_ok_def
  by (simp add: emits_rules)

lemma emits_read_mac [emits_rules]: "indirect_ok E P \<Longrightarrow> emits_q P (lan9250_read_mac_reg E a)"
proof -
  assume ok: "indirect_ok E P"
  let ?pre = "[mac_ready E, lan9250_write_sys_reg E LAN9250_MAC_CSR_CMD
      (ucast a OR LAN9250_MAC_CSR_CMD_BUSY OR LAN9250_MAC_CSR_CMD_READ), mac_ready E]"
  have "emits P (run_cmds ?pre)"
    using ok unfolding indirect_ok_def mac_ready_def by (simp add: emits_rules)
  moreover have "emits_q P (lan9250_read_sys_reg E LAN9250_MAC_CSR_DATA)"
    using ok unfolding indirect_ok_def by (simp add: emits_rules)
  ultimately show ?thesis
    unfolding emits_q_def emits_def lan9250_read_mac_reg_def
    by (auto simp: bind_eq_Some_conv split: if_splits) (blast intro: extends_trans)+
qed

lemma wait_mac_loop_extends:
  assumes "wait_mac_loop E a msk x f s = Some r"
  shows "indirect_ok E P \<longrightarrow> extends P s (snd r)"
proof (rule wait_mac_loop.raw_induct [where P = "\<lambda>E a msk x f s r.
    indirect_ok E P \<longrightarrow> extends P s (snd r)", OF _ assms], intro impI)
  fix w E a msk x f s r
  assume IH: "\<And>E a msk x f s r. w E a msk x f s = Some r \<Longrightarrow>
      indirect_ok E P \<longrightarrow> extends P s (snd r)"
    and step: "do {
     (ret, tmp, s1) \<leftarrow> lan9250_read_mac_reg E a s;
     if ret = 0 \<and> tmp AND msk = x then Some (0, s1)
     else if f \<le> uptime E (trace s1) then Some (- EIO, s1)
     else w E a msk x f (act (Sleep_ms 1) s1)
   } = Some r"
    and P: "indirect_ok E P"
  obtain ret tmp s1 where rd: "lan9250_read_mac_reg E a s = Some (ret, tmp, s1)"
    using step by (auto simp: bind_eq_Some_conv)
  then have s1: "extends P s s1" using emits_read_mac [OF P, of a] by (auto simp: emits_q_def)
  have s2: "extends P s (act (Sleep_ms 1) s1)"
    using s1 extends_act P unfolding indirect_ok_def by (blast intro: extends_trans)
  have "w E a msk x f (act (Sleep_ms 1) s1) = Some r \<or> snd r = s1"
    using step rd by (auto split: if_splits)
  then show "extends P s (snd r)"
    using s1 s2 IH P extends_trans by blast
qed

lemma emits_wait_mac [emits_rules]:
  "indirect_ok E P \<Longrightarrow> emits P (lan9250_wait_mac_ready E a msk x m)"
  unfolding emits_def lan9250_wait_mac_ready_def
  using wait_mac_loop_extends by (metis snd_conv)

lemma emits_write_phy [emits_rules]: "indirect_ok E P \<Longrightarrow> emits P (lan9250_write_phy_reg E a d)"
  unfolding lan9250_write_phy_reg_def phy_ready_def
  by (simp add: emits_rules)

lemma emits_read_phy [emits_rules]: "indirect_ok E P \<Longrightarrow> emits_q P (lan9250_read_phy_reg E a)"
proof -
  assume ok: "indirect_ok E P"
  let ?pre = "[phy_ready E, lan9250_write_mac_reg E LAN9250_HMAC_MII_ACC (mii_select a), phy_ready E]"
  have "emits P (run_cmds ?pre)" "emits_q P (lan9250_read_mac_reg E LAN9250_HMAC_MII_DATA)"
    using ok unfolding phy_ready_def by (simp_all add: emits_rules)
  then show ?thesis
    unfolding emits_q_def emits_def lan9250_read_phy_reg_def
    by (auto simp: bind_eq_Some_conv split: if_splits) (blast intro: extends_trans)+
qed

section \<open>The waits end\<close>

text \<open>The kernel's clock does not go back, and advances by a millisecond over a wait of one.\<close>

definition clock_runs :: "lan_env \<Rightarrow> bool" where
  "clock_runs E \<longleftrightarrow> (\<forall>e h. uptime E h \<le> uptime E (e # h)) \<and>
     (\<forall>h. uptime E h + 1 \<le> uptime E (Busy_wait 1000 # h)) \<and>
     (\<forall>h. uptime E h + 1 \<le> uptime E (Sleep_ms 1 # h))"

definition returns :: "lan cmd \<Rightarrow> bool" where
  "returns m \<longleftrightarrow> (\<forall>s. \<exists>r t. m s = Some (r, t))"

definition returns_q :: "'v query \<Rightarrow> bool" where
  "returns_q q \<longleftrightarrow> (\<forall>s. \<exists>r v t. q s = Some (r, v, t))"

lemma returns_act [returns_rules]: "returns (act_cmd e)"
  by (simp add: returns_def act_cmd_def)

lemma returns_write [returns_rules]: "returns (lan9250_write_sys_reg E a d)"
  by (simp add: returns_def lan9250_write_sys_reg_def Let_def)

lemma returns_read [returns_rules]: "returns_q (lan9250_read_sys_reg E a)"
  by (simp add: returns_q_def lan9250_read_sys_reg_def Let_def)

lemma returns_then:
  assumes "returns m" "returns n"
  shows "returns (then_ok m n)"
  unfolding returns_def
proof
  fix s
  obtain r t where "m s = Some (r, t)" using assms(1) unfolding returns_def by blast
  moreover obtain r' t' where "n t = Some (r', t')" using assms(2) unfolding returns_def by blast
  ultimately show "\<exists>r t. then_ok m n s = Some (r, t)" by (simp add: then_ok_def)
qed

lemma returns_run [returns_rules]: "list_all returns ms \<Longrightarrow> returns (run_cmds ms)"
proof (induction ms rule: induct_list012)
  case (3 m n ms)
  have "run_cmds (m # n # ms) = then_ok m (run_cmds (n # ms))" by (rule run_cmds_fun)
  with 3 show ?case by (simp add: returns_then)
qed (simp_all add: returns_def)

lemma returns_query [returns_rules]:
  assumes "returns_q q" "\<And>v. returns (k v)"
  shows "returns (query_ok q k)"
  unfolding returns_def
proof
  fix s
  obtain r v t where "q s = Some (r, v, t)" using assms(1) unfolding returns_q_def by blast
  moreover obtain r' t' where "k v t = Some (r', t')" using assms(2) unfolding returns_def by blast
  ultimately show "\<exists>r t. query_ok q k s = Some (r, t)" by (simp add: query_ok_def)
qed

text \<open>Commands, then a query for the value.\<close>

lemma returns_pre_query:
  assumes "returns m" "returns_q q"
    "\<And>s. p s = do {
       (ret, s1) \<leftarrow> m s;
       if ret < 0 then Some (ret, d, s1)
       else do { (ret, tmp, s2) \<leftarrow> q s1; if ret < 0 then Some (ret, d, s2) else Some (0, g tmp, s2) }
     }"
  shows "returns_q p"
  unfolding returns_q_def
proof
  fix s
  obtain r t where "m s = Some (r, t)" using assms(1) unfolding returns_def by blast
  moreover obtain r' v u where "q t = Some (r', v, u)" using assms(2) unfolding returns_q_def by blast
  ultimately show "\<exists>r v t. p s = Some (r, v, t)" by (simp add: assms(3))
qed

text \<open>A wait makes at most one turn per millisecond of its time-out, and one more. It ends with
  zero on a reading that matches, or with \<open>- EIO\<close>.\<close>

lemma wait_ready_loop_ends:
  assumes clock: "clock_runs E"
  shows "\<exists>r t n new. wait_ready_loop E a msk x f s = Some (r, t) \<and>
    t = s\<lparr>trace := spi_read E a # new @ trace s\<rparr> \<and>
    new = concat (replicate n [Busy_wait 1000, spi_read E a]) \<and> n \<le> nat (f - uptime E (trace s)) \<and>
    (r = 0 \<and> spi_ret E (trace t) = 0 \<and> le32 (spi_rx E (trace t)) AND msk = x \<or>
     r = - EIO \<and> f \<le> uptime E (trace t))"
proof (induction "nat (f - uptime E (trace s))" arbitrary: s rule: less_induct)
  case less
  define s1 where "s1 = act (spi_read E a) s"
  define ret tmp where v: "ret = spi_ret E (trace s1)" "tmp = le32 (spi_rx E (trace s1))"
  have rd: "lan9250_read_sys_reg E a s = Some (ret, tmp, s1)"
    by (simp add: lan9250_read_sys_reg_def s1_def v Let_def)
  have t1: "s1 = s\<lparr>trace := spi_read E a # trace s\<rparr>" by (simp add: s1_def act_def)
  have up: "uptime E (trace s) \<le> uptime E (trace s1)" using clock by (simp add: clock_runs_def t1)
  show ?case
  proof (cases "ret = 0 \<and> tmp AND msk = x \<or> f \<le> uptime E (trace s1)")
    case True
    define r where "r = (if ret = 0 \<and> tmp AND msk = x then 0 else - EIO)"
    have "wait_ready_loop E a msk x f s = Some (r, s1)"
      using True by (subst wait_ready_loop.simps) (auto simp: rd r_def)
    moreover have "r = 0 \<and> ret = 0 \<and> tmp AND msk = x \<or> r = - EIO \<and> f \<le> uptime E (trace s1)"
      using True by (auto simp: r_def)
    ultimately show ?thesis
      by (intro exI [of _ r] exI [of _ s1] exI [of _ "0::nat"] exI [of _ "[]"]) (simp add: t1 v)
  next
    case False
    let ?s2 = "act (Busy_wait 1000) s1"
    have step: "wait_ready_loop E a msk x f s = wait_ready_loop E a msk x f ?s2"
      using False by (subst wait_ready_loop.simps) (auto simp: rd)
    have "uptime E (trace s1) + 1 \<le> uptime E (trace ?s2)"
      using clock by (simp add: clock_runs_def act_def)
    then have lt: "nat (f - uptime E (trace ?s2)) < nat (f - uptime E (trace s))"
      using up False by linarith
    from less [OF this] obtain r t n where IH: "wait_ready_loop E a msk x f ?s2 = Some (r, t)"
      "t = ?s2\<lparr>trace := spi_read E a # concat (replicate n [Busy_wait 1000, spi_read E a]) @ trace ?s2\<rparr>"
      "n \<le> nat (f - uptime E (trace ?s2))"
      "r = 0 \<and> spi_ret E (trace t) = 0 \<and> le32 (spi_rx E (trace t)) AND msk = x \<or>
        r = - EIO \<and> f \<le> uptime E (trace t)"
      by blast
    have "concat (replicate n [Busy_wait 1000, spi_read E a]) @ [Busy_wait 1000, spi_read E a]
        = concat (replicate (Suc n) [Busy_wait 1000, spi_read E a])"
      by (induction n) simp_all
    then have "t = s\<lparr>trace := spi_read E a #
        concat (replicate (Suc n) [Busy_wait 1000, spi_read E a]) @ trace s\<rparr>"
      using IH(2) by (simp add: act_def t1)
    moreover have "Suc n \<le> nat (f - uptime E (trace s))" using lt IH(3) by linarith
    ultimately show ?thesis using IH(1,4) step by metis
  qed
qed

lemma returns_wait_ready [returns_rules]: "clock_runs E \<Longrightarrow> returns (lan9250_wait_ready E a msk x m)"
  unfolding returns_def lan9250_wait_ready_def using wait_ready_loop_ends by blast

lemma returns_read_mac [returns_rules]: "clock_runs E \<Longrightarrow> returns_q (lan9250_read_mac_reg E a)"
proof -
  assume clock: "clock_runs E"
  let ?pre = "[mac_ready E, lan9250_write_sys_reg E LAN9250_MAC_CSR_CMD
      (ucast a OR LAN9250_MAC_CSR_CMD_BUSY OR LAN9250_MAC_CSR_CMD_READ), mac_ready E]"
  have "returns (run_cmds ?pre)" using clock by (simp add: returns_rules mac_ready_def)
  then show ?thesis
    using returns_read by (rule returns_pre_query) (simp add: lan9250_read_mac_reg_def)
qed

lemma returns_write_mac [returns_rules]: "clock_runs E \<Longrightarrow> returns (lan9250_write_mac_reg E a d)"
  by (simp add: lan9250_write_mac_reg_def returns_rules mac_ready_def)

lemma extends_uptime: "clock_runs E \<Longrightarrow> extends P s t \<Longrightarrow> uptime E (trace s) \<le> uptime E (trace t)"
proof -
  assume clock: "clock_runs E" and "extends P s t"
  then obtain new where "trace t = new @ trace s" by (auto simp: extends_def)
  moreover have "uptime E h \<le> uptime E (new @ h)" for h
    using clock by (induction new) (auto simp: clock_runs_def intro: order_trans)
  ultimately show ?thesis by simp
qed

lemma wait_mac_loop_ends:
  assumes clock: "clock_runs E"
  shows "\<exists>r t. wait_mac_loop E a msk x f s = Some (r, t) \<and> (r = 0 \<or> r = - EIO)"
proof (induction "nat (f - uptime E (trace s))" arbitrary: s rule: less_induct)
  case less
  obtain ret tmp s1 where rd: "lan9250_read_mac_reg E a s = Some (ret, tmp, s1)"
    using returns_read_mac [OF clock] unfolding returns_q_def by blast
  have "extends (\<lambda>_. True) s s1"
    using emits_read_mac [of E "\<lambda>_. True" a] rd by (auto simp: emits_q_def indirect_ok_def)
  from extends_uptime [OF clock this] have up: "uptime E (trace s) \<le> uptime E (trace s1)" .
  show ?case
  proof (cases "ret = 0 \<and> tmp AND msk = x \<or> f \<le> uptime E (trace s1)")
    case True
    then show ?thesis by (subst wait_mac_loop.simps) (auto simp: rd)
  next
    case False
    let ?s2 = "act (Sleep_ms 1) s1"
    have "uptime E (trace s1) + 1 \<le> uptime E (trace ?s2)"
      using clock by (simp add: clock_runs_def act_def)
    then have "nat (f - uptime E (trace ?s2)) < nat (f - uptime E (trace s))"
      using up False by linarith
    from less [OF this] show ?thesis
      using False by (subst wait_mac_loop.simps) (auto simp: rd)
  qed
qed

lemma returns_wait_mac [returns_rules]: "clock_runs E \<Longrightarrow> returns (lan9250_wait_mac_ready E a msk x m)"
  unfolding returns_def lan9250_wait_mac_ready_def using wait_mac_loop_ends by blast

lemma returns_write_phy [returns_rules]: "clock_runs E \<Longrightarrow> returns (lan9250_write_phy_reg E a d)"
  by (simp add: lan9250_write_phy_reg_def returns_rules phy_ready_def)

lemma returns_read_phy [returns_rules]: "clock_runs E \<Longrightarrow> returns_q (lan9250_read_phy_reg E a)"
proof -
  assume clock: "clock_runs E"
  let ?pre = "[phy_ready E, lan9250_write_mac_reg E LAN9250_HMAC_MII_ACC (mii_select a), phy_ready E]"
  have "returns (run_cmds ?pre)" using clock by (simp add: returns_rules phy_ready_def)
  then show ?thesis
    using returns_read_mac [OF clock] by (rule returns_pre_query) (simp add: lan9250_read_phy_reg_def)
qed

section \<open>Properties\<close>

text \<open>
  A wait for the chip is bounded and its result is to be trusted. If the kernel's clock runs,
  \<open>lan9250_wait_ready\<close> always returns; it reads the register at most once per millisecond of its
  time-out and once more, with a millisecond's wait between two reads and nothing else; zero
  means that the last transfer worked and its value matched, \<open>- EIO\<close> that the time was up.
\<close>

lemma wait_ready_bounded:
  assumes "clock_runs E"
  shows "\<exists>r t n. lan9250_wait_ready E a msk x m s = Some (r, t) \<and> n \<le> m \<and>
    t = s\<lparr>trace := spi_read E a # concat (replicate n [Busy_wait 1000, spi_read E a]) @ trace s\<rparr> \<and>
    (r = 0 \<and> spi_ret E (trace t) = 0 \<and> le32 (spi_rx E (trace t)) AND msk = x \<or>
     r = - EIO \<and> uptime E (trace s) + int m \<le> uptime E (trace t))"
  using wait_ready_loop_ends [OF assms, of a msk x "uptime E (trace s) + int m" s]
  unfolding lan9250_wait_ready_def by auto

text \<open>An environment for the examples: transfers work and read as zero, and every event takes a
  millisecond.\<close>

definition calm :: lan_env where
  "calm = \<lparr>spi_ret = \<lambda>h. 0, spi_rx = \<lambda>h. [0, 0, 0, 0], uptime = \<lambda>h. int (length h),
     sys_put_be16 = \<lambda>w. [ucast (drop_bit 8 w), ucast w],
     sys_put_le32 = \<lambda>w. [ucast w, ucast (drop_bit 8 w), ucast (drop_bit 16 w), ucast (drop_bit 24 w)],
     sys_get_be16 = \<lambda>bs. push_bit 8 (ucast (bs ! 0)) OR ucast (bs ! 1),
     net_pkt_alloc = \<lambda>h. Some 1, pkt_frags = \<lambda>h. 12, net_pkt_len = \<lambda>p. 60, net_pkt_read = \<lambda>h. (0, replicate 60 0),
     net_recv = \<lambda>h. 0, hwinfo_device_id = (8, [1, 2, 3, 4, 5, 6, 7, 8]), mac_load = \<lambda>m. m,
     gpio_ret = \<lambda>h. 0, spi_ready = True, gpio_ready = True, reset_present = True,
     reset_ready = True, after_txbuf = [], NET_BUF_DATA_SIZE = 128, NET_ETH_MAX_FRAME = 1514,
     PKT_TIMESTAMP_THREAD = True, PROMISCUOUS_MODE = False\<rparr>"

definition lan0 :: lan where
  "lan0 = \<lparr>trace = [], mac_address = replicate 6 0, txbuf = replicate 1514 0, ptp_clock = None,
     rx_pending = replicate 16 \<lparr>rp_pkt = None, rp_msg_type = 0, rp_seq_id = 0, rp_deadline = 0\<rparr>,
     rx_unclaimed = replicate 16 \<lparr>ru_valid = False, ru_msg_type = 0, ru_seq_id = 0, ru_sec = 0,
       ru_ns = 0, ru_deadline = 0\<rparr>,
     mcast_hash_refcount = replicate 64 0, diag_matched_immediate = 0, diag_matched_pending = 0,
     diag_queued_pending = 0, diag_expired_unmatched = 0, diag_last_summary_ms = 0\<rparr>"

lemma calm_clock: "clock_runs calm"
  by (simp add: clock_runs_def calm_def)

lemma wait_ready_bounded_example:
  "\<exists>r t. lan9250_wait_ready calm 0x64 0xFFFFFFFF 0x87654321 5000 lan0 = Some (r, t)"
  using wait_ready_bounded [OF calm_clock, of "0x64" "0xFFFFFFFF" "0x87654321" 5000 lan0] by blast

end
