(* ===== verification/Lan_Regs.thy ===== *)
theory Lan_Regs
  imports Lan_Bus
begin

text \<open>
  Bits and PHY registers that \<open>lan9250_configure\<close>, \<open>lan9250_sw_reset\<close> and the receive, transmit and
  interrupt paths use, from
  \<open>drivers/eth_lan9250/eth_lan9250_priv.h\<close>.
\<close>

named_theorems reg_bits \<open>the values of these constants\<close>

definition LAN9250_RESET_TIMEOUT :: nat where [dev_eval, reg_bits]: "LAN9250_RESET_TIMEOUT = 5000"
definition LAN9250_RESET_CTL_HMAC_RST :: u32 where
  [dev_eval, reg_bits]: "LAN9250_RESET_CTL_HMAC_RST = 0x00000020"
definition LAN9250_RESET_CTL_PHY_RST :: u32 where
  [dev_eval, reg_bits]: "LAN9250_RESET_CTL_PHY_RST = 0x00000002"
definition LAN9250_RESET_CTL_DIGITAL_RST :: u32 where
  [dev_eval, reg_bits]: "LAN9250_RESET_CTL_DIGITAL_RST = 0x00000001"
definition BOTR_MASK :: u32 where [dev_eval, reg_bits]: "BOTR_MASK = 0xffffffff"
definition LAN9250_BYTE_TEST_DEFAULT :: u32 where
  [dev_eval, reg_bits]: "LAN9250_BYTE_TEST_DEFAULT = 0x87654321"
definition LAN9250_ID_REV_CHIP_ID :: u32 where [dev_eval, reg_bits]: "LAN9250_ID_REV_CHIP_ID = 0xFFFF0000"
definition LAN9250_ID_REV_CHIP_ID_DEFAULT :: u32 where
  [dev_eval, reg_bits]: "LAN9250_ID_REV_CHIP_ID_DEFAULT = 0x92500000"
definition LAN9250_HW_CFG_MBO :: u32 where [dev_eval, reg_bits]: "LAN9250_HW_CFG_MBO = 0x00100000"
definition LAN9250_HW_CFG_TX_FIF_SZ_8KB :: u32 where
  [dev_eval, reg_bits]: "LAN9250_HW_CFG_TX_FIF_SZ_8KB = 0x00080000"
definition LAN9250_IRQ_CFG_INT_DEAS_100US :: u32 where
  [dev_eval, reg_bits]: "LAN9250_IRQ_CFG_INT_DEAS_100US = 0x0A000000"
definition LAN9250_IRQ_CFG_IRQ_EN :: u32 where [dev_eval, reg_bits]: "LAN9250_IRQ_CFG_IRQ_EN = 0x00000100"
definition LAN9250_IRQ_CFG_IRQ_TYPE_PP :: u32 where
  [dev_eval, reg_bits]: "LAN9250_IRQ_CFG_IRQ_TYPE_PP = 0x00000001"
definition LAN9250_INT_EN_PHY_INT_EN :: u32 where
  [dev_eval, reg_bits]: "LAN9250_INT_EN_PHY_INT_EN = 0x04000000"
definition LAN9250_INT_EN_RSFL_EN :: u32 where [dev_eval, reg_bits]: "LAN9250_INT_EN_RSFL_EN = 0x00000008"
definition LAN9250_FIFO_INT_TX_DATA_AVAILABLE_LEVEL :: u32 where
  [dev_eval, reg_bits]: "LAN9250_FIFO_INT_TX_DATA_AVAILABLE_LEVEL = 0xFF000000"
definition LAN9250_FIFO_INT_TX_STATUS_LEVEL :: u32 where
  [dev_eval, reg_bits]: "LAN9250_FIFO_INT_TX_STATUS_LEVEL = 0x00FF0000"
definition LAN9250_PMT_CTRL_PM_WAKE :: u32 where [dev_eval, reg_bits]: "LAN9250_PMT_CTRL_PM_WAKE = 0x08000000"
definition LAN9250_PMT_CTRL_WOL_EN :: u32 where [dev_eval, reg_bits]: "LAN9250_PMT_CTRL_WOL_EN = 0x00000200"
definition LAN9250_PMT_CTRL_WOL_STS :: u32 where [dev_eval, reg_bits]: "LAN9250_PMT_CTRL_WOL_STS = 0x00000020"
definition LAN9250_PHY_BASIC_CONTROL :: u8 where [dev_eval, reg_bits]: "LAN9250_PHY_BASIC_CONTROL = 0x00"
definition LAN9250_PHY_AN_ADV :: u8 where [dev_eval, reg_bits]: "LAN9250_PHY_AN_ADV = 0x04"
definition LAN9250_PHY_SPECIAL_MODES :: u8 where [dev_eval, reg_bits]: "LAN9250_PHY_SPECIAL_MODES = 0x12"
definition LAN9250_PHY_SPECIAL_CONTROL_STAT_IND :: u8 where
  [dev_eval, reg_bits]: "LAN9250_PHY_SPECIAL_CONTROL_STAT_IND = 0x1B"
definition LAN9250_PHY_INTERRUPT_MASK :: u8 where [dev_eval, reg_bits]: "LAN9250_PHY_INTERRUPT_MASK = 0x1E"
definition LAN9250_PHY_SPECIAL_CONTROL_STATUS :: u8 where
  [dev_eval, reg_bits]: "LAN9250_PHY_SPECIAL_CONTROL_STATUS = 0x1F"
definition LAN9250_PHY_BASIC_CONTROL_PHY_AN :: u16 where
  [dev_eval, reg_bits]: "LAN9250_PHY_BASIC_CONTROL_PHY_AN = 0x1000"
definition LAN9250_PHY_BASIC_CONTROL_PHY_SPEED_SEL_LSB :: u16 where
  [dev_eval, reg_bits]: "LAN9250_PHY_BASIC_CONTROL_PHY_SPEED_SEL_LSB = 0x2000"
definition LAN9250_PHY_BASIC_CONTROL_PHY_DUPLEX :: u16 where
  [dev_eval, reg_bits]: "LAN9250_PHY_BASIC_CONTROL_PHY_DUPLEX = 0x0100"
definition LAN9250_PHY_AN_ADV_ASYM_PAUSE :: u16 where
  [dev_eval, reg_bits]: "LAN9250_PHY_AN_ADV_ASYM_PAUSE = 0x0800"
definition LAN9250_PHY_AN_ADV_SYM_PAUSE :: u16 where
  [dev_eval, reg_bits]: "LAN9250_PHY_AN_ADV_SYM_PAUSE = 0x0400"
definition LAN9250_PHY_AN_ADV_100BTX_HD :: u16 where
  [dev_eval, reg_bits]: "LAN9250_PHY_AN_ADV_100BTX_HD = 0x0080"
definition LAN9250_PHY_AN_ADV_100BTX_FD :: u16 where
  [dev_eval, reg_bits]: "LAN9250_PHY_AN_ADV_100BTX_FD = 0x0100"
definition LAN9250_PHY_AN_ADV_10BT_HD :: u16 where [dev_eval, reg_bits]: "LAN9250_PHY_AN_ADV_10BT_HD = 0x0020"
definition LAN9250_PHY_AN_ADV_10BT_FD :: u16 where [dev_eval, reg_bits]: "LAN9250_PHY_AN_ADV_10BT_FD = 0x0040"
definition LAN9250_PHY_AN_ADV_SELECTOR_DEFAULT :: u16 where
  [dev_eval, reg_bits]: "LAN9250_PHY_AN_ADV_SELECTOR_DEFAULT = 0x0001"
definition LAN9250_PHY_SPECIAL_CONTROL_STAT_IND_AMDIXCTRL :: u16 where
  [dev_eval, reg_bits]: "LAN9250_PHY_SPECIAL_CONTROL_STAT_IND_AMDIXCTRL = 0x8000"
definition LAN9250_PHY_SPECIAL_CONTROL_STAT_IND_AMDIXEN :: u16 where
  [dev_eval, reg_bits]: "LAN9250_PHY_SPECIAL_CONTROL_STAT_IND_AMDIXEN = 0x4000"
definition LAN9250_PHY_SPECIAL_CONTROL_STAT_IND_SQEOFF :: u16 where
  [dev_eval, reg_bits]: "LAN9250_PHY_SPECIAL_CONTROL_STAT_IND_SQEOFF = 0x0800"
definition LAN9250_PHY_INTERRUPT_SOURCE_LINK_UP :: u16 where
  [dev_eval, reg_bits]: "LAN9250_PHY_INTERRUPT_SOURCE_LINK_UP = 0x0200"
definition LAN9250_PHY_INTERRUPT_SOURCE_LINK_DOWN :: u16 where
  [dev_eval, reg_bits]: "LAN9250_PHY_INTERRUPT_SOURCE_LINK_DOWN = 0x0010"
definition LAN9250_PHY_MODE_CONTROL_STATUS_ALTINT :: u16 where
  [dev_eval, reg_bits]: "LAN9250_PHY_MODE_CONTROL_STATUS_ALTINT = 0x0040"
definition LAN9250_HMAC_CR_PADSTR :: u32 where [dev_eval, reg_bits]: "LAN9250_HMAC_CR_PADSTR = 0x00000100"
definition LAN9250_HMAC_CR_TXEN :: u32 where [dev_eval, reg_bits]: "LAN9250_HMAC_CR_TXEN = 0x00000008"
definition LAN9250_HMAC_CR_RXEN :: u32 where [dev_eval, reg_bits]: "LAN9250_HMAC_CR_RXEN = 0x00000004"
definition LAN9250_HMAC_CR_FDPX :: u32 where [dev_eval, reg_bits]: "LAN9250_HMAC_CR_FDPX = 0x00100000"
definition LAN9250_HMAC_CR_HPFILT :: u32 where [dev_eval, reg_bits]: "LAN9250_HMAC_CR_HPFILT = BIT 13"
definition LAN9250_TX_CFG_TX_ON :: u32 where [dev_eval, reg_bits]: "LAN9250_TX_CFG_TX_ON = 0x00000002"

definition LAN9250_RX_STS_PACKET_LEN :: u32 where [dev_eval, reg_bits]: "LAN9250_RX_STS_PACKET_LEN = 0x3FFF0000"
definition LAN9250_RX_FIFO_INF_RXSUSED :: u32 where
  [dev_eval, reg_bits]: "LAN9250_RX_FIFO_INF_RXSUSED = 0x00FF0000"
definition LAN9250_TX_FIFO_INF_TXSUSED :: u32 where
  [dev_eval, reg_bits]: "LAN9250_TX_FIFO_INF_TXSUSED = 0x00FF0000"
definition LAN9250_INT_STS_PHY_INT :: u32 where
  [dev_eval, reg_bits]: "LAN9250_INT_STS_PHY_INT = 0x04000000"
definition LAN9250_INT_STS_RSFL :: u32 where
  [dev_eval, reg_bits]: "LAN9250_INT_STS_RSFL = 0x00000008"

end
