(* ===== verification/Lan_Config.thy ===== *)
theory Lan_Config
  imports Lan_Regs
begin

text \<open>
  Bringing the LAN9250 up (\<open>drivers/eth_lan9250/eth_lan9250.c\<close>): software reset, configuration of
  the MAC, PHY and interrupts, the station address, the IEEE 1588 unit, and \<open>lan9250_init\<close>,
  which runs them all. The lemmas say what can happen on the way and in which order.
\<close>

section \<open>Registers\<close>

definition LAN9250_ID_REV :: u16 where [dev_eval]: "LAN9250_ID_REV = 0x0050"
definition LAN9250_IRQ_CFG :: u16 where [dev_eval]: "LAN9250_IRQ_CFG = 0x0054"
definition LAN9250_INT_STS :: u16 where [dev_eval]: "LAN9250_INT_STS = 0x0058"
definition LAN9250_INT_EN :: u16 where [dev_eval]: "LAN9250_INT_EN = 0x005C"
definition LAN9250_BYTE_TEST :: u16 where [dev_eval]: "LAN9250_BYTE_TEST = 0x0064"
definition LAN9250_FIFO_INT :: u16 where [dev_eval]: "LAN9250_FIFO_INT = 0x0068"
definition LAN9250_RX_CFG :: u16 where [dev_eval]: "LAN9250_RX_CFG = 0x006C"
definition LAN9250_TX_CFG :: u16 where [dev_eval]: "LAN9250_TX_CFG = 0x0070"
definition LAN9250_HW_CFG :: u16 where [dev_eval]: "LAN9250_HW_CFG = 0x0074"
definition LAN9250_PMT_CTRL :: u16 where [dev_eval]: "LAN9250_PMT_CTRL = 0x0084"
definition LAN9250_AFC_CFG :: u16 where [dev_eval]: "LAN9250_AFC_CFG = 0x00AC"
definition LAN9250_RESET_CTL :: u16 where [dev_eval]: "LAN9250_RESET_CTL = 0x01F8"

definition LAN9250_HMAC_CR :: u8 where [dev_eval]: "LAN9250_HMAC_CR = 1"
definition LAN9250_HMAC_ADDRH :: u8 where [dev_eval]: "LAN9250_HMAC_ADDRH = 2"
definition LAN9250_HMAC_ADDRL :: u8 where [dev_eval]: "LAN9250_HMAC_ADDRL = 3"
definition LAN9250_HMAC_HASHH :: u8 where [dev_eval]: "LAN9250_HMAC_HASHH = 4"
definition LAN9250_HMAC_HASHL :: u8 where [dev_eval]: "LAN9250_HMAC_HASHL = 5"

definition LAN9250_1588_CMD_CTL :: u16 where [dev_eval]: "LAN9250_1588_CMD_CTL = 0x0100"
definition LAN9250_1588_GENERAL_CONFIG :: u16 where [dev_eval]: "LAN9250_1588_GENERAL_CONFIG = 0x0104"
definition LAN9250_1588_INT_STS :: u16 where [dev_eval]: "LAN9250_1588_INT_STS = 0x0108"
definition LAN9250_1588_CLOCK_SEC :: u16 where [dev_eval]: "LAN9250_1588_CLOCK_SEC = 0x0110"
definition LAN9250_1588_CLOCK_NS :: u16 where [dev_eval]: "LAN9250_1588_CLOCK_NS = 0x0114"
definition LAN9250_1588_BANK_PORT_GPIO_SEL :: u16 where [dev_eval]: "LAN9250_1588_BANK_PORT_GPIO_SEL = 0x0154"
definition LAN9250_1588_RX_TIMESTAMP_CONFIG :: u16 where [dev_eval]: "LAN9250_1588_RX_TIMESTAMP_CONFIG = 0x015C"
definition LAN9250_1588_TX_TIMESTAMP_CONFIG :: u16 where [dev_eval]: "LAN9250_1588_TX_TIMESTAMP_CONFIG = 0x015C"

definition LAN9250_1588_BANK_SEL_PORT_GENERAL :: u32 where [dev_eval]: "LAN9250_1588_BANK_SEL_PORT_GENERAL = 0"
definition LAN9250_1588_BANK_SEL_PORT_RX :: u32 where [dev_eval]: "LAN9250_1588_BANK_SEL_PORT_RX = 1"
definition LAN9250_1588_BANK_SEL_PORT_TX :: u32 where [dev_eval]: "LAN9250_1588_BANK_SEL_PORT_TX = 2"
definition LAN9250_1588_CMD_CTL_CLOCK_LOAD :: u32 where [dev_eval]: "LAN9250_1588_CMD_CTL_CLOCK_LOAD = 0x10"
definition LAN9250_1588_CMD_CTL_CLOCK_READ :: u32 where [dev_eval]: "LAN9250_1588_CMD_CTL_CLOCK_READ = 0x08"
definition LAN9250_1588_CMD_CTL_ENABLE :: u32 where [dev_eval]: "LAN9250_1588_CMD_CTL_ENABLE = 0x04"
definition LAN9250_1588_GENERAL_CONFIG_TSU_ENABLE :: u32 where
  [dev_eval]: "LAN9250_1588_GENERAL_CONFIG_TSU_ENABLE = 0x00010000"

definition LAN9250_1588_PTP_MESSAGE_EN_DEFAULT :: u32 where
  [dev_eval]: "LAN9250_1588_PTP_MESSAGE_EN_DEFAULT = BIT 0 OR BIT 1 OR BIT 2 OR BIT 3"

section \<open>Station address\<close>

text \<open>The low six bytes of the device id, made a locally administered unicast address.\<close>

definition lan9250_load_unique_mac_address :: "lan_env \<Rightarrow> lan \<Rightarrow> lan" where
  "lan9250_load_unique_mac_address E ctx =
    (let (len, hw_id) = hwinfo_device_id E
     in if len < 6 then ctx
        else let mac = take 6 (drop (nat (len - 6)) hw_id)
             in ctx\<lparr>mac_address := store mac 0 ((mac ! 0 AND NOT 1) OR 2)\<rparr>)"

definition mac_byte :: "lan \<Rightarrow> nat \<Rightarrow> u32" where
  [dev_eval]: "mac_byte ctx i = push_bit (8 * (i mod 4)) (ucast (mac_address ctx ! i))"

definition lan9250_set_macaddr :: "lan_env \<Rightarrow> lan cmd" where
  "lan9250_set_macaddr E s = run_cmds
    [lan9250_write_mac_reg E LAN9250_HMAC_ADDRL
       (mac_byte s 0 OR mac_byte s 1 OR mac_byte s 2 OR mac_byte s 3),
     lan9250_write_mac_reg E LAN9250_HMAC_ADDRH (mac_byte s 4 OR mac_byte s 5)] s"

section \<open>Reset and configuration\<close>

text \<open>Polls without a time-out until the device says it is ready.\<close>

partial_function (option) hw_cfg_loop :: "lan_env \<Rightarrow> lan \<Rightarrow> (int \<times> lan) option" where
  "hw_cfg_loop E s = do {
     (ret, tmp, s1) \<leftarrow> lan9250_read_sys_reg E LAN9250_HW_CFG s;
     if ret < 0 then Some (ret, s1)
     else let s2 = act (Busy_wait 1000) s1
          in if tmp AND 0x08000000 = 0 then hw_cfg_loop E s2 else Some (0, s2)
   }"

definition lan9250_hw_cfg_check :: "lan_env \<Rightarrow> lan cmd" where
  "lan9250_hw_cfg_check E = hw_cfg_loop E"

definition lan9250_sw_reset :: "lan_env \<Rightarrow> lan cmd" where
  "lan9250_sw_reset E = run_cmds
    [lan9250_write_sys_reg E LAN9250_RESET_CTL
       (LAN9250_RESET_CTL_HMAC_RST OR LAN9250_RESET_CTL_PHY_RST OR LAN9250_RESET_CTL_DIGITAL_RST),
     lan9250_wait_ready E LAN9250_BYTE_TEST BOTR_MASK LAN9250_BYTE_TEST_DEFAULT LAN9250_RESET_TIMEOUT]"

definition check_id :: "lan_env \<Rightarrow> lan cmd" where
  "check_id E = query_ok (lan9250_read_sys_reg E LAN9250_ID_REV)
     (\<lambda>tmp s. Some (if tmp AND LAN9250_ID_REV_CHIP_ID \<noteq> LAN9250_ID_REV_CHIP_ID_DEFAULT
        then - ENODEV else 0, s))"

text \<open>The configuration in its parts: system registers, the PHY, the MAC.\<close>

definition configure_system :: "lan_env \<Rightarrow> lan cmd list" where
  "configure_system E =
    [lan9250_hw_cfg_check E,
     check_id E,
     lan9250_write_sys_reg E LAN9250_HW_CFG (LAN9250_HW_CFG_MBO OR LAN9250_HW_CFG_TX_FIF_SZ_8KB),
     lan9250_write_sys_reg E LAN9250_AFC_CFG 0x006e3741,
     lan9250_write_sys_reg E LAN9250_IRQ_CFG
       (LAN9250_IRQ_CFG_INT_DEAS_100US OR LAN9250_IRQ_CFG_IRQ_EN OR LAN9250_IRQ_CFG_IRQ_TYPE_PP),
     lan9250_write_sys_reg E LAN9250_INT_EN (LAN9250_INT_EN_PHY_INT_EN OR LAN9250_INT_EN_RSFL_EN),
     lan9250_write_sys_reg E LAN9250_FIFO_INT
       (LAN9250_FIFO_INT_TX_DATA_AVAILABLE_LEVEL OR LAN9250_FIFO_INT_TX_STATUS_LEVEL),
     lan9250_write_sys_reg E LAN9250_RX_CFG (0x06000000 OR 0x00000400),
     lan9250_write_sys_reg E LAN9250_PMT_CTRL
       (LAN9250_PMT_CTRL_PM_WAKE OR LAN9250_PMT_CTRL_WOL_EN OR LAN9250_PMT_CTRL_WOL_STS)]"

definition configure_phy :: "lan_env \<Rightarrow> lan cmd list" where
  "configure_phy E =
    [lan9250_write_phy_reg E LAN9250_PHY_BASIC_CONTROL
       (LAN9250_PHY_BASIC_CONTROL_PHY_AN OR LAN9250_PHY_BASIC_CONTROL_PHY_SPEED_SEL_LSB OR
        LAN9250_PHY_BASIC_CONTROL_PHY_DUPLEX),
     lan9250_write_phy_reg E LAN9250_PHY_AN_ADV
       (LAN9250_PHY_AN_ADV_ASYM_PAUSE OR LAN9250_PHY_AN_ADV_SYM_PAUSE OR
        LAN9250_PHY_AN_ADV_100BTX_HD OR LAN9250_PHY_AN_ADV_100BTX_FD OR
        LAN9250_PHY_AN_ADV_10BT_HD OR LAN9250_PHY_AN_ADV_10BT_FD OR
        LAN9250_PHY_AN_ADV_SELECTOR_DEFAULT),
     lan9250_write_phy_reg E LAN9250_PHY_SPECIAL_MODES (0x00E0 OR 1),
     lan9250_write_phy_reg E LAN9250_PHY_SPECIAL_CONTROL_STAT_IND
       (LAN9250_PHY_SPECIAL_CONTROL_STAT_IND_AMDIXCTRL OR
        LAN9250_PHY_SPECIAL_CONTROL_STAT_IND_AMDIXEN OR LAN9250_PHY_SPECIAL_CONTROL_STAT_IND_SQEOFF),
     lan9250_write_phy_reg E LAN9250_PHY_INTERRUPT_MASK
       (LAN9250_PHY_INTERRUPT_SOURCE_LINK_UP OR LAN9250_PHY_INTERRUPT_SOURCE_LINK_DOWN),
     lan9250_write_phy_reg E LAN9250_PHY_SPECIAL_CONTROL_STATUS LAN9250_PHY_MODE_CONTROL_STATUS_ALTINT]"

definition configure_mac :: "lan_env \<Rightarrow> lan cmd list" where
  "configure_mac E =
    [lan9250_write_sys_reg E LAN9250_INT_STS 0xFFFFFFFF,
     lan9250_write_mac_reg E LAN9250_HMAC_CR
       (LAN9250_HMAC_CR_PADSTR OR LAN9250_HMAC_CR_TXEN OR LAN9250_HMAC_CR_RXEN OR
        LAN9250_HMAC_CR_FDPX OR LAN9250_HMAC_CR_HPFILT),
     lan9250_write_mac_reg E LAN9250_HMAC_HASHL 0,
     lan9250_write_mac_reg E LAN9250_HMAC_HASHH 0,
     lan9250_write_sys_reg E LAN9250_TX_CFG LAN9250_TX_CFG_TX_ON]"

definition lan9250_configure :: "lan_env \<Rightarrow> lan cmd" where
  "lan9250_configure E = run_cmds (configure_system E @ configure_phy E @ configure_mac E)"

lemmas configure_parts = lan9250_configure_def configure_system_def configure_phy_def configure_mac_def

section \<open>The 1588 unit\<close>

definition lan9250_1588_enable :: "lan_env \<Rightarrow> lan cmd" where
  "lan9250_1588_enable E = lan9250_write_sys_reg E LAN9250_1588_CMD_CTL LAN9250_1588_CMD_CTL_ENABLE"

definition lan9250_1588_init :: "lan_env \<Rightarrow> lan cmd" where
  "lan9250_1588_init E = query_ok (lan9250_read_sys_reg E LAN9250_1588_GENERAL_CONFIG)
    (\<lambda>general_config. run_cmds
      [lan9250_write_sys_reg E LAN9250_1588_GENERAL_CONFIG
         (general_config OR LAN9250_1588_GENERAL_CONFIG_TSU_ENABLE),
       lan9250_write_sys_reg E LAN9250_1588_CLOCK_SEC 0,
       lan9250_write_sys_reg E LAN9250_1588_CLOCK_NS 0,
       lan9250_write_sys_reg E LAN9250_1588_CMD_CTL LAN9250_1588_CMD_CTL_CLOCK_LOAD])"

definition lan9250_1588_bank_select :: "lan_env \<Rightarrow> u32 \<Rightarrow> lan cmd" where
  "lan9250_1588_bank_select E bank = lan9250_write_sys_reg E LAN9250_1588_BANK_PORT_GPIO_SEL bank"

text \<open>A body between \<open>k_mutex_lock\<close> and \<open>k_mutex_unlock\<close>, with every exit through the
  unlock.\<close>

definition locked :: "lock \<Rightarrow> lan cmd \<Rightarrow> lan cmd" where
  "locked l m s = do { (ret, s1) \<leftarrow> m (act (Lock l) s); Some (ret, act (Unlock l) s1) }"

definition lan9250_1588_timestamping_init :: "lan_env \<Rightarrow> lan cmd" where
  "lan9250_1588_timestamping_init E = locked Bank_lock (run_cmds
    [lan9250_1588_bank_select E LAN9250_1588_BANK_SEL_PORT_RX,
     query_ok (lan9250_read_sys_reg E LAN9250_1588_RX_TIMESTAMP_CONFIG) (\<lambda>rx_ts_config.
       lan9250_write_sys_reg E LAN9250_1588_RX_TIMESTAMP_CONFIG
         ((rx_ts_config AND NOT 0x0000FFFF) OR LAN9250_1588_PTP_MESSAGE_EN_DEFAULT)),
     lan9250_1588_bank_select E LAN9250_1588_BANK_SEL_PORT_TX,
     query_ok (lan9250_read_sys_reg E LAN9250_1588_TX_TIMESTAMP_CONFIG) (\<lambda>tx_ts_config.
       lan9250_write_sys_reg E LAN9250_1588_TX_TIMESTAMP_CONFIG
         ((tx_ts_config AND NOT 0x0000FFFF) OR LAN9250_1588_PTP_MESSAGE_EN_DEFAULT))])"

section \<open>lan9250_init\<close>

text \<open>A GPIO call whose status is checked, and a change of the runtime struct alone.\<close>

definition gpio_call :: "lan_env \<Rightarrow> ev \<Rightarrow> lan cmd" where
  "gpio_call E e s = (let s1 = act e s in Some (gpio_ret E (trace s1), s1))"

definition check :: "bool \<Rightarrow> lan cmd" where
  "check ok s = Some (if ok then 0 else - EINVAL, s)"

definition update :: "(lan \<Rightarrow> lan) \<Rightarrow> lan cmd" where
  "update f s = Some (0, f s)"

definition hard_reset :: "lan_env \<Rightarrow> lan cmd" where
  "hard_reset E =
    (if reset_present E
     then run_cmds
       [check (reset_ready E),
        gpio_call E Reset_configure,
        act_cmd (Reset_set True), act_cmd (Sleep_us 250),
        act_cmd (Reset_set False), act_cmd (Sleep_ms 20)]
     else run_cmds [])"

definition lan9250_init :: "lan_env \<Rightarrow> lan cmd" where
  "lan9250_init E = run_cmds
    [check (spi_ready E), check (gpio_ready E),
     gpio_call E Gpio_configure, gpio_call E Gpio_callback, gpio_call E Gpio_interrupt,
     hard_reset E,
     lan9250_sw_reset E,
     lan9250_configure E,
     update (\<lambda>s. act Mac_load (s\<lparr>mac_address := mac_load E (mac_address s)\<rparr>)),
     update (lan9250_load_unique_mac_address E),
     lan9250_set_macaddr E,
     lan9250_1588_init E,
     lan9250_1588_timestamping_init E,
     lan9250_1588_enable E]"

section \<open>Telling transfers apart\<close>

text \<open>The byte-order helpers of Zephyr do what their names say.\<close>

definition byte_order :: "lan_env \<Rightarrow> bool" where
  "byte_order E \<longleftrightarrow>
    (\<forall>w. sys_put_be16 E w = [ucast (drop_bit 8 w), ucast w]) \<and>
    (\<forall>w. sys_put_le32 E w =
       [ucast w, ucast (drop_bit 8 w), ucast (drop_bit 16 w), ucast (drop_bit 24 w)])"

text \<open>The register and value of a write, read back from its bytes.\<close>

fun written :: "ev \<Rightarrow> (u16 \<times> u32) option" where
  "written (Spi [i, a, b, c, d, e, f] 0) =
    (if i = LAN9250_SPI_INSTR_WRITE
     then Some (push_bit 8 (ucast a) OR ucast b,
       ucast c OR push_bit 8 (ucast d) OR push_bit 16 (ucast e) OR push_bit 24 (ucast f))
     else None)"
| "written _ = None"

lemma be16_bytes: "push_bit 8 (ucast (ucast (drop_bit 8 w) :: u8)) OR ucast (ucast w :: u8) = (w :: u16)"
  by (rule bit_word_eqI) (auto simp: bit_simps)

lemma le32_bytes:
  "ucast (ucast w :: u8) OR push_bit 8 (ucast (ucast (drop_bit 8 w) :: u8)) OR
     push_bit 16 (ucast (ucast (drop_bit 16 w) :: u8)) OR
     push_bit 24 (ucast (ucast (drop_bit 24 w) :: u8)) = (w :: u32)" (is "?l = w")
proof (rule bit_word_eqI)
  fix n assume "n < LENGTH(32)"
  then consider "n < 8" | "8 \<le> n" "n < 16" | "16 \<le> n" "n < 24" | "24 \<le> n" "n < 32" by fastforce
  then show "bit ?l n = bit w n"
    by cases (auto simp: bit_simps)
qed

lemma written_write [simp]: "byte_order E \<Longrightarrow> written (spi_write E a d) = Some (a, d)"
  by (simp add: spi_write_def byte_order_def be16_bytes le32_bytes)

lemma written_read [simp]: "byte_order E \<Longrightarrow> written (spi_read E a) = None"
  by (simp add: spi_read_def byte_order_def)

section \<open>The 1588 unit is enabled last\<close>

text \<open>Any event but the write that enables the unit.\<close>

definition not_enable :: "ev \<Rightarrow> bool" where
  "not_enable e \<longleftrightarrow> written e \<noteq> Some (LAN9250_1588_CMD_CTL, LAN9250_1588_CMD_CTL_ENABLE)"

lemma not_enable_write [simp]:
  "byte_order E \<Longrightarrow> not_enable (spi_write E a d) \<longleftrightarrow>
     \<not> (a = LAN9250_1588_CMD_CTL \<and> d = LAN9250_1588_CMD_CTL_ENABLE)"
  by (simp add: not_enable_def)

lemma not_enable_read [simp]: "byte_order E \<Longrightarrow> not_enable (spi_read E a)"
  by (simp add: not_enable_def)

lemma not_enable_other [simp]:
  "not_enable (Busy_wait n)" "not_enable (Sleep_ms n)" "not_enable (Sleep_us n)"
  "not_enable (Lock l)" "not_enable (Unlock l)" "not_enable (Reset_set b)"
  "not_enable Gpio_configure" "not_enable Gpio_callback" "not_enable Gpio_interrupt"
  "not_enable Reset_configure" "not_enable Mac_load"
  by (simp_all add: not_enable_def)

lemma not_enable_indirect: "byte_order E \<Longrightarrow> indirect_ok E not_enable"
  by (simp add: indirect_ok_def dev_eval)

text \<open>Commands that also change the runtime struct: the trace alone.\<close>

definition adds :: "(ev \<Rightarrow> bool) \<Rightarrow> lan cmd \<Rightarrow> bool" where
  "adds P m \<longleftrightarrow> (\<forall>s r t. m s = Some (r, t) \<longrightarrow>
     (\<exists>new. trace t = new @ trace s \<and> list_all P new))"

lemma adds_emits: "emits P m \<Longrightarrow> adds P m"
  unfolding adds_def emits_def extends_def by fastforce

lemma adds_then: "adds P m \<Longrightarrow> adds P n \<Longrightarrow> adds P (then_ok m n)"
  unfolding adds_def then_ok_def
  by (auto simp: bind_eq_Some_conv split: if_splits) (metis append.assoc list_all_append)

lemma adds_run: "list_all (adds P) ms \<Longrightarrow> adds P (run_cmds ms)"
proof (induction ms rule: induct_list012)
  case (3 m n ms)
  have "run_cmds (m # n # ms) = then_ok m (run_cmds (n # ms))" by (rule run_cmds_fun)
  with 3 show ?case by (simp add: adds_then)
qed (simp_all add: adds_def)

lemma emits_check [emits_rules]: "emits P (check b)"
  by (simp add: emits_def check_def)

lemma emits_gpio [emits_rules]: "P e \<Longrightarrow> emits P (gpio_call E e)"
  by (simp add: emits_def gpio_call_def Let_def extends_act)

lemma hw_cfg_loop_extends:
  assumes "hw_cfg_loop E s = Some r"
  shows "P (spi_read E LAN9250_HW_CFG) \<longrightarrow> P (Busy_wait 1000) \<longrightarrow> extends P s (snd r)"
proof (rule hw_cfg_loop.raw_induct [where P = "\<lambda>E s r.
    P (spi_read E LAN9250_HW_CFG) \<longrightarrow> P (Busy_wait 1000) \<longrightarrow> extends P s (snd r)", OF _ assms], intro impI)
  fix w E s r
  assume IH: "\<And>E s r. w E s = Some r \<Longrightarrow>
      P (spi_read E LAN9250_HW_CFG) \<longrightarrow> P (Busy_wait 1000) \<longrightarrow> extends P s (snd r)"
    and step: "do {
     (ret, tmp, s1) \<leftarrow> lan9250_read_sys_reg E LAN9250_HW_CFG s;
     if ret < 0 then Some (ret, s1)
     else let s2 = act (Busy_wait 1000) s1
          in if tmp AND 0x08000000 = 0 then w E s2 else Some (0, s2)
   } = Some r"
    and P: "P (spi_read E LAN9250_HW_CFG)" "P (Busy_wait 1000)"
  obtain ret tmp s1 where rd: "lan9250_read_sys_reg E LAN9250_HW_CFG s = Some (ret, tmp, s1)"
    by (simp add: lan9250_read_sys_reg_def Let_def)
  then have s1: "extends P s s1" using emits_read [of P E] P by (auto simp: emits_q_def)
  have s2: "extends P s (act (Busy_wait 1000) s1)"
    using s1 extends_act [of P, OF P(2)] by (rule extends_trans)
  have "w E (act (Busy_wait 1000) s1) = Some r \<or> snd r = s1 \<or> snd r = act (Busy_wait 1000) s1"
    using step rd by (auto simp: Let_def split: if_splits)
  then show "extends P s (snd r)"
  proof (elim disjE)
    assume "w E (act (Busy_wait 1000) s1) = Some r"
    with IH P have "extends P (act (Busy_wait 1000) s1) (snd r)" by blast
    with s2 show ?thesis by (rule extends_trans)
  qed (simp_all add: s1 s2)
qed

lemma emits_hw_cfg [emits_rules]:
  "P (spi_read E LAN9250_HW_CFG) \<Longrightarrow> P (Busy_wait 1000) \<Longrightarrow> emits P (lan9250_hw_cfg_check E)"
  unfolding emits_def lan9250_hw_cfg_check_def using hw_cfg_loop_extends by (metis snd_conv)

lemma emits_locked [emits_rules]:
  "P (Lock l) \<Longrightarrow> P (Unlock l) \<Longrightarrow> emits P m \<Longrightarrow> emits P (locked l m)"
  unfolding emits_def locked_def
  by (auto simp: bind_eq_Some_conv) (blast intro: extends_trans extends_act)

lemma emits_set_macaddr [emits_rules]:
  assumes "indirect_ok E P"
  shows "emits P (lan9250_set_macaddr E)"
proof -
  have "emits P (run_cmds [lan9250_write_mac_reg E a d, lan9250_write_mac_reg E b c])" for a b c d
    using assms by (simp add: emits_rules)
  then show ?thesis unfolding emits_def lan9250_set_macaddr_def by blast
qed

lemma emits_check_id [emits_rules]: "P (spi_read E LAN9250_ID_REV) \<Longrightarrow> emits P (check_id E)"
  unfolding check_id_def by (intro emits_query emits_read) (simp_all add: emits_def)

lemma emits_configure:
  assumes "byte_order E"
  shows "emits not_enable (lan9250_configure E)"
  unfolding configure_parts
  using assms not_enable_indirect [OF assms]
  by (intro emits_run) (simp add: emits_rules dev_eval)

lemma emits_sw_reset:
  assumes "byte_order E"
  shows "emits not_enable (lan9250_sw_reset E)"
  unfolding lan9250_sw_reset_def
  using assms by (intro emits_run) (simp add: emits_rules dev_eval)

lemma emits_1588_init:
  assumes "byte_order E"
  shows "emits not_enable (lan9250_1588_init E)"
  unfolding lan9250_1588_init_def
  using assms by (intro emits_query emits_run emits_read) (simp_all add: emits_rules dev_eval)

lemma emits_timestamping_init:
  assumes "byte_order E"
  shows "emits not_enable (lan9250_1588_timestamping_init E)"
  unfolding lan9250_1588_timestamping_init_def lan9250_1588_bank_select_def
  using assms
  by (intro emits_locked emits_run) (simp_all add: emits_query emits_read emits_write dev_eval)

lemma emits_hard_reset: "emits not_enable (hard_reset E)"
  unfolding hard_reset_def by (simp add: emits_rules)

text \<open>Everything before the last step.\<close>

definition init_steps :: "lan_env \<Rightarrow> lan cmd list" where
  "init_steps E =
    [check (spi_ready E), check (gpio_ready E),
     gpio_call E Gpio_configure, gpio_call E Gpio_callback, gpio_call E Gpio_interrupt,
     hard_reset E,
     lan9250_sw_reset E,
     lan9250_configure E,
     update (\<lambda>s. act Mac_load (s\<lparr>mac_address := mac_load E (mac_address s)\<rparr>)),
     update (lan9250_load_unique_mac_address E),
     lan9250_set_macaddr E,
     lan9250_1588_init E,
     lan9250_1588_timestamping_init E]"

lemma adds_init_steps:
  assumes "byte_order E"
  shows "list_all (adds not_enable) (init_steps E)"
proof -
  have "adds not_enable (update (lan9250_load_unique_mac_address E))"
    by (auto simp: adds_def update_def lan9250_load_unique_mac_address_def Let_def split_beta)
  moreover have "adds not_enable (update (\<lambda>s. act Mac_load (s\<lparr>mac_address := mac_load E (mac_address s)\<rparr>)))"
    by (auto simp: adds_def update_def act_def)
  ultimately show ?thesis
    unfolding init_steps_def
    using assms emits_configure emits_sw_reset emits_1588_init emits_timestamping_init
      emits_hard_reset emits_set_macaddr [OF not_enable_indirect]
    by (simp add: adds_emits emits_check emits_gpio)
qed

lemma run_cmds_snoc: "ms \<noteq> [] \<Longrightarrow> run_cmds (ms @ [m]) = then_ok (run_cmds ms) m"
proof (induction ms rule: induct_list012)
  case (2 n)
  have "run_cmds [m] = m" by (rule run_cmds_fun)
  then show ?case by (intro ext) simp
next
  case (3 n k ms)
  have "run_cmds ((n # k # ms) @ [m]) = then_ok n (run_cmds ((k # ms) @ [m]))"
    by (rule ext) (cases ms; simp)
  also have "\<dots> = then_ok n (then_ok (run_cmds (k # ms)) m)" using 3(2) by simp
  also have "\<dots> = then_ok (then_ok n (run_cmds (k # ms))) m"
    by (rule ext) (auto simp: then_ok_def split: option.splits bind_splits)
  also have "then_ok n (run_cmds (k # ms)) = run_cmds (n # k # ms)"
    by (rule ext) simp
  finally show ?case .
qed simp

lemma init_snoc: "lan9250_init E = then_ok (run_cmds (init_steps E)) (lan9250_1588_enable E)"
proof -
  have "lan9250_init E = run_cmds (init_steps E @ [lan9250_1588_enable E])"
    by (simp add: lan9250_init_def init_steps_def)
  moreover have "init_steps E \<noteq> []" by (simp add: init_steps_def)
  ultimately show ?thesis by (simp only: run_cmds_snoc not_False_eq_True)
qed

section \<open>The writes of a successful configuration\<close>

text \<open>The register writes of a trace, oldest first. The commands that only fetch a MAC register
  are left out: their number depends on how long the chip is busy.\<close>

definition listed :: "ev \<Rightarrow> (u16 \<times> u32) list" where
  "listed e =
    (case written e of
       None \<Rightarrow> []
     | Some (a, d) \<Rightarrow>
         if a = LAN9250_MAC_CSR_CMD \<and> d AND LAN9250_MAC_CSR_CMD_READ \<noteq> 0 then [] else [(a, d)])"

definition writes :: "ev list \<Rightarrow> (u16 \<times> u32) list" where
  "writes h = concat (map listed (rev h))"

lemma writes_append: "writes (new @ h) = writes h @ writes new"
  by (simp add: writes_def)

lemma writes_Cons: "writes (e # h) = writes h @ listed e"
  by (simp add: writes_def)

text \<open>\<open>puts m ws\<close>: whenever \<open>m\<close> succeeds it has written \<open>ws\<close>.\<close>

definition puts :: "lan cmd \<Rightarrow> (u16 \<times> u32) list \<Rightarrow> bool" where
  "puts m ws \<longleftrightarrow> (\<forall>s r t. m s = Some (r, t) \<longrightarrow> 0 \<le> r \<longrightarrow>
     writes (trace t) = writes (trace s) @ ws)"

definition unlisted :: "ev \<Rightarrow> bool" where
  "unlisted e \<longleftrightarrow> listed e = []"

lemma unlisted_simps [simp]:
  "unlisted (Busy_wait n)" "unlisted (Sleep_ms n)" "byte_order E \<Longrightarrow> unlisted (spi_read E a)"
  by (simp_all add: unlisted_def listed_def)

lemma puts_none: "emits unlisted m \<Longrightarrow> puts m []"
proof -
  assume m: "emits unlisted m"
  have "writes new = []" if "list_all unlisted new" for new
    using that by (auto simp: writes_def unlisted_def list_all_iff)
  then show ?thesis using m
    by (fastforce simp: puts_def emits_def extends_def writes_append)
qed

lemma puts_write:
  "byte_order E \<Longrightarrow> a \<noteq> LAN9250_MAC_CSR_CMD \<or> d AND LAN9250_MAC_CSR_CMD_READ = 0 \<Longrightarrow>
     puts (lan9250_write_sys_reg E a d) [(a, d)]"
  by (auto simp: puts_def lan9250_write_sys_reg_def act_def Let_def writes_Cons listed_def)

lemma puts_then: "puts m ws \<Longrightarrow> puts n vs \<Longrightarrow> puts (then_ok m n) (ws @ vs)"
  unfolding puts_def
proof (intro allI impI)
  fix s r t
  assume m: "\<forall>s r t. m s = Some (r, t) \<longrightarrow> 0 \<le> r \<longrightarrow> writes (trace t) = writes (trace s) @ ws"
    and n: "\<forall>s r t. n s = Some (r, t) \<longrightarrow> 0 \<le> r \<longrightarrow> writes (trace t) = writes (trace s) @ vs"
    and run: "then_ok m n s = Some (r, t)" and r: "0 \<le> r"
  obtain q u where q: "m s = Some (q, u)" using run by (auto simp: then_ok_def bind_eq_Some_conv)
  with run r have "0 \<le> q" "n u = Some (r, t)" by (auto simp: then_ok_def split: if_splits)
  with m n q r show "writes (trace t) = writes (trace s) @ ws @ vs" by simp
qed

lemma puts_run: "list_all2 puts ms wss \<Longrightarrow> puts (run_cmds ms) (concat wss)"
proof (induction ms arbitrary: wss rule: induct_list012)
  case 1
  then show ?case by (simp add: puts_def)
next
  case (2 m)
  have "run_cmds [m] = m" by (rule run_cmds_fun)
  with 2 show ?case by (auto simp: list_all2_Cons1)
next
  case (3 m n ms)
  then obtain ws vss where w: "wss = ws # vss" "puts m ws" "list_all2 puts (n # ms) vss"
    by (auto simp: list_all2_Cons1)
  have "run_cmds (m # n # ms) = then_ok m (run_cmds (n # ms))" by (rule run_cmds_fun)
  moreover have "puts (run_cmds (n # ms)) (concat vss)" using 3(2) w(3) .
  ultimately show ?case using w by (simp add: puts_then)
qed

text \<open>An indirect register: the value, then the command that stores it.\<close>

definition mac_writes :: "u8 \<Rightarrow> u32 \<Rightarrow> (u16 \<times> u32) list" where
  [dev_eval]: "mac_writes a d =
    [(LAN9250_MAC_CSR_DATA, d), (LAN9250_MAC_CSR_CMD, ucast a OR LAN9250_MAC_CSR_CMD_BUSY)]"

definition phy_writes :: "u8 \<Rightarrow> u16 \<Rightarrow> (u16 \<times> u32) list" where
  [dev_eval]: "phy_writes a d = mac_writes LAN9250_HMAC_MII_DATA (ucast d) @
    mac_writes LAN9250_HMAC_MII_ACC (mii_select a OR LAN9250_HMAC_MII_ACC_MIIW_R)"

lemma no_read_bit: "(ucast (a :: u8) OR 0x80000000 :: u32) AND 0x40000000 = 0"
proof -
  have "(0x40000000 :: u32) = push_bit 30 1" "(0x80000000 :: u32) = push_bit 31 1" by simp_all
  then have b: "bit (0x40000000 :: u32) n \<longleftrightarrow> n = 30" "bit (0x80000000 :: u32) n \<longleftrightarrow> n = 31" for n
    by (simp_all only: bit_push_bit_iff bit_1_iff) auto
  have "\<not> bit (ucast a :: u32) 30" using bit_imp_le_length [of a 30] by (auto simp: bit_simps)
  then show ?thesis
    by (intro bit_word_eqI) (auto simp only: bit_and_iff bit_or_iff b bit_0_eq bot_fun_def bot_bool_def)
qed

lemma unlisted_read_cmd:
  "byte_order E \<Longrightarrow> unlisted (spi_write E LAN9250_MAC_CSR_CMD
     (ucast a OR LAN9250_MAC_CSR_CMD_BUSY OR LAN9250_MAC_CSR_CMD_READ))"
proof -
  assume "byte_order E"
  moreover have "((x OR y OR 0x40000000) AND 0x40000000 :: u32) = 0x40000000" for x y
    by (rule bit_word_eqI) (auto simp: bit_simps)
  ultimately show ?thesis
    by (simp add: unlisted_def listed_def LAN9250_MAC_CSR_CMD_READ_def)
qed

lemma emits_mac_ready: "byte_order E \<Longrightarrow> emits unlisted (mac_ready E)"
  unfolding mac_ready_def by (intro emits_wait_ready) simp_all

lemma puts_write_mac: "byte_order E \<Longrightarrow> puts (lan9250_write_mac_reg E a d) (mac_writes a d)"
proof -
  assume E: "byte_order E"
  have "list_all2 puts
     [mac_ready E, lan9250_write_sys_reg E LAN9250_MAC_CSR_DATA d,
      lan9250_write_sys_reg E LAN9250_MAC_CSR_CMD (ucast a OR LAN9250_MAC_CSR_CMD_BUSY), mac_ready E]
     [[], [(LAN9250_MAC_CSR_DATA, d)],
      [(LAN9250_MAC_CSR_CMD, ucast a OR LAN9250_MAC_CSR_CMD_BUSY)], []]"
    using no_read_bit puts_none [OF emits_mac_ready [OF E]] puts_write [OF E]
    by (simp add: dev_eval)
  from puts_run [OF this] show ?thesis by (simp add: lan9250_write_mac_reg_def mac_writes_def)
qed

lemma emits_read_mac_unlisted: "byte_order E \<Longrightarrow> emits_q unlisted (lan9250_read_mac_reg E a)"
proof -
  assume E: "byte_order E"
  let ?pre = "[mac_ready E, lan9250_write_sys_reg E LAN9250_MAC_CSR_CMD
      (ucast a OR LAN9250_MAC_CSR_CMD_BUSY OR LAN9250_MAC_CSR_CMD_READ), mac_ready E]"
  have pre: "emits unlisted (run_cmds ?pre)"
    using emits_mac_ready [OF E] emits_write [of unlisted, OF unlisted_read_cmd [OF E]]
    by (intro emits_run) simp
  have q: "emits_q unlisted (lan9250_read_sys_reg E LAN9250_MAC_CSR_DATA)"
    using E by (simp add: emits_read)
  show ?thesis
    using pre q unfolding emits_q_def emits_def lan9250_read_mac_reg_def
    by (auto simp: bind_eq_Some_conv split: if_splits) (blast intro: extends_trans)+
qed

lemma wait_mac_loop_unlisted:
  assumes "wait_mac_loop E a msk x f s = Some r"
  shows "byte_order E \<longrightarrow> extends unlisted s (snd r)"
proof (rule wait_mac_loop.raw_induct [where P = "\<lambda>E a msk x f s r.
    byte_order E \<longrightarrow> extends unlisted s (snd r)", OF _ assms], intro impI)
  fix w E a msk x f s r
  assume IH: "\<And>E a msk x f s r. w E a msk x f s = Some r \<Longrightarrow>
      byte_order E \<longrightarrow> extends unlisted s (snd r)"
    and step: "do {
     (ret, tmp, s1) \<leftarrow> lan9250_read_mac_reg E a s;
     if ret = 0 \<and> tmp AND msk = x then Some (0, s1)
     else if f \<le> uptime E (trace s1) then Some (- EIO, s1)
     else w E a msk x f (act (Sleep_ms 1) s1)
   } = Some r"
    and E: "byte_order E"
  obtain ret tmp s1 where rd: "lan9250_read_mac_reg E a s = Some (ret, tmp, s1)"
    using step by (auto simp: bind_eq_Some_conv)
  then have s1: "extends unlisted s s1"
    using emits_read_mac_unlisted [OF E, of a] by (auto simp: emits_q_def)
  have "extends unlisted s1 (act (Sleep_ms 1) s1)" by (rule extends_act) simp
  with s1 have s2: "extends unlisted s (act (Sleep_ms 1) s1)" by (rule extends_trans)
  have "w E a msk x f (act (Sleep_ms 1) s1) = Some r \<or> snd r = s1"
    using step rd by (auto split: if_splits)
  then show "extends unlisted s (snd r)"
  proof
    assume "w E a msk x f (act (Sleep_ms 1) s1) = Some r"
    with IH E have "extends unlisted (act (Sleep_ms 1) s1) (snd r)" by blast
    with s2 show ?thesis by (rule extends_trans)
  qed (simp add: s1)
qed

lemma emits_phy_ready: "byte_order E \<Longrightarrow> emits unlisted (phy_ready E)"
  unfolding emits_def phy_ready_def lan9250_wait_mac_ready_def
  using wait_mac_loop_unlisted by (metis snd_conv)

lemma puts_write_phy: "byte_order E \<Longrightarrow> puts (lan9250_write_phy_reg E a d) (phy_writes a d)"
proof -
  assume E: "byte_order E"
  have "list_all2 puts
     [phy_ready E, lan9250_write_mac_reg E LAN9250_HMAC_MII_DATA (ucast d),
      lan9250_write_mac_reg E LAN9250_HMAC_MII_ACC (mii_select a OR LAN9250_HMAC_MII_ACC_MIIW_R),
      phy_ready E]
     [[], mac_writes LAN9250_HMAC_MII_DATA (ucast d),
      mac_writes LAN9250_HMAC_MII_ACC (mii_select a OR LAN9250_HMAC_MII_ACC_MIIW_R), []]"
    using puts_none [OF emits_phy_ready [OF E]] puts_write_mac [OF E] by simp
  from puts_run [OF this] show ?thesis by (simp add: lan9250_write_phy_reg_def phy_writes_def)
qed

text \<open>The register contents \<open>lan9250_configure\<close> is to leave behind, in order.\<close>

definition configuration :: "(u16 \<times> u32) list" where
  [dev_eval]: "configuration =
    [(LAN9250_HW_CFG, 0x00180000), (LAN9250_AFC_CFG, 0x006E3741), (LAN9250_IRQ_CFG, 0x0A000101),
     (LAN9250_INT_EN, 0x04000008), (LAN9250_FIFO_INT, 0xFFFF0000), (LAN9250_RX_CFG, 0x06000400),
     (LAN9250_PMT_CTRL, 0x08000220)] @
    phy_writes 0x00 0x3100 @ phy_writes 0x04 0x0DE1 @ phy_writes 0x12 0x00E1 @
    phy_writes 0x1B 0xC800 @ phy_writes 0x1E 0x0210 @ phy_writes 0x1F 0x0040 @
    [(LAN9250_INT_STS, 0xFFFFFFFF)] @
    mac_writes LAN9250_HMAC_CR 0x0010210C @
    mac_writes LAN9250_HMAC_HASHL 0 @ mac_writes LAN9250_HMAC_HASHH 0 @
    [(LAN9250_TX_CFG, 2)]"

lemma puts_configure:
  assumes E: "byte_order E"
  shows "puts (lan9250_configure E) configuration"
proof -
  have "puts (lan9250_hw_cfg_check E) []" "puts (check_id E) []"
    using E by (intro puts_none emits_hw_cfg emits_check_id; simp)+
  then have "list_all2 puts (configure_system E @ configure_phy E @ configure_mac E)
    [[], [], [(LAN9250_HW_CFG, 0x00180000)], [(LAN9250_AFC_CFG, 0x006E3741)],
     [(LAN9250_IRQ_CFG, 0x0A000101)], [(LAN9250_INT_EN, 0x04000008)],
     [(LAN9250_FIFO_INT, 0xFFFF0000)], [(LAN9250_RX_CFG, 0x06000400)],
     [(LAN9250_PMT_CTRL, 0x08000220)], phy_writes 0x00 0x3100, phy_writes 0x04 0x0DE1,
     phy_writes 0x12 0x00E1, phy_writes 0x1B 0xC800, phy_writes 0x1E 0x0210,
     phy_writes 0x1F 0x0040, [(LAN9250_INT_STS, 0xFFFFFFFF)],
     mac_writes LAN9250_HMAC_CR 0x0010210C, mac_writes LAN9250_HMAC_HASHL 0,
     mac_writes LAN9250_HMAC_HASHH 0, [(LAN9250_TX_CFG, 2)]]"
    using puts_write [OF E] puts_write_phy [OF E] puts_write_mac [OF E]
    by (simp add: configure_system_def configure_phy_def configure_mac_def reg_bits BIT_def
        LAN9250_HW_CFG_def LAN9250_AFC_CFG_def LAN9250_IRQ_CFG_def LAN9250_INT_EN_def
        LAN9250_FIFO_INT_def LAN9250_RX_CFG_def LAN9250_PMT_CTRL_def LAN9250_INT_STS_def
        LAN9250_TX_CFG_def LAN9250_MAC_CSR_CMD_def)
  from puts_run [OF this] show ?thesis
    by (simp add: lan9250_configure_def configuration_def)
qed

section \<open>Bring-up returns\<close>

lemma returns_check [returns_rules]: "returns (check b)"
  by (simp add: returns_def check_def)

lemma returns_gpio [returns_rules]: "returns (gpio_call E e)"
  by (simp add: returns_def gpio_call_def Let_def)

lemma returns_update [returns_rules]: "returns (update f)"
  by (simp add: returns_def update_def)

lemma returns_locked [returns_rules]: "returns m \<Longrightarrow> returns (locked l m)"
  unfolding returns_def
proof
  fix s
  assume "\<forall>s. \<exists>r t. m s = Some (r, t)"
  then obtain r t where "m (act (Lock l) s) = Some (r, t)" by blast
  then show "\<exists>r t. locked l m s = Some (r, t)" by (simp add: locked_def)
qed

text \<open>However often it was asked before, the device is ready, or its bus fails, after some more
  polls.\<close>

definition gets_ready :: "lan_env \<Rightarrow> bool" where
  "gets_ready E \<longleftrightarrow> (\<forall>h. \<exists>n.
     let g = spi_read E LAN9250_HW_CFG #
       concat (replicate n [Busy_wait 1000, spi_read E LAN9250_HW_CFG]) @ h
     in spi_ret E g < 0 \<or> le32 (spi_rx E g) AND 0x08000000 \<noteq> 0)"

lemma hw_cfg_loop_returns:
  "(let g = spi_read E LAN9250_HW_CFG #
       concat (replicate n [Busy_wait 1000, spi_read E LAN9250_HW_CFG]) @ trace s
     in spi_ret E g < 0 \<or> le32 (spi_rx E g) AND 0x08000000 \<noteq> 0) \<Longrightarrow>
   \<exists>r t. hw_cfg_loop E s = Some (r, t)"
proof (induction n arbitrary: s)
  case 0
  then show ?case
    by (subst hw_cfg_loop.simps) (auto simp: lan9250_read_sys_reg_def act_def Let_def)
next
  case (Suc n)
  let ?u = "act (Busy_wait 1000) (act (spi_read E LAN9250_HW_CFG) s)"
  have "concat (replicate (Suc n) [Busy_wait 1000, spi_read E LAN9250_HW_CFG]) @ trace s =
      concat (replicate n [Busy_wait 1000, spi_read E LAN9250_HW_CFG]) @ trace ?u"
    by (induction n) (simp_all add: act_def)
  with Suc have "\<exists>r t. hw_cfg_loop E ?u = Some (r, t)" by (simp add: Let_def)
  then show ?case
    by (subst hw_cfg_loop.simps) (simp add: lan9250_read_sys_reg_def Let_def)
qed

lemma returns_hw_cfg: "gets_ready E \<Longrightarrow> returns (lan9250_hw_cfg_check E)"
  unfolding returns_def lan9250_hw_cfg_check_def gets_ready_def
  using hw_cfg_loop_returns by blast

lemma returns_check_id: "returns (check_id E)"
  unfolding check_id_def
  by (intro returns_query returns_read) (simp add: returns_def)

lemma returns_configure: "clock_runs E \<Longrightarrow> gets_ready E \<Longrightarrow> returns (lan9250_configure E)"
  unfolding configure_parts
  by (intro returns_run)
    (simp add: returns_hw_cfg returns_check_id returns_write returns_write_phy returns_write_mac)

lemma returns_set_macaddr: "clock_runs E \<Longrightarrow> returns (lan9250_set_macaddr E)"
proof -
  assume "clock_runs E"
  then have "returns (run_cmds [lan9250_write_mac_reg E a d, lan9250_write_mac_reg E b c])" for a b c d
    by (intro returns_run) (simp add: returns_write_mac)
  then show ?thesis unfolding returns_def lan9250_set_macaddr_def by blast
qed

lemma returns_init_steps:
  assumes "clock_runs E" "gets_ready E"
  shows "list_all returns (init_steps E)"
proof -
  have "returns (hard_reset E)"
    unfolding hard_reset_def by (simp add: returns_run returns_check returns_gpio returns_act)
  moreover have "returns (lan9250_sw_reset E)"
    using assms unfolding lan9250_sw_reset_def
    by (intro returns_run) (simp add: returns_write returns_wait_ready)
  moreover have "returns (lan9250_1588_init E)"
    unfolding lan9250_1588_init_def
    by (intro returns_query returns_read returns_run) (simp add: returns_write)
  moreover have "returns (lan9250_1588_timestamping_init E)"
    unfolding lan9250_1588_timestamping_init_def lan9250_1588_bank_select_def
    by (intro returns_locked returns_run) (simp add: returns_write returns_query returns_read)
  ultimately show ?thesis
    using returns_configure [OF assms] returns_set_macaddr [OF assms(1)]
    by (simp add: init_steps_def returns_check returns_gpio returns_update)
qed

section \<open>Properties\<close>

text \<open>
  C28: The 1588 unit is enabled last. On every path through \<open>lan9250_init\<close>, error exits included,
  the write that enables the unit, after which most of its configuration must not change, happens
  at most once; if it happens it is the last thing \<open>lan9250_init\<close> does, and \<open>lan9250_init\<close> does not
  succeed without it.
\<close>

theorem init_enables_last:
  assumes "byte_order E" "lan9250_init E s = Some (r, t)"
  shows "\<exists>new. list_all not_enable new \<and>
    (trace t = new @ trace s \<and> r < 0 \<or>
     trace t = spi_write E LAN9250_1588_CMD_CTL LAN9250_1588_CMD_CTL_ENABLE # new @ trace s)"
proof -
  obtain q u where u: "run_cmds (init_steps E) s = Some (q, u)"
    using assms(2) by (auto simp: init_snoc then_ok_def bind_eq_Some_conv)
  obtain new where new: "trace u = new @ trace s" "list_all not_enable new"
    using adds_run [OF adds_init_steps [OF assms(1)]] u unfolding adds_def by blast
  show ?thesis
  proof (cases "q < 0")
    case True
    with assms(2) u have "r < 0" "t = u" by (simp_all add: init_snoc then_ok_def)
    with new show ?thesis by blast
  next
    case False
    with assms(2) u have "t = act (spi_write E LAN9250_1588_CMD_CTL LAN9250_1588_CMD_CTL_ENABLE) u"
      by (simp add: init_snoc then_ok_def lan9250_1588_enable_def lan9250_write_sys_reg_def Let_def)
    with new show ?thesis by (auto simp: act_def)
  qed
qed

lemma calm_byte_order: "byte_order calm"
  by (simp add: byte_order_def calm_def)

text \<open>A chip whose registers read as the byte-test value with the ready bit.\<close>

definition ready_chip :: lan_env where
  "ready_chip = calm\<lparr>spi_rx := \<lambda>h. [0, 0, 0x50, 0x9A]\<rparr>"

lemma ready_chip_ok: "byte_order ready_chip" "clock_runs ready_chip" "gets_ready ready_chip"
proof -
  show "byte_order ready_chip" "clock_runs ready_chip"
    by (simp_all add: ready_chip_def byte_order_def calm_def clock_runs_def)
  show "gets_ready ready_chip"
    by (auto simp: gets_ready_def ready_chip_def le32_def Let_def)
qed

lemma lan9250_init_returns:
  "clock_runs E \<Longrightarrow> gets_ready E \<Longrightarrow> \<exists>r t. lan9250_init E s = Some (r, t)"
  using returns_then [OF returns_run [OF returns_init_steps] returns_write]
  unfolding init_snoc lan9250_1588_enable_def returns_def by blast

lemma init_enables_last_witness:
  "\<exists>r t new. lan9250_init ready_chip lan0 = Some (r, t) \<and> list_all not_enable new \<and>
    (trace t = new \<or>
     trace t = spi_write ready_chip LAN9250_1588_CMD_CTL LAN9250_1588_CMD_CTL_ENABLE # new)"
proof -
  obtain r t where i: "lan9250_init ready_chip lan0 = Some (r, t)"
    using lan9250_init_returns ready_chip_ok(2,3) by blast
  show ?thesis using init_enables_last [OF ready_chip_ok(1) i] i by (auto simp: lan0_def)
qed

text \<open>
  Bring-up returns. If the kernel's clock runs and the chip reports its ready bit after some
  polls (or its bus fails), \<open>lan9250_init\<close> returns: all its other waits have time-outs.
\<close>

lemma init_returns:
  assumes "clock_runs E" "gets_ready E"
  shows "\<exists>r t. lan9250_init E s = Some (r, t)"
  using assms by (rule lan9250_init_returns)

lemma init_returns_example: "\<exists>r t. lan9250_init ready_chip lan0 = Some (r, t)"
  using ready_chip_ok(2,3) by (rule init_returns)

text \<open>
  The one wait without a time-out. If transfers work and the ready bit of \<open>HW_CFG\<close> never
  comes, \<open>lan9250_hw_cfg_check\<close> polls forever, and with it the boot of the system.
\<close>

lemma hw_cfg_check_hangs:
  assumes "\<forall>h. spi_ret E h = 0 \<and> le32 (spi_rx E h) AND 0x08000000 = 0"
  shows "lan9250_hw_cfg_check E s = None"
proof -
  have "\<not> (\<forall>h. spi_ret E h = 0 \<and> le32 (spi_rx E h) AND 0x08000000 = 0)"
    if "hw_cfg_loop E s = Some r" for r
  proof (rule hw_cfg_loop.raw_induct [where P = "\<lambda>E s r.
      \<not> (\<forall>h. spi_ret E h = 0 \<and> le32 (spi_rx E h) AND 0x08000000 = 0)", OF _ that], rule notI)
    fix w E s r
    assume IH: "\<And>E s r. w E s = Some r \<Longrightarrow>
        \<not> (\<forall>h. spi_ret E h = 0 \<and> le32 (spi_rx E h) AND 0x08000000 = 0)"
      and step: "do {
       (ret, tmp, s1) \<leftarrow> lan9250_read_sys_reg E LAN9250_HW_CFG s;
       if ret < 0 then Some (ret, s1)
       else let s2 = act (Busy_wait 1000) s1
            in if tmp AND 0x08000000 = 0 then w E s2 else Some (0, s2)
     } = Some r"
      and never: "\<forall>h. spi_ret E h = 0 \<and> le32 (spi_rx E h) AND 0x08000000 = 0"
    have "w E (act (Busy_wait 1000) (act (spi_read E LAN9250_HW_CFG) s)) = Some r"
      using step never by (simp add: lan9250_read_sys_reg_def Let_def)
    with IH never show False by blast
  qed
  with assms show ?thesis unfolding lan9250_hw_cfg_check_def by (cases "hw_cfg_loop E s") blast+
qed

lemma hw_cfg_check_hangs_witness: "lan9250_hw_cfg_check calm lan0 = None"
  by (rule hw_cfg_check_hangs) (simp add: calm_def le32_def)

text \<open>
  C29: A successful configuration leaves exactly the intended register contents. When
  \<open>lan9250_configure\<close> succeeds, the registers it has written, MAC and PHY registers through their
  indirect interface included, are those of \<open>configuration\<close>, each once and in this order: among
  them the ready-made RX offset, the interrupt sources, Hash Perfect filtering with an empty
  hash table and the pass-all-multicast bit clear (the document and the head of the file still say it
  is set), and last of all the transmitter.
\<close>

theorem configure_writes:
  assumes "byte_order E" "lan9250_configure E s = Some (r, t)" "0 \<le> r"
  shows "writes (trace t) = writes (trace s) @ configuration"
  using puts_configure [OF assms(1)] assms(2,3) unfolding puts_def by blast

text \<open>A chip that passes: every register reads with its expected value.\<close>

definition good_chip :: lan_env where
  "good_chip = calm\<lparr>spi_rx := \<lambda>h. (case h of
     Spi [i, a, b] n # _ \<Rightarrow>
       (if b = 0x50 then [0, 0, 0x50, 0x92] else if b = 0x74 then [0, 0, 0, 8]
        else if b = 0x64 then [0x21, 0x43, 0x65, 0x87] else [0, 0, 0, 0])
   | _ \<Rightarrow> [0, 0, 0, 0]), PROMISCUOUS_MODE := True\<rparr>"

definition succeeds :: "lan cmd \<Rightarrow> bool" where
  "succeeds m \<longleftrightarrow> (\<forall>s. \<exists>t. m s = Some (0, t))"

lemma succeeds_run: "list_all succeeds ms \<Longrightarrow> succeeds (run_cmds ms)"
proof (induction ms rule: induct_list012)
  case (3 m n ms)
  show ?case unfolding succeeds_def
  proof
    fix s
    have "succeeds m" "succeeds (run_cmds (n # ms))" using 3(2,3) by simp_all
    then obtain t u where "m s = Some (0, t)" "run_cmds (n # ms) t = Some (0, u)"
      unfolding succeeds_def by blast
    then show "\<exists>u. run_cmds (m # n # ms) s = Some (0, u)" by (simp add: then_ok_def)
  qed
qed (simp_all add: succeeds_def)

lemma good_chip_write: "succeeds (lan9250_write_sys_reg good_chip a d)"
  by (simp add: succeeds_def lan9250_write_sys_reg_def Let_def good_chip_def calm_def)

lemma good_chip_read:
  "lan9250_read_sys_reg good_chip a s = Some (0, le32 (let b = ucast a :: u8 in
     if b = 0x50 then [0, 0, 0x50, 0x92] else if b = 0x74 then [0, 0, 0, 8]
     else if b = 0x64 then [0x21, 0x43, 0x65, 0x87] else [0, 0, 0, 0]), act (spi_read good_chip a) s)"
  by (simp add: lan9250_read_sys_reg_def Let_def good_chip_def calm_def spi_read_def act_def)

lemma good_chip_wait:
  "le32 (let b = ucast a :: u8 in
     if b = 0x50 then [0, 0, 0x50, 0x92] else if b = 0x74 then [0, 0, 0, 8]
     else if b = 0x64 then [0x21, 0x43, 0x65, 0x87] else [0, 0, 0, 0]) AND msk = x \<Longrightarrow>
   succeeds (lan9250_wait_ready good_chip a msk x n)"
  by (simp add: succeeds_def lan9250_wait_ready_def wait_ready_loop.simps good_chip_read)

lemma good_chip_mac_ready: "succeeds (mac_ready good_chip)"
  unfolding mac_ready_def by (rule good_chip_wait) (simp add: dev_eval le32_def)

lemma good_chip_write_mac: "succeeds (lan9250_write_mac_reg good_chip a d)"
  unfolding lan9250_write_mac_reg_def
  by (rule succeeds_run) (simp add: good_chip_mac_ready good_chip_write)

lemma good_chip_read_mac: "\<exists>t. lan9250_read_mac_reg good_chip a s = Some (0, 0, t)"
proof -
  have "succeeds (run_cmds [mac_ready good_chip,
      lan9250_write_sys_reg good_chip LAN9250_MAC_CSR_CMD
        (ucast a OR LAN9250_MAC_CSR_CMD_BUSY OR LAN9250_MAC_CSR_CMD_READ), mac_ready good_chip])"
    by (rule succeeds_run) (simp add: good_chip_mac_ready good_chip_write)
  then obtain t where "run_cmds [mac_ready good_chip,
      lan9250_write_sys_reg good_chip LAN9250_MAC_CSR_CMD
        (ucast a OR LAN9250_MAC_CSR_CMD_BUSY OR LAN9250_MAC_CSR_CMD_READ), mac_ready good_chip] s
      = Some (0, t)"
    unfolding succeeds_def by blast
  then show ?thesis
    by (simp add: lan9250_read_mac_reg_def good_chip_read LAN9250_MAC_CSR_DATA_def le32_def)
qed

lemma good_chip_phy_ready: "succeeds (phy_ready good_chip)"
  unfolding succeeds_def
proof
  fix s
  obtain t where "lan9250_read_mac_reg good_chip LAN9250_HMAC_MII_ACC s = Some (0, 0, t)"
    using good_chip_read_mac by blast
  then show "\<exists>t. phy_ready good_chip s = Some (0, t)"
    by (simp add: phy_ready_def lan9250_wait_mac_ready_def wait_mac_loop.simps)
qed

lemma good_chip_write_phy: "succeeds (lan9250_write_phy_reg good_chip a d)"
  unfolding lan9250_write_phy_reg_def
  by (rule succeeds_run) (simp add: good_chip_phy_ready good_chip_write_mac)

lemma good_chip_ready: "succeeds (lan9250_hw_cfg_check good_chip)"
  by (simp add: succeeds_def lan9250_hw_cfg_check_def hw_cfg_loop.simps good_chip_read
      LAN9250_HW_CFG_def le32_def)

lemma good_chip_id: "succeeds (check_id good_chip)"
  by (simp add: succeeds_def check_id_def query_ok_def good_chip_read LAN9250_ID_REV_def le32_def reg_bits)

lemma good_chip_configures: "succeeds (lan9250_configure good_chip)"
  unfolding configure_parts
  by (rule succeeds_run)
    (simp add: good_chip_ready good_chip_id good_chip_write good_chip_write_phy good_chip_write_mac)

lemma configure_writes_witness:
  "\<exists>t. lan9250_configure good_chip lan0 = Some (0, t) \<and> writes (trace t) = configuration"
proof -
  obtain t where t: "lan9250_configure good_chip lan0 = Some (0, t)"
    using good_chip_configures unfolding succeeds_def by blast
  have "byte_order good_chip" by (simp add: good_chip_def byte_order_def calm_def)
  from configure_writes [OF this t] t show ?thesis by (simp add: lan0_def writes_def)
qed

text \<open>
  The station address is one the driver may give itself. When the device id has six bytes or
  more, the address \<open>lan9250_load_unique_mac_address\<close> stores is unicast and locally administered,
  and ends in the last five bytes of the device id; else the address stays as it was.
\<close>

lemma unique_mac_address:
  assumes "hwinfo_device_id E = (int (length hw_id), hw_id)"
  shows "if length hw_id < 6 then lan9250_load_unique_mac_address E ctx = ctx
    else let mac = mac_address (lan9250_load_unique_mac_address E ctx)
      in length mac = 6 \<and> \<not> bit (mac ! 0) 0 \<and> bit (mac ! 0) 1 \<and>
        (\<forall>i<5. mac ! (i + 1) = hw_id ! (length hw_id - 5 + i))"
proof (cases "length hw_id < 6")
  case True
  then show ?thesis using assms by (simp add: lan9250_load_unique_mac_address_def)
next
  case False
  have n: "nat (int (length hw_id) - 6) = length hw_id - 6" by linarith
  have "\<not> bit ((x AND NOT 1) OR 2 :: u8) 0" "bit ((x AND NOT 1) OR 2 :: u8) 1" for x
    by (simp_all add: bit_simps)
  then show ?thesis
    using False assms
    by (auto simp: lan9250_load_unique_mac_address_def n Let_def add.commute
      intro!: arg_cong [where f = "nth hw_id"])
qed

lemma unique_mac_address_example:
  "mac_address (lan9250_load_unique_mac_address calm lan0) = [2, 4, 5, 6, 7, 8] \<and>
   \<not> bit (mac_address (lan9250_load_unique_mac_address calm lan0) ! 0) 0"
proof -
  have "hwinfo_device_id calm = (int (length [1, 2, 3, 4, 5, 6, 7, 8 :: u8]), [1, 2, 3, 4, 5, 6, 7, 8])"
    by (simp add: calm_def)
  from unique_mac_address [OF this, of lan0] show ?thesis
    by (simp add: lan9250_load_unique_mac_address_def calm_def Let_def)
qed

end
