(* ===== verification/Ptp_Parse.thy ===== *)
theory Ptp_Parse
  imports Lan_Bus
begin

text \<open>
  Finding the PTP header in an Ethernet frame (\<open>lan9250_ptp_parse_header\<close> in
  \<open>drivers/eth_lan9250/eth_lan9250.c\<close>). A read outside the frame is the value \<open>None\<close>, so that the
  parser's bounds checks are part of what is proved; a frame that is not PTP is \<open>Some None\<close>.
\<close>

section \<open>The parser\<close>

definition byte_at :: "u8 list \<Rightarrow> nat \<Rightarrow> u8 option" where
  "byte_at frame i = (if i < length frame then Some (frame ! i) else None)"

definition be16_at :: "lan_env \<Rightarrow> u8 list \<Rightarrow> nat \<Rightarrow> u16 option" where
  "be16_at E frame i =
    (if i + 1 < length frame then Some (sys_get_be16 E (take 2 (drop i frame))) else None)"

type_synonym ptp_id = "u8 \<times> u16"     \<comment> \<open>message type and sequence id\<close>

definition ptp_common :: "lan_env \<Rightarrow> u8 list \<Rightarrow> nat \<Rightarrow> ptp_id option option" where
  "ptp_common E frame ptp_off =
    (if length frame < ptp_off + 32 then Some None
     else do {
       b \<leftarrow> byte_at frame ptp_off;
       seq_id \<leftarrow> be16_at E frame (ptp_off + 30);
       Some (Some (b AND 0x0F, seq_id))
     })"

definition lan9250_ptp_parse_header :: "lan_env \<Rightarrow> u8 list \<Rightarrow> ptp_id option option" where
  "lan9250_ptp_parse_header E frame =
    (if length frame < 14 then Some None
     else do {
       ethertype \<leftarrow> be16_at E frame 12;
       if ethertype = 0x88F7 then ptp_common E frame 14
       else if ethertype = 0x0800 then
         if length frame < 15 then Some None
         else do {
           b \<leftarrow> byte_at frame 14;
           let ihl = unat (b AND 0x0F) * 4;
           if ihl < 20 \<or> length frame < 14 + ihl + 8 then Some None
           else do {
             proto \<leftarrow> byte_at frame (14 + 9);
             if proto \<noteq> 0x11 then Some None
             else do {
               let udp_off = 14 + ihl;
               port \<leftarrow> be16_at E frame (udp_off + 2);
               if port \<noteq> 319 \<and> port \<noteq> 320 then Some None else ptp_common E frame (udp_off + 8)
             }
           }
         }
       else Some None
     })"

section \<open>What the parser is to find\<close>

definition be16 :: "u16 \<Rightarrow> u8 list" where
  "be16 w = [ucast (drop_bit 8 w), ucast w]"

text \<open>Zephyr's \<open>sys_get_be16\<close> reads two bytes, the high one first.\<close>

definition reads_be16 :: "lan_env \<Rightarrow> bool" where
  "reads_be16 E \<longleftrightarrow> (\<forall>w. sys_get_be16 E (be16 w) = w)"

text \<open>The frames with a PTP header, by their layout: PTP on Ethernet, or on UDP over IPv4 with
  options or without, to the event or the general port.\<close>

definition ptp_header :: "ptp_id \<Rightarrow> u8 list \<Rightarrow> bool" where
  "ptp_header k h \<longleftrightarrow> (\<exists>b mid. h = b # mid @ be16 (snd k) \<and> length mid = 29 \<and> fst k = b AND 0x0F)"

inductive carries :: "u8 list \<Rightarrow> ptp_id \<Rightarrow> bool" where
  on_ethernet: "length macs = 12 \<Longrightarrow> ptp_header k h \<Longrightarrow>
    carries (macs @ be16 0x88F7 @ h @ rest) k"
| on_udp: "length macs = 12 \<Longrightarrow> length ip = 4 * unat (ip ! 0 AND 0x0F) \<Longrightarrow> 20 \<le> length ip \<Longrightarrow>
    ip ! 9 = 0x11 \<Longrightarrow> port = 319 \<or> port = 320 \<Longrightarrow> length sport = 2 \<Longrightarrow> length csum = 4 \<Longrightarrow>
    ptp_header k h \<Longrightarrow>
    carries (macs @ be16 0x0800 @ ip @ sport @ be16 port @ csum @ h @ rest) k"

lemma length_be16 [simp]: "length (be16 w) = 2"
  by (simp add: be16_def)

lemma be16_eq: "length xs = 2 \<Longrightarrow> \<exists>w. xs = be16 w"
proof -
  assume "length xs = 2"
  then obtain a b where xs: "xs = [a, b]"
    by (metis (no_types) One_nat_def Suc_1 length_0_conv length_Suc_conv)
  let ?w = "push_bit 8 (ucast a) OR ucast b :: u16"
  have hi: "\<not> bit b (8 + n)" for n using bit_imp_le_length [of b "8 + n"] by auto
  have lo: "n < 16" if "bit b n" for n using bit_imp_le_length [OF that] by simp
  have "ucast (drop_bit 8 ?w) = a" "ucast ?w = b"
    by (auto intro!: bit_word_eqI simp: bit_simps hi dest: lo)
  with xs have "xs = be16 ?w" by (simp add: be16_def)
  then show ?thesis by blast
qed

lemma be16_at_split:
  assumes "reads_be16 E" "length pre = i"
  shows "be16_at E (pre @ be16 w @ rest) i = Some w"
  using assms by (simp add: be16_at_def reads_be16_def be16_def)

lemma be16_at_Some:
  assumes "reads_be16 E" "i + 1 < length frame"
  obtains w where "be16_at E frame i = Some w" "frame = take i frame @ be16 w @ drop (i + 2) frame"
proof -
  have "length (take 2 (drop i frame)) = 2" using assms(2) by simp
  then obtain w where w: "take 2 (drop i frame) = be16 w" using be16_eq by blast
  have "frame = take i frame @ take 2 (drop i frame) @ drop (i + 2) frame"
    by (metis add.commute append_take_drop_id drop_drop)
  moreover have "be16_at E frame i = Some w"
    using assms by (simp add: be16_at_def w reads_be16_def)
  ultimately show thesis using that w by simp
qed

lemma ptp_common_finds:
  assumes "reads_be16 E" "length pre = off" "ptp_header k h"
  shows "ptp_common E (pre @ h @ rest) off = Some (Some k)"
proof -
  obtain b mid where h: "h = b # mid @ be16 (snd k)" "length mid = 29" "fst k = b AND 0x0F"
    using assms(3) by (auto simp: ptp_header_def)
  have "be16_at E ((pre @ b # mid) @ be16 (snd k) @ rest) (off + 30) = Some (snd k)"
    using assms(1) by (rule be16_at_split) (simp add: assms(2) h(2))
  moreover have "byte_at (pre @ h @ rest) off = Some b"
    using assms(2) by (auto simp: byte_at_def h nth_append)
  ultimately show ?thesis
    using h assms(2) by (simp add: ptp_common_def) (metis prod.collapse)
qed

lemma ptp_common_sound:
  assumes "reads_be16 E"
  shows "ptp_common E frame off = Some None \<and> length frame < off + 32 \<or>
    (\<exists>k h rest. ptp_common E frame off = Some (Some k) \<and> frame = take off frame @ h @ rest \<and>
       ptp_header k h \<and> off < length frame)"
proof (cases "length frame < off + 32")
  case False
  then obtain w where w: "be16_at E frame (off + 30) = Some w"
    "frame = take (off + 30) frame @ be16 w @ drop (off + 30 + 2) frame"
    using be16_at_Some [OF assms, of "off + 30" frame] by auto
  let ?mid = "take 29 (drop (off + 1) frame)" and ?b = "frame ! off"
  have "take (off + 30) frame = take off frame @ take 30 (drop off frame)"
    by (rule take_add)
  moreover have "drop off frame = ?b # drop (off + 1) frame"
    using False by (simp add: Cons_nth_drop_Suc)
  ultimately have "take (off + 30) frame = take off frame @ ?b # ?mid" by simp
  then have "frame = take off frame @ (?b # ?mid @ be16 w) @ drop (off + 32) frame"
    using w(2) by (simp add: add.commute)
  moreover have "ptp_header (?b AND 0x0F, w) (?b # ?mid @ be16 w)"
    using False by (auto simp: ptp_header_def)
  moreover have "ptp_common E frame off = Some (Some (?b AND 0x0F, w))"
    using False w(1) by (simp add: ptp_common_def byte_at_def)
  moreover have "off < length frame" using False by simp
  ultimately show ?thesis by blast
qed (simp add: ptp_common_def)

lemma be16_at_D:
  assumes "reads_be16 E" "be16_at E frame i = Some w"
  shows "take 2 (drop i frame) = be16 w" "i + 1 < length frame"
proof -
  show l: "i + 1 < length frame" using assms(2) by (auto simp: be16_at_def split: if_splits)
  then obtain v where "take 2 (drop i frame) = be16 v" using be16_eq [of "take 2 (drop i frame)"] by auto
  then show "take 2 (drop i frame) = be16 w"
    using assms l by (simp add: be16_at_def reads_be16_def)
qed

lemma chunk: "drop a xs = take n (drop a xs) @ drop (n + a) xs"
  by (metis append_take_drop_id drop_drop)

lemma parse_ethernet:
  assumes "reads_be16 E" "14 \<le> length frame" "take 2 (drop 12 frame) = be16 0x88F7"
    "frame = take 14 frame @ h @ rest" "ptp_header k h"
  shows "carries frame k"
proof -
  have "take 14 frame = take 12 frame @ take 2 (drop 12 frame)"
    using take_add [of 12 2 frame] by simp
  then have "frame = take 12 frame @ be16 0x88F7 @ h @ rest" using assms(3,4) by simp
  moreover have "length (take 12 frame) = 12" using assms(2) by simp
  ultimately show ?thesis using on_ethernet [OF _ assms(5)] by metis
qed

lemma parse_udp:
  assumes "reads_be16 E" "take 2 (drop 12 frame) = be16 0x0800"
    "n = unat (frame ! 14 AND 0x0F) * 4" "20 \<le> n" "22 + n \<le> length frame"
    "frame ! 23 = 0x11" "take 2 (drop (16 + n) frame) = be16 port" "port = 319 \<or> port = 320"
    "frame = take (22 + n) frame @ h @ rest" "ptp_header k h"
  shows "carries frame k"
proof -
  let ?ip = "take n (drop 14 frame)" and ?sport = "take 2 (drop (14 + n) frame)"
    and ?csum = "take 4 (drop (18 + n) frame)"
  have "take (22 + n) frame = take 12 frame @ take 2 (drop 12 frame) @ ?ip @ ?sport @
      take 2 (drop (16 + n) frame) @ ?csum"
  proof -
    have "take (22 + n) frame = take (18 + n) frame @ take 4 (drop (18 + n) frame)"
      "take (18 + n) frame = take (16 + n) frame @ take 2 (drop (16 + n) frame)"
      "take (16 + n) frame = take (14 + n) frame @ ?sport"
      "take (14 + n) frame = take 14 frame @ ?ip"
      "take 14 frame = take 12 frame @ take 2 (drop 12 frame)"
      using take_add [of "18 + n" 4 frame] take_add [of "16 + n" 2 frame]
        take_add [of "14 + n" 2 frame] take_add [of 14 n frame] take_add [of 12 2 frame]
      by (simp_all add: add.commute)
    then show ?thesis by simp
  qed
  then have split: "frame = take 12 frame @ be16 0x0800 @ ?ip @ ?sport @ be16 port @ ?csum @ h @ rest"
    using assms(2,7,9) by simp
  have ip: "length ?ip = n" "?ip ! 0 = frame ! 14" "?ip ! 9 = frame ! 23" "length (take 12 frame) = 12"
    "length ?sport = 2" "length ?csum = 4"
    using assms(4,5) by simp_all
  then have "carries (take 12 frame @ be16 0x0800 @ ?ip @ ?sport @ be16 port @ ?csum @ h @ rest) k"
    using assms(3,4,6,8,10) by (intro on_udp) (simp_all add: mult.commute)
  with split show ?thesis by simp
qed

lemma types_differ: "(0x0800 :: u16) \<noteq> 0x88F7"
  by code_simp

lemma parse_defined_sound:
  assumes E: "reads_be16 E"
  shows "lan9250_ptp_parse_header E frame = Some None \<or>
    (\<exists>k. lan9250_ptp_parse_header E frame = Some (Some k) \<and> carries frame k)"
proof (cases "length frame < 14")
  case False
  then obtain ty where ty: "be16_at E frame 12 = Some ty"
    using be16_at_Some [OF E, of 12 frame] by auto
  note D = be16_at_D [OF E]
  show ?thesis
  proof (cases "ty = 0x88F7")
    case True
    then have "lan9250_ptp_parse_header E frame = ptp_common E frame 14"
      using False ty by (simp add: lan9250_ptp_parse_header_def)
    with ptp_common_sound [OF E, of frame 14] parse_ethernet [OF E _ D(1) [OF ty [unfolded True]]]
      False show ?thesis by (metis not_less)
  next
    case not88: False
    show ?thesis
    proof (cases "ty = 0x0800 \<and> 15 \<le> length frame")
      case True
      define n where "n = unat (frame ! 14 AND 0x0F) * 4"
      show ?thesis
      proof (cases "n < 20 \<or> length frame < 22 + n \<or> frame ! 23 \<noteq> 0x11")
        case True
        then have "lan9250_ptp_parse_header E frame = Some None"
          unfolding lan9250_ptp_parse_header_def
          using \<open>ty = 0x0800 \<and> 15 \<le> length frame\<close> ty types_differ
          by (auto simp: byte_at_def n_def Let_def add.commute)
        then show ?thesis by simp
      next
        case found: False
        then obtain port where port: "be16_at E frame (16 + n) = Some port"
          using be16_at_Some [OF E, of "16 + n" frame] by auto
        have n5: "\<not> unat (frame ! 14 AND 0x0F) < 5" using found by (simp add: n_def)
        have p: "lan9250_ptp_parse_header E frame =
            (if port \<noteq> 319 \<and> port \<noteq> 320 then Some None else ptp_common E frame (22 + n))"
          unfolding lan9250_ptp_parse_header_def
          using found n5 True ty port types_differ
          by (simp add: byte_at_def n_def [symmetric] Let_def
              add.commute [of _ n] add.left_commute)
        show ?thesis
        proof (cases "port = 319 \<or> port = 320")
          case True
          have "carries frame k" if "frame = take (22 + n) frame @ h @ rest" "ptp_header k h" for k h rest
            using parse_udp [OF E _ n_def _ _ _ D(1) [OF port] True that]
              D(1) [OF ty] \<open>ty = 0x0800 \<and> 15 \<le> length frame\<close> found by auto
          with ptp_common_sound [OF E, of frame "22 + n"] p True show ?thesis by metis
        qed (simp add: p)
      qed
    next
      case False
      then show ?thesis using not88 ty
        by (auto simp: lan9250_ptp_parse_header_def)
    qed
  qed
qed (simp add: lan9250_ptp_parse_header_def)

lemma parse_complete:
  assumes E: "reads_be16 E" and "carries frame k"
  shows "lan9250_ptp_parse_header E frame = Some (Some k)"
  using assms(2)
proof cases
  case (on_ethernet macs h rest)
  have "be16_at E frame 12 = Some 0x88F7"
    unfolding on_ethernet(1) by (rule be16_at_split [OF E on_ethernet(2)])
  moreover have "ptp_common E frame 14 = Some (Some k)"
    using ptp_common_finds [OF E _ on_ethernet(3), of "macs @ be16 0x88F7" 14 rest] on_ethernet(1,2)
    by simp
  moreover have "14 \<le> length frame" using on_ethernet(1,2) by simp
  ultimately show ?thesis by (simp add: lan9250_ptp_parse_header_def)
next
  case (on_udp macs ip port sport csum h rest)
  let ?n = "unat (ip ! 0 AND 0x0F) * 4"
  have n: "length ip = ?n" "20 \<le> ?n" using on_udp(3,4) by simp_all
  have ty: "be16_at E frame 12 = Some 0x0800"
    unfolding on_udp(1) by (rule be16_at_split [OF E on_udp(2)])
  have "frame = (macs @ be16 0x0800 @ ip @ sport) @ be16 port @ csum @ h @ rest"
    by (simp add: on_udp(1))
  then have port: "be16_at E frame (14 + ?n + 2) = Some port"
    using be16_at_split [OF E, of "macs @ be16 0x0800 @ ip @ sport"] on_udp(2,7) n by simp
  have frame: "frame = (macs @ be16 0x0800 @ ip @ sport @ be16 port @ csum) @ h @ rest"
    by (simp add: on_udp(1))
  then have common: "ptp_common E frame (14 + ?n + 8) = Some (Some k)"
    using ptp_common_finds [OF E _ on_udp(9),
        of "macs @ be16 0x0800 @ ip @ sport @ be16 port @ csum" "14 + ?n + 8" rest]
      on_udp(2,7,8) n by simp
  have len: "14 + ?n + 8 \<le> length frame" "frame ! 14 = ip ! 0" "frame ! 23 = ip ! 9"
    using on_udp(2,7,8) n unfolding frame by (simp_all add: nth_append)
  show ?thesis
    unfolding lan9250_ptp_parse_header_def
    using ty port common len n(2) on_udp(5,6) types_differ by (auto simp: byte_at_def Let_def)
qed

section \<open>Properties\<close>

text \<open>
  C19: The parser recognises exactly the frames that carry a PTP header and never reads outside the
  frame. It yields the message type and sequence id of a frame if, and only if, the frame is laid
  out as PTP on Ethernet or PTP on UDP over IPv4, with IPv4 options or without, to port 319 or 320;
  every other frame of any length is turned down, and no read goes beyond the length given.
\<close>

theorem parse_recognises:
  assumes "reads_be16 E"
  shows "lan9250_ptp_parse_header E frame \<noteq> None \<and>
    (lan9250_ptp_parse_header E frame = Some (Some k) \<longleftrightarrow> carries frame k)"
proof
  show "lan9250_ptp_parse_header E frame \<noteq> None"
    using parse_defined_sound [OF assms, of frame] by (elim disjE exE conjE) simp_all
  show "lan9250_ptp_parse_header E frame = Some (Some k) \<longleftrightarrow> carries frame k"
    using parse_complete [OF assms, of frame k] parse_defined_sound [OF assms, of frame]
    by (metis option.distinct(1) option.inject)
qed

lemma calm_reads: "reads_be16 calm"
proof -
  have hi: "\<not> bit w (8 + (n + 8))" for w :: u16 and n
    using bit_imp_le_length [of w "8 + (n + 8)"] by auto
  have "push_bit 8 (ucast (ucast (drop_bit 8 w) :: u8)) OR ucast (ucast w :: u8) = w" for w :: u16
    by (rule bit_word_eqI) (auto simp: bit_simps)
  then show ?thesis by (simp add: reads_be16_def calm_def be16_def)
qed

text \<open>A Sync message on Ethernet: type 0, sequence id 258.\<close>

definition sync_frame :: "u8 list" where
  "sync_frame = replicate 12 0 @ be16 0x88F7 @ (0x10 # replicate 29 0 @ be16 258) @ replicate 12 0"

lemma sync_frame_carries: "carries sync_frame (0, 258)"
proof -
  have "ptp_header (0, 258) (0x10 # replicate 29 0 @ be16 258)"
  proof -
    have "0x10 # replicate 29 0 @ be16 258 = (0x10 :: u8) # replicate 29 0 @ be16 (snd (0 :: u8, 258)) \<and>
        length (replicate 29 (0 :: u8)) = 29 \<and> fst (0 :: u8, 258 :: u16) = 0x10 AND 0x0F"
      by (simp del: replicate.simps)
    then show ?thesis unfolding ptp_header_def by blast
  qed
  then show ?thesis unfolding sync_frame_def by (intro on_ethernet length_replicate)
qed

lemma parse_recognises_witness:
  "lan9250_ptp_parse_header calm sync_frame = Some (Some (0, 258)) \<and>
   lan9250_ptp_parse_header calm (take 45 sync_frame) \<noteq> None"
  using parse_recognises [OF calm_reads, of sync_frame "(0, 258)"]
    parse_recognises [OF calm_reads, of "take 45 sync_frame"] sync_frame_carries by blast

end
