(* ===== verification/Ptp_Match.thy ===== *)
theory Ptp_Match
  imports Lan_Config Ptp_Parse
begin

text \<open>
  Matching hardware timestamps with packets (\<open>lan9250_1588_rx_timestamp_check\<close>,
  \<open>lan9250_1588_tx_timestamp_check\<close> and the tables \<open>rx_pending\<close> and \<open>rx_unclaimed\<close> of
  \<open>drivers/eth_lan9250/eth_lan9250.c\<close>). A captured timestamp and its frame reach the driver in
  either order, each side waits in a table for the other, and both tables forget.
\<close>

section \<open>Tables of slots\<close>

text \<open>The loops over the two tables: the first slot that satisfies a condition, and the slot with
  the earliest deadline.\<close>

fun find_slot :: "('e \<Rightarrow> bool) \<Rightarrow> 'e list \<Rightarrow> nat option" where
  "find_slot p [] = None"
| "find_slot p (x # xs) = (if p x then Some 0 else map_option Suc (find_slot p xs))"

definition oldest_slot :: "('e \<Rightarrow> int) \<Rightarrow> 'e list \<Rightarrow> nat" where
  "oldest_slot deadline xs =
    fold (\<lambda>i slot. if deadline (xs ! i) < deadline (xs ! slot) then i else slot) [1..<length xs] 0"

definition free_or_oldest :: "('e \<Rightarrow> bool) \<Rightarrow> ('e \<Rightarrow> int) \<Rightarrow> 'e list \<Rightarrow> nat" where
  "free_or_oldest used deadline xs =
    (case find_slot (\<lambda>x. \<not> used x) xs of Some i \<Rightarrow> i | None \<Rightarrow> oldest_slot deadline xs)"

definition LAN9250_1588_RX_PENDING_MAX :: nat where "LAN9250_1588_RX_PENDING_MAX = 16"
definition LAN9250_1588_RX_PENDING_TIMEOUT_MS :: int where "LAN9250_1588_RX_PENDING_TIMEOUT_MS = 2000"

definition is_pending :: "rx_pending \<Rightarrow> bool" where
  "is_pending p \<longleftrightarrow> rp_pkt p \<noteq> None"

definition waits_for :: "ptp_id \<Rightarrow> rx_pending \<Rightarrow> bool" where
  "waits_for k p \<longleftrightarrow> rp_pkt p \<noteq> None \<and> rp_msg_type p = fst k \<and> rp_seq_id p = snd k"

definition captured_for :: "ptp_id \<Rightarrow> rx_unclaimed \<Rightarrow> bool" where
  "captured_for k u \<longleftrightarrow> ru_valid u \<and> ru_msg_type u = fst k \<and> ru_seq_id u = snd k"

text \<open>What both tests are to mean: type and sequence id together are the entry's.\<close>

definition pending_for :: "ptp_id \<Rightarrow> rx_pending \<Rightarrow> bool" where
  "pending_for k p \<longleftrightarrow> (\<exists>pkt. rp_pkt p = Some pkt) \<and> k = (rp_msg_type p, rp_seq_id p)"

definition stored_for :: "ptp_id \<Rightarrow> rx_unclaimed \<Rightarrow> bool" where
  "stored_for k u \<longleftrightarrow> ru_valid u \<and> k = (ru_msg_type u, ru_seq_id u)"

lemma tests_mean: "pending_for = waits_for" "stored_for = captured_for"
  by (auto simp: fun_eq_iff pending_for_def stored_for_def waits_for_def captured_for_def)

section \<open>Expiry\<close>

definition expire_slot :: "int \<Rightarrow> nat \<Rightarrow> lan \<Rightarrow> lan" where
  "expire_slot now i s =
    (let p = rx_pending s ! i
     in case rp_pkt p of
       None \<Rightarrow> s
     | Some pkt \<Rightarrow>
         if rp_deadline p \<le> now
         then act (Pkt_unref pkt) (s\<lparr>rx_pending := store (rx_pending s) i (p\<lparr>rp_pkt := None\<rparr>),
           diag_expired_unmatched := diag_expired_unmatched s + 1\<rparr>)
         else s)"

definition expire_unclaimed :: "int \<Rightarrow> rx_unclaimed \<Rightarrow> rx_unclaimed" where
  "expire_unclaimed now u =
    (if ru_valid u \<and> ru_deadline u \<le> now then u\<lparr>ru_valid := False\<rparr> else u)"

definition diag_rx_match_summary :: "lan_env \<Rightarrow> lan \<Rightarrow> lan" where
  "diag_rx_match_summary E s =
    (let now = uptime E (trace s)
     in if now - diag_last_summary_ms s < 10000 then s else s\<lparr>diag_last_summary_ms := now\<rparr>)"

definition lan9250_1588_rx_pending_expire :: "lan_env \<Rightarrow> int \<Rightarrow> lan \<Rightarrow> lan" where
  "lan9250_1588_rx_pending_expire E now s =
    (let s1 = fold (expire_slot now) [0..<LAN9250_1588_RX_PENDING_MAX] s;
         s2 = s1\<lparr>rx_unclaimed := map (expire_unclaimed now) (rx_unclaimed s1)\<rparr>
     in diag_rx_match_summary E s2)"

section \<open>Received frames\<close>

definition LAN9250_1588_CAP_INFO :: u16 where [dev_eval]: "LAN9250_1588_CAP_INFO = 0x0160"
definition LAN9250_1588_RX_INGRESS_SEC :: u16 where [dev_eval]: "LAN9250_1588_RX_INGRESS_SEC = 0x016C"
definition LAN9250_1588_RX_INGRESS_NS :: u16 where [dev_eval]: "LAN9250_1588_RX_INGRESS_NS = 0x0170"
definition LAN9250_1588_RX_MSG_HEADER :: u16 where [dev_eval]: "LAN9250_1588_RX_MSG_HEADER = 0x0174"
definition LAN9250_1588_TX_EGRESS_SEC :: u16 where [dev_eval]: "LAN9250_1588_TX_EGRESS_SEC = 0x016C"
definition LAN9250_1588_TX_EGRESS_NS :: u16 where [dev_eval]: "LAN9250_1588_TX_EGRESS_NS = 0x0170"
definition LAN9250_1588_TX_MSG_HEADER :: u16 where [dev_eval]: "LAN9250_1588_TX_MSG_HEADER = 0x0174"
definition LAN9250_1588_INT_STS_TX_TS_INT :: u32 where
  [dev_eval]: "LAN9250_1588_INT_STS_TX_TS_INT = 0x1000"
definition LAN9250_1588_INT_STS_RX_TS_INT :: u32 where
  [dev_eval]: "LAN9250_1588_INT_STS_RX_TS_INT = 0x100"
definition LAN9250_1588_CAP_INFO_TX_TS_CNT_MASK :: u32 where
  [dev_eval]: "LAN9250_1588_CAP_INFO_TX_TS_CNT_MASK = 0x70"
definition LAN9250_1588_CAP_INFO_RX_TS_CNT_MASK :: u32 where
  [dev_eval]: "LAN9250_1588_CAP_INFO_RX_TS_CNT_MASK = 0x07"

definition lan9250_1588_msg_type_is_timestamped :: "u8 \<Rightarrow> bool" where
  "lan9250_1588_msg_type_is_timestamped msg_type \<longleftrightarrow>
    BIT (unat msg_type) AND LAN9250_1588_PTP_MESSAGE_EN_DEFAULT \<noteq> 0"

definition hw_id :: "u32 \<Rightarrow> ptp_id" where
  "hw_id msg_header = (ucast (drop_bit 16 (msg_header AND 0x000F0000)), ucast (msg_header AND 0xFFFF))"

text \<open>A step of a function that gives up when a transfer fails.\<close>

definition or_stop :: "lan cmd \<Rightarrow> 'r \<Rightarrow> (lan \<Rightarrow> ('r \<times> lan) option) \<Rightarrow> lan \<Rightarrow> ('r \<times> lan) option" where
  "or_stop m d k s = do { (ret, s1) \<leftarrow> m s; if ret < 0 then Some (d, s1) else k s1 }"

definition or_stop_q ::
  "'v query \<Rightarrow> 'r \<Rightarrow> ('v \<Rightarrow> lan \<Rightarrow> ('r \<times> lan) option) \<Rightarrow> lan \<Rightarrow> ('r \<times> lan) option" where
  "or_stop_q q d k s = do { (ret, v, s1) \<leftarrow> q s; if ret < 0 then Some (d, s1) else k v s1 }"

text \<open>The event's owner: this frame, a pending one, or nobody yet. The result says whether this
  frame got its timestamp.\<close>

definition stash_unclaimed :: "lan_env \<Rightarrow> ptp_id \<Rightarrow> u32 \<Rightarrow> u32 \<Rightarrow> lan \<Rightarrow> lan" where
  "stash_unclaimed E hw sec ns s =
    (let i = free_or_oldest ru_valid ru_deadline (rx_unclaimed s)
     in s\<lparr>rx_unclaimed := store (rx_unclaimed s) i
       \<lparr>ru_valid = True, ru_msg_type = fst hw, ru_seq_id = snd hw, ru_sec = sec, ru_ns = ns,
          ru_deadline = uptime E (trace s) + LAN9250_1588_RX_PENDING_TIMEOUT_MS\<rparr>\<rparr>)"

definition rx_event :: "lan_env \<Rightarrow> pkt \<Rightarrow> ptp_id \<Rightarrow> ptp_id \<Rightarrow> u32 \<Rightarrow> u32 \<Rightarrow> lan \<Rightarrow> bool \<times> lan" where
  "rx_event E pkt k hw sec ns s =
    (if hw = k
     then (True, (act (Set_timestamp pkt sec ns) s)
       \<lparr>diag_matched_immediate := diag_matched_immediate s + 1\<rparr>)
     else case find_slot (waits_for hw) (rx_pending s) of
       Some i \<Rightarrow>
         let p = rx_pending s ! i; owner = the (rp_pkt p);
             s1 = act (Pkt_unref owner) (act (Set_timestamp owner sec ns) s)
         in (False, s1\<lparr>rx_pending := store (rx_pending s) i (p\<lparr>rp_pkt := None\<rparr>),
              diag_matched_pending := diag_matched_pending s + 1\<rparr>)
     | None \<Rightarrow> (False, stash_unclaimed E hw sec ns s))"

definition rx_capture :: "lan_env \<Rightarrow> pkt \<Rightarrow> ptp_id \<Rightarrow> lan \<Rightarrow> (bool \<times> lan) option" where
  "rx_capture E pkt k =
    or_stop (lan9250_1588_bank_select E LAN9250_1588_BANK_SEL_PORT_GENERAL) False
    (or_stop_q (lan9250_read_sys_reg E LAN9250_1588_CAP_INFO) False (\<lambda>cap_info.
      if cap_info AND LAN9250_1588_CAP_INFO_RX_TS_CNT_MASK = 0 then (\<lambda>s. Some (False, s))
      else or_stop (lan9250_1588_bank_select E LAN9250_1588_BANK_SEL_PORT_RX) False
       (or_stop_q (lan9250_read_sys_reg E LAN9250_1588_RX_MSG_HEADER) False (\<lambda>msg_header.
         or_stop_q (lan9250_read_sys_reg E LAN9250_1588_RX_INGRESS_SEC) False (\<lambda>sec.
         or_stop_q (lan9250_read_sys_reg E LAN9250_1588_RX_INGRESS_NS) False (\<lambda>ns s. do {
           (ret, s1) \<leftarrow> lan9250_write_sys_reg E LAN9250_1588_INT_STS
             LAN9250_1588_INT_STS_RX_TS_INT s;
           Some (rx_event E pkt k (hw_id msg_header) sec ns s1)
         }))))))"

definition rx_match :: "lan_env \<Rightarrow> pkt \<Rightarrow> ptp_id \<Rightarrow> lan \<Rightarrow> (bool \<times> lan) option" where
  "rx_match E pkt k s =
    (case find_slot (captured_for k) (rx_unclaimed s) of
       Some i \<Rightarrow>
         let u = rx_unclaimed s ! i
         in Some (True, (act (Set_timestamp pkt (ru_sec u) (ru_ns u)) s)
           \<lparr>rx_unclaimed := store (rx_unclaimed s) i (u\<lparr>ru_valid := False\<rparr>),
             diag_matched_immediate := diag_matched_immediate s + 1\<rparr>)
     | None \<Rightarrow> rx_capture E pkt k s)"

definition rx_queue :: "lan_env \<Rightarrow> pkt \<Rightarrow> ptp_id \<Rightarrow> bool \<Rightarrow> lan \<Rightarrow> lan" where
  "rx_queue E pkt k attached s =
    (if attached \<or> \<not> lan9250_1588_msg_type_is_timestamped (fst k) then s
     else let i = free_or_oldest is_pending rp_deadline (rx_pending s);
              s1 = (case rp_pkt (rx_pending s ! i) of None \<Rightarrow> s | Some old \<Rightarrow> act (Pkt_unref old) s);
              s2 = act (Pkt_ref pkt) s1
          in s2\<lparr>rx_pending := store (rx_pending s) i
                 \<lparr>rp_pkt = Some pkt, rp_msg_type = fst k, rp_seq_id = snd k,
                  rp_deadline = uptime E (trace s2) + LAN9250_1588_RX_PENDING_TIMEOUT_MS\<rparr>,
               diag_queued_pending := diag_queued_pending s + 1\<rparr>)"

definition lan9250_1588_rx_timestamp_check :: "lan_env \<Rightarrow> pkt \<Rightarrow> nat \<Rightarrow> lan \<Rightarrow> lan option" where
  "lan9250_1588_rx_timestamp_check E pkt pkt_len s =
    (let header_len = min pkt_len 128;
         s1 = act (Pkt_read pkt header_len) s;
         (ret, header) = net_pkt_read E (trace s1)
     in if ret < 0 then Some s1
        else do {
          parsed \<leftarrow> lan9250_ptp_parse_header E (take header_len header);
          case parsed of
            None \<Rightarrow> Some s1
          | Some k \<Rightarrow> do {
              let s2 = act (Lock Bank_lock) s1;
              let s3 = lan9250_1588_rx_pending_expire E (uptime E (trace s2)) s2;
              (attached, s4) \<leftarrow> rx_match E pkt k s3;
              Some (act (Unlock Bank_lock) (rx_queue E pkt k attached s4))
            }
        })"

section \<open>Sent frames\<close>

text \<open>At most \<open>n\<close> looks at the count of captured timestamps, a millisecond apart; the result is
  the last one read.\<close>

fun tx_poll :: "lan_env \<Rightarrow> nat \<Rightarrow> u32 \<Rightarrow> lan \<Rightarrow> (u32 option \<times> lan) option" where
  "tx_poll E 0 cap_info s = Some (Some cap_info, s)"
| "tx_poll E (Suc n) cap_info s = do {
     (ret, cap_info', s1) \<leftarrow> lan9250_read_sys_reg E LAN9250_1588_CAP_INFO s;
     if ret < 0 then Some (None, s1)
     else if cap_info' AND LAN9250_1588_CAP_INFO_TX_TS_CNT_MASK \<noteq> 0 then Some (Some cap_info', s1)
     else tx_poll E n cap_info' (act (Sleep_ms 1) s1)
   }"

definition tx_event :: "lan_env \<Rightarrow> pkt \<Rightarrow> ptp_id \<Rightarrow> ptp_id \<Rightarrow> u32 \<Rightarrow> u32 \<Rightarrow> lan \<Rightarrow> lan" where
  "tx_event E pkt k hw sec ns s =
    (if hw = k
     then let s1 = act (Set_timestamp pkt sec ns) s
          in if PKT_TIMESTAMP_THREAD E then act (Tx_timestamp pkt) s1 else s1
     else s)"

definition tx_capture :: "lan_env \<Rightarrow> pkt \<Rightarrow> ptp_id \<Rightarrow> lan \<Rightarrow> (unit \<times> lan) option" where
  "tx_capture E pkt k =
    or_stop (lan9250_1588_bank_select E LAN9250_1588_BANK_SEL_PORT_GENERAL) () (\<lambda>s. do {
      (cap, s1) \<leftarrow> tx_poll E 5 0 s;
      case cap of
        None \<Rightarrow> Some ((), s1)
      | Some cap_info \<Rightarrow>
          if cap_info AND LAN9250_1588_CAP_INFO_TX_TS_CNT_MASK = 0 then Some ((), s1)
          else or_stop (lan9250_1588_bank_select E LAN9250_1588_BANK_SEL_PORT_TX) ()
            (or_stop_q (lan9250_read_sys_reg E LAN9250_1588_TX_MSG_HEADER) () (\<lambda>msg_header.
             or_stop_q (lan9250_read_sys_reg E LAN9250_1588_TX_EGRESS_SEC) () (\<lambda>sec.
             or_stop_q (lan9250_read_sys_reg E LAN9250_1588_TX_EGRESS_NS) () (\<lambda>ns s. do {
               (ret, s2) \<leftarrow> lan9250_write_sys_reg E LAN9250_1588_INT_STS
                 LAN9250_1588_INT_STS_TX_TS_INT (tx_event E pkt k (hw_id msg_header) sec ns s);
               Some ((), s2)
             })))) s1
    })"

definition lan9250_1588_tx_timestamp_check :: "lan_env \<Rightarrow> pkt \<Rightarrow> u8 list \<Rightarrow> nat \<Rightarrow> lan \<Rightarrow> lan option" where
  "lan9250_1588_tx_timestamp_check E pkt frame len s = do {
     parsed \<leftarrow> lan9250_ptp_parse_header E (take len frame);
     case parsed of
       None \<Rightarrow> Some s
     | Some k \<Rightarrow> do {
         (_, s1) \<leftarrow> tx_capture E pkt k (act (Lock Bank_lock) s);
         Some (act (Unlock Bank_lock) s1)
       }
   }"

section \<open>The contract of a table\<close>

lemma find_slot_Some:
  "find_slot p xs = Some i \<longleftrightarrow> i < length xs \<and> p (xs ! i) \<and> (\<forall>j<i. \<not> p (xs ! j))"
proof (induction xs arbitrary: i)
  case (Cons x xs)
  then show ?case by (cases i) (auto simp: less_Suc_eq_0_disj)
qed simp

lemma find_slot_None: "find_slot p xs = None \<longleftrightarrow> (\<forall>x\<in>set xs. \<not> p x)"
  by (induction xs) auto

lemma oldest_slot_min:
  assumes "xs \<noteq> []"
  shows "oldest_slot dl xs < length xs \<and> (\<forall>j<length xs. dl (xs ! oldest_slot dl xs) \<le> dl (xs ! j))"
proof -
  let ?f = "\<lambda>i slot. if dl (xs ! i) < dl (xs ! slot) then i else slot"
  have "fold ?f [1..<k] 0 < k \<and> (\<forall>j<k. dl (xs ! fold ?f [1..<k] 0) \<le> dl (xs ! j))" if "1 \<le> k" for k
    using that
  proof (induction k rule: dec_induct)
    case (step k)
    then show ?case by (auto simp: less_Suc_eq intro: order_trans less_imp_le)
  qed simp
  from this [of "length xs"] assms show ?thesis
    by (simp add: oldest_slot_def Suc_le_eq)
qed

text \<open>Both tables promise the same: a new entry displaces nobody while a slot is free, else the
  entry that would be the first to expire; expiry drops exactly the entries whose time has come.\<close>

locale slot_table =
  fixes used :: "'e \<Rightarrow> bool" and deadline :: "'e \<Rightarrow> int"
    and release :: "'e \<Rightarrow> 'e" and expire :: "int \<Rightarrow> 'e \<Rightarrow> 'e"
  assumes release_unused: "\<not> used (release x)"
    and expire_when: "expire now x = (if used x \<and> deadline x \<le> now then release x else x)"
begin

abbreviation slot :: "'e list \<Rightarrow> nat" where
  "slot xs \<equiv> free_or_oldest used deadline xs"

lemma slot_less: "xs \<noteq> [] \<Longrightarrow> slot xs < length xs"
  using oldest_slot_min [of xs deadline]
  by (auto simp: free_or_oldest_def find_slot_Some split: option.split)

lemma slot_free: "x \<in> set xs \<Longrightarrow> \<not> used x \<Longrightarrow> \<not> used (xs ! slot xs)"
  by (auto simp: free_or_oldest_def find_slot_Some find_slot_None split: option.split)

lemma slot_oldest:
  "\<forall>x\<in>set xs. used x \<Longrightarrow> y \<in> set xs \<Longrightarrow> deadline (xs ! slot xs) \<le> deadline y"
proof -
  assume all: "\<forall>x\<in>set xs. used x" and y: "y \<in> set xs"
  then have "slot xs = oldest_slot deadline xs"
    using find_slot_None [of "\<lambda>x. \<not> used x" xs] by (simp add: free_or_oldest_def)
  moreover obtain j where "j < length xs" "xs ! j = y" using y by (auto simp: in_set_conv_nth)
  moreover have "xs \<noteq> []" using y by auto
  ultimately show ?thesis using oldest_slot_min [of xs deadline] by metis
qed

lemma expire_used: "used (expire now x) \<longleftrightarrow> used x \<and> now < deadline x"
  by (auto simp: expire_when release_unused)

lemma expire_same: "used (expire now x) \<Longrightarrow> expire now x = x"
  by (auto simp: expire_when release_unused split: if_splits)

end

definition expire_pending :: "int \<Rightarrow> rx_pending \<Rightarrow> rx_pending" where
  "expire_pending now p =
    (if rp_pkt p \<noteq> None \<and> rp_deadline p \<le> now then p\<lparr>rp_pkt := None\<rparr> else p)"

interpretation pending: slot_table is_pending rp_deadline "\<lambda>p. p\<lparr>rp_pkt := None\<rparr>" expire_pending
  by unfold_locales (simp_all add: expire_pending_def is_pending_def)

interpretation unclaimed: slot_table ru_valid ru_deadline "\<lambda>u. u\<lparr>ru_valid := False\<rparr>" expire_unclaimed
  by unfold_locales (simp_all add: expire_unclaimed_def)

section \<open>References held\<close>

definition held :: "rx_pending list \<Rightarrow> pkt \<Rightarrow> nat" where
  "held xs p = length (filter (\<lambda>x. rp_pkt x = Some p) xs)"

definition balance :: "pkt \<Rightarrow> ev list \<Rightarrow> int" where
  "balance p h = int (count_list h (Pkt_ref p)) - int (count_list h (Pkt_unref p))"

lemma balance_append: "balance p (h @ g) = balance p h + balance p g"
  by (simp add: balance_def)

lemma balance_Cons:
  "balance p (e # h) = balance p h + (if e = Pkt_ref p then 1 else if e = Pkt_unref p then - 1 else 0)"
  by (simp add: balance_def)

text \<open>What the table holds, less what the trace accounts for.\<close>

definition owed :: "pkt \<Rightarrow> lan \<Rightarrow> int" where
  "owed p s = int (held (rx_pending s) p) - balance p (trace s)"

lemma held_update:
  "i < length xs \<Longrightarrow> int (held (xs[i := x]) p) =
     int (held xs p) - (if rp_pkt (xs ! i) = Some p then 1 else 0) + (if rp_pkt x = Some p then 1 else 0)"
proof (induction xs arbitrary: i)
  case (Cons y ys)
  show ?case
  proof (cases i)
    case (Suc n)
    with Cons.IH [of n] Cons.prems show ?thesis by (auto simp: held_def split: if_splits)
  qed (simp add: held_def)
qed simp

definition transfer_1588 :: "lan_env \<Rightarrow> ev \<Rightarrow> bool" where
  "transfer_1588 E e \<longleftrightarrow> (\<exists>a d. 0x100 \<le> a \<and> (e = spi_write E a d \<or> e = spi_read E a))"

text \<open>Transfers with the registers of the 1588 unit, and the wait between two of them.\<close>

fun is_spi :: "lan_env \<Rightarrow> ev \<Rightarrow> bool" where
  "is_spi E (Spi b n) = transfer_1588 E (Spi b n)"
| "is_spi E (Sleep_ms n) = True"
| "is_spi E e = False"

lemma is_spi_transfer:
  assumes "0x100 \<le> a"
  shows "is_spi E (spi_write E a d)" "is_spi E (spi_read E a)"
proof -
  have "is_spi E e \<longleftrightarrow> transfer_1588 E e" if "e = spi_write E a d \<or> e = spi_read E a" for e
    using that unfolding spi_write_def spi_read_def by (elim disjE) simp_all
  with assms show "is_spi E (spi_write E a d)" "is_spi E (spi_read E a)"
    unfolding transfer_1588_def by blast+
qed

lemma is_spi_1588 [simp]:
  "is_spi E (spi_write E LAN9250_1588_BANK_PORT_GPIO_SEL d)" "is_spi E (spi_write E LAN9250_1588_INT_STS d)"
  "is_spi E (spi_read E LAN9250_1588_CAP_INFO)" "is_spi E (spi_read E LAN9250_1588_RX_MSG_HEADER)"
  "is_spi E (spi_read E LAN9250_1588_RX_INGRESS_SEC)" "is_spi E (spi_read E LAN9250_1588_RX_INGRESS_NS)"
  "is_spi E (spi_read E LAN9250_1588_TX_MSG_HEADER)" "is_spi E (spi_read E LAN9250_1588_TX_EGRESS_SEC)"
  "is_spi E (spi_read E LAN9250_1588_TX_EGRESS_NS)"
  by (intro is_spi_transfer; simp add: dev_eval)+

lemma balance_spi: "list_all (is_spi E) h \<Longrightarrow> balance p h = 0"
proof (induction h)
  case (Cons e h)
  then show ?case by (cases e) (simp_all add: balance_Cons)
qed (simp add: balance_def)

lemma owed_spi: "extends (is_spi E) s t \<Longrightarrow> owed p t = owed p s"
  by (auto simp: extends_def owed_def balance_append balance_spi)

section \<open>Expiry\<close>

definition expired :: "int \<Rightarrow> rx_pending list \<Rightarrow> ev list" where
  "expired now xs = map (\<lambda>x. Pkt_unref (the (rp_pkt x)))
     (filter (\<lambda>x. rp_pkt x \<noteq> None \<and> rp_deadline x \<le> now) xs)"

lemma expire_fold:
  assumes "k \<le> length (rx_pending s)"
  shows "\<exists>d. fold (expire_slot now) [0..<k] s = s\<lparr>
    trace := rev (expired now (take k (rx_pending s))) @ trace s,
    rx_pending := map (expire_pending now) (take k (rx_pending s)) @ drop k (rx_pending s),
    diag_expired_unmatched := d\<rparr>"
  using assms
proof (induction k)
  case 0
  show ?case by (intro exI [of _ "diag_expired_unmatched s"]) (simp add: expired_def)
next
  case (Suc k)
  let ?xs = "rx_pending s"
  define u where "u = fold (expire_slot now) [0..<k] s"
  obtain d where u: "u = s\<lparr>trace := rev (expired now (take k ?xs)) @ trace s,
    rx_pending := map (expire_pending now) (take k ?xs) @ drop k ?xs, diag_expired_unmatched := d\<rparr>"
    using Suc u_def by auto
  have k: "k < length ?xs" using Suc.prems by simp
  then have nth: "rx_pending u ! k = ?xs ! k" by (simp add: u nth_append)
  have take: "take (Suc k) ?xs = take k ?xs @ [?xs ! k]" "drop k ?xs = ?xs ! k # drop (Suc k) ?xs"
    using k by (simp_all add: take_Suc_conv_app_nth Cons_nth_drop_Suc)
  have "(map (expire_pending now) (take k ?xs) @ drop k ?xs)[k := x] =
      map (expire_pending now) (take k ?xs) @ x # drop (Suc k) ?xs" for x
    using k by (simp add: list_update_append take(2))
  moreover have "k < length (rx_pending u)" using k by (simp add: u)
  ultimately have "expire_slot now k u = s\<lparr>trace := rev (expired now (take (Suc k) ?xs)) @ trace s,
    rx_pending := map (expire_pending now) (take (Suc k) ?xs) @ drop (Suc k) ?xs,
    diag_expired_unmatched :=
      (if rp_pkt (?xs ! k) \<noteq> None \<and> rp_deadline (?xs ! k) \<le> now then d + 1 else d)\<rparr>"
    unfolding expire_slot_def Let_def nth
    by (auto simp: u take(1) expired_def expire_pending_def act_def take(2) split: option.split)
  then show ?case using u_def by auto
qed

definition wf :: "lan \<Rightarrow> bool" where
  "wf s \<longleftrightarrow> length (rx_pending s) = LAN9250_1588_RX_PENDING_MAX \<and>
     length (rx_unclaimed s) = LAN9250_1588_RX_PENDING_MAX"

lemma wf_slots [simp]:
  assumes "wf s"
  shows "pending.slot (rx_pending s) < length (rx_pending s)"
    "unclaimed.slot (rx_unclaimed s) < length (rx_unclaimed s)"
proof -
  have "rx_pending s \<noteq> []" "rx_unclaimed s \<noteq> []"
    using assms by (auto simp: wf_def LAN9250_1588_RX_PENDING_MAX_def)
  then show "pending.slot (rx_pending s) < length (rx_pending s)"
    "unclaimed.slot (rx_unclaimed s) < length (rx_unclaimed s)"
    by (blast intro: pending.slot_less unclaimed.slot_less)+
qed

lemma expire_effect:
  assumes "wf s"
  shows "\<exists>d m. lan9250_1588_rx_pending_expire E now s = s\<lparr>
    trace := rev (expired now (rx_pending s)) @ trace s,
    rx_pending := map (expire_pending now) (rx_pending s),
    rx_unclaimed := map (expire_unclaimed now) (rx_unclaimed s),
    diag_expired_unmatched := d, diag_last_summary_ms := m\<rparr>"
proof -
  let ?xs = "rx_pending s"
  have l: "length ?xs = LAN9250_1588_RX_PENDING_MAX" using assms by (simp add: wf_def)
  obtain d where f: "fold (expire_slot now) [0..<LAN9250_1588_RX_PENDING_MAX] s = s\<lparr>
      trace := rev (expired now ?xs) @ trace s,
      rx_pending := map (expire_pending now) ?xs, diag_expired_unmatched := d\<rparr>"
    using expire_fold [of LAN9250_1588_RX_PENDING_MAX s now] l by auto
  show ?thesis
    unfolding lan9250_1588_rx_pending_expire_def Let_def f diag_rx_match_summary_def
    by (cases s, intro exI [of _ d] exI [of _ "if uptime E (rev (expired now ?xs) @ trace s) -
      diag_last_summary_ms s < 10000 then diag_last_summary_ms s
      else uptime E (rev (expired now ?xs) @ trace s)"]) simp
qed

section \<open>The paths through a check\<close>

text \<open>Three reads in a row: the header, seconds and nanoseconds of a captured event.\<close>

definition reading ::
  "lan_env \<Rightarrow> u16 \<Rightarrow> u16 \<Rightarrow> u16 \<Rightarrow> ev list \<Rightarrow> ptp_id \<Rightarrow> u32 \<Rightarrow> u32 \<Rightarrow> ev list \<Rightarrow> bool" where
  "reading E a b c g hw sec ns h \<longleftrightarrow> (\<exists>mid. list_all (is_spi E) mid \<and>
     (let h1 = spi_read E a # mid @ g; h2 = spi_read E b # h1; h3 = spi_read E c # h2
      in h = h3 \<and> hw = hw_id (le32 (spi_rx E h1)) \<and> sec = le32 (spi_rx E h2) \<and>
         ns = le32 (spi_rx E h3) \<and> 0 \<le> spi_ret E h1 \<and> 0 \<le> spi_ret E h2 \<and> 0 \<le> spi_ret E h3))"

abbreviation rx_reading where
  "rx_reading E \<equiv> reading E LAN9250_1588_RX_MSG_HEADER LAN9250_1588_RX_INGRESS_SEC
     LAN9250_1588_RX_INGRESS_NS"

abbreviation rx_ack where
  "rx_ack E \<equiv> spi_write E LAN9250_1588_INT_STS LAN9250_1588_INT_STS_RX_TS_INT"

lemma rx_capture_cases:
  obtains t where "rx_capture E pkt k s = Some (False, t)" "extends (is_spi E) s t"
  | hw sec ns u where "extends (is_spi E) s u" "rx_reading E (trace s) hw sec ns (trace u)"
    "rx_capture E pkt k s = Some (rx_event E pkt k hw sec ns (act (rx_ack E) u))"
proof -
  define s1 where "s1 = act (spi_write E LAN9250_1588_BANK_PORT_GPIO_SEL LAN9250_1588_BANK_SEL_PORT_GENERAL) s"
  define s2 where "s2 = act (spi_read E LAN9250_1588_CAP_INFO) s1"
  define s3 where "s3 = act (spi_write E LAN9250_1588_BANK_PORT_GPIO_SEL LAN9250_1588_BANK_SEL_PORT_RX) s2"
  define s4 where "s4 = act (spi_read E LAN9250_1588_RX_MSG_HEADER) s3"
  define s5 where "s5 = act (spi_read E LAN9250_1588_RX_INGRESS_SEC) s4"
  define s6 where "s6 = act (spi_read E LAN9250_1588_RX_INGRESS_NS) s5"
  note acts = s1_def s2_def s3_def s4_def s5_def s6_def
  have ext: "extends (is_spi E) s s1" "extends (is_spi E) s s2" "extends (is_spi E) s s3" "extends (is_spi E) s s4"
    "extends (is_spi E) s s5" "extends (is_spi E) s s6"
    unfolding acts by (meson extends_act extends_trans is_spi_1588)+
  have chain: "rx_capture E pkt k s = (
    if spi_ret E (trace s1) < 0 then Some (False, s1)
    else if spi_ret E (trace s2) < 0 then Some (False, s2)
    else if le32 (spi_rx E (trace s2)) AND LAN9250_1588_CAP_INFO_RX_TS_CNT_MASK = 0 then Some (False, s2)
    else if spi_ret E (trace s3) < 0 then Some (False, s3)
    else if spi_ret E (trace s4) < 0 then Some (False, s4)
    else if spi_ret E (trace s5) < 0 then Some (False, s5)
    else if spi_ret E (trace s6) < 0 then Some (False, s6)
    else Some (rx_event E pkt k (hw_id (le32 (spi_rx E (trace s4)))) (le32 (spi_rx E (trace s5)))
      (le32 (spi_rx E (trace s6))) (act (rx_ack E) s6)))"
    by (simp add: rx_capture_def or_stop_def or_stop_q_def lan9250_1588_bank_select_def
        lan9250_write_sys_reg_def lan9250_read_sys_reg_def Let_def acts)
  show thesis
  proof (cases "spi_ret E (trace s1) < 0 \<or> spi_ret E (trace s2) < 0 \<or>
      le32 (spi_rx E (trace s2)) AND LAN9250_1588_CAP_INFO_RX_TS_CNT_MASK = 0 \<or>
      spi_ret E (trace s3) < 0 \<or> spi_ret E (trace s4) < 0 \<or> spi_ret E (trace s5) < 0 \<or>
      spi_ret E (trace s6) < 0")
    case True
    then show thesis using that(1) chain ext by metis
  next
    case False
    have "\<exists>mid. list_all (is_spi E) mid \<and> trace s4 = spi_read E LAN9250_1588_RX_MSG_HEADER # mid @ trace s"
      using ext(3) by (auto simp: s4_def act_def extends_def)
    then have "rx_reading E (trace s) (hw_id (le32 (spi_rx E (trace s4)))) (le32 (spi_rx E (trace s5)))
        (le32 (spi_rx E (trace s6))) (trace s6)"
      using False unfolding reading_def Let_def s6_def s5_def by (auto simp: act_def)
    with that(2) [OF ext(6)] chain False show thesis by simp
  qed
qed

text \<open>What happens to an event.\<close>

lemma rx_event_own:
  "rx_event E pkt k k sec ns s =
    (True, (act (Set_timestamp pkt sec ns) s)\<lparr>diag_matched_immediate := diag_matched_immediate s + 1\<rparr>)"
  by (simp add: rx_event_def)

lemma rx_event_pending:
  assumes "hw \<noteq> k" "\<exists>x\<in>set (rx_pending s). waits_for hw x"
  obtains i owner where "i < length (rx_pending s)" "waits_for hw (rx_pending s ! i)"
    "\<forall>j<i. \<not> waits_for hw (rx_pending s ! j)" "rp_pkt (rx_pending s ! i) = Some owner"
    "rx_event E pkt k hw sec ns s = (False,
      (act (Pkt_unref owner) (act (Set_timestamp owner sec ns) s))
      \<lparr>rx_pending := (rx_pending s)[i := (rx_pending s ! i)\<lparr>rp_pkt := None\<rparr>],
        diag_matched_pending := diag_matched_pending s + 1\<rparr>)"
proof -
  obtain i where f: "find_slot (waits_for hw) (rx_pending s) = Some i"
    using assms(2) find_slot_None [of "waits_for hw" "rx_pending s"] by (cases "find_slot (waits_for hw) (rx_pending s)") auto
  then have i: "i < length (rx_pending s)" "waits_for hw (rx_pending s ! i)"
    "\<forall>j<i. \<not> waits_for hw (rx_pending s ! j)"
    by (auto simp: find_slot_Some)
  then obtain owner where "rp_pkt (rx_pending s ! i) = Some owner" by (auto simp: waits_for_def)
  with that [OF i this] assms(1) f i(1) show thesis by (simp add: rx_event_def Let_def)
qed

lemma rx_event_stash:
  assumes "hw \<noteq> k" "\<forall>x\<in>set (rx_pending s). \<not> waits_for hw x"
  shows "rx_event E pkt k hw sec ns s = (False, stash_unclaimed E hw sec ns s)"
  using assms by (simp add: rx_event_def find_slot_None [THEN iffD2])

section \<open>Invariants of the steps\<close>

text \<open>The trace grows by events that satisfy \<open>P\<close>; the struct may change.\<close>

definition grew :: "(ev \<Rightarrow> bool) \<Rightarrow> lan \<Rightarrow> lan \<Rightarrow> bool" where
  "grew P s t \<longleftrightarrow> (\<exists>new. trace t = new @ trace s \<and> list_all P new)"

lemma grew_trans [trans]: "grew P s t \<Longrightarrow> grew P t u \<Longrightarrow> grew P s u"
  unfolding grew_def by (metis append.assoc list_all_append)

lemma grew_extends: "extends P s t \<Longrightarrow> grew P s t"
  by (auto simp: extends_def grew_def)

lemma grew_same: "trace t = trace s \<Longrightarrow> grew P s t"
  by (simp add: grew_def)

lemma grew_mono: "grew P s t \<Longrightarrow> (\<And>e. P e \<Longrightarrow> Q e) \<Longrightarrow> grew Q s t"
  unfolding grew_def by (metis list_all_iff)

text \<open>What a step may do, given what a timestamp must satisfy: no locking, and only such
  timestamps; and what it keeps.\<close>

fun fair :: "lan_env \<Rightarrow> (pkt \<Rightarrow> u32 \<Rightarrow> u32 \<Rightarrow> bool) \<Rightarrow> ev \<Rightarrow> bool" where
  "fair E T (Set_timestamp q sec ns) = T q sec ns"
| "fair E T (Spi b n) = transfer_1588 E (Spi b n)"
| "fair E T (Sleep_ms n) = True"
| "fair E T (Pkt_ref q) = True"
| "fair E T (Pkt_unref q) = True"
| "fair E T e = False"

lemma fair_spi: "is_spi E e \<Longrightarrow> fair E T e"
  by (cases e) simp_all

definition step_ok :: "lan_env \<Rightarrow> (pkt \<Rightarrow> u32 \<Rightarrow> u32 \<Rightarrow> bool) \<Rightarrow> lan \<Rightarrow> lan \<Rightarrow> bool" where
  "step_ok E T s t \<longleftrightarrow> wf t \<and> grew (fair E T) s t \<and> (\<forall>p. owed p t = owed p s)"

lemma step_ok_trans [trans]: "step_ok E T s t \<Longrightarrow> step_ok E T t u \<Longrightarrow> step_ok E T s u"
  unfolding step_ok_def by (metis grew_trans)

lemma wf_extends: "extends P s t \<Longrightarrow> wf t \<longleftrightarrow> wf s"
  by (auto simp: extends_def wf_def)

lemma step_ok_spi: "wf s \<Longrightarrow> extends (is_spi E) s t \<Longrightarrow> step_ok E T s t"
  unfolding step_ok_def using wf_extends owed_spi grew_mono [OF grew_extends] fair_spi by metis

lemma expire_ok:
  assumes "wf s"
  shows "step_ok E T s (lan9250_1588_rx_pending_expire E now s)"
proof -
  obtain d m where e: "lan9250_1588_rx_pending_expire E now s = s\<lparr>
    trace := rev (expired now (rx_pending s)) @ trace s,
    rx_pending := map (expire_pending now) (rx_pending s),
    rx_unclaimed := map (expire_unclaimed now) (rx_unclaimed s),
    diag_expired_unmatched := d, diag_last_summary_ms := m\<rparr>"
    using expire_effect [OF assms] by blast
  have "int (held (map (expire_pending now) xs) p) - balance p (rev (expired now xs)) = int (held xs p)"
    for xs p
    by (induction xs) (auto simp: held_def expired_def expire_pending_def balance_def)
  moreover have "list_all (fair E T) (rev (expired now (rx_pending s)))"
    by (auto simp: expired_def list_all_iff)
  ultimately show ?thesis
    using assms by (auto simp: step_ok_def e wf_def grew_def owed_def balance_append algebra_simps)
qed

lemma step_ok_stamp:
  "wf s \<Longrightarrow> T q sec ns \<Longrightarrow> trace t = Set_timestamp q sec ns # trace s \<Longrightarrow>
     rx_pending t = rx_pending s \<Longrightarrow> length (rx_unclaimed t) = length (rx_unclaimed s) \<Longrightarrow> step_ok E T s t"
  by (auto simp: step_ok_def wf_def grew_def owed_def balance_Cons)

lemma event_ok:
  assumes wf: "wf s" and own: "hw = k \<Longrightarrow> T pkt sec ns"
    and others: "\<And>x q. x \<in> set (rx_pending s) \<Longrightarrow> waits_for hw x \<Longrightarrow> rp_pkt x = Some q \<Longrightarrow> T q sec ns"
  shows "step_ok E T s (snd (rx_event E pkt k hw sec ns s))"
proof (cases "hw = k")
  case True
  with own show ?thesis unfolding True rx_event_own
    by (intro step_ok_stamp [OF wf]) (simp_all add: act_def)
next
  case hw: False
  show ?thesis
  proof (cases "\<exists>x\<in>set (rx_pending s). waits_for hw x")
    case True
    with hw obtain i owner where i: "i < length (rx_pending s)" "waits_for hw (rx_pending s ! i)"
      "rp_pkt (rx_pending s ! i) = Some owner"
      "rx_event E pkt k hw sec ns s = (False,
        (act (Pkt_unref owner) (act (Set_timestamp owner sec ns) s))
        \<lparr>rx_pending := (rx_pending s)[i := (rx_pending s ! i)\<lparr>rp_pkt := None\<rparr>],
          diag_matched_pending := diag_matched_pending s + 1\<rparr>)"
      by (rule rx_event_pending)
    have "T owner sec ns" using others [OF nth_mem [OF i(1)] i(2,3)] .
    with wf show ?thesis
      by (auto simp: i(4) step_ok_def wf_def grew_def act_def owed_def held_update [OF i(1)] i(3)
          balance_Cons intro!: exI [of _ "[Pkt_unref owner, Set_timestamp owner sec ns]"])
  next
    case False
    with hw wf show ?thesis
      by (simp add: rx_event_stash stash_unclaimed_def Let_def step_ok_def grew_same owed_def) (simp add: wf_def)
  qed
qed

text \<open>Where a timestamp may come from: an event captured earlier, or one read now.\<close>

definition source :: "lan_env \<Rightarrow> lan \<Rightarrow> lan \<Rightarrow> ptp_id \<Rightarrow> u32 \<Rightarrow> u32 \<Rightarrow> bool" where
  "source E s t k sec ns \<longleftrightarrow>
    (\<exists>u\<in>set (rx_unclaimed s). stored_for k u \<and> ru_sec u = sec \<and> ru_ns u = ns) \<or>
    (\<exists>g h post mid. rx_reading E g k sec ns h \<and> trace t = post @ h \<and> g = mid @ trace s)"

definition stamp_ok :: "lan_env \<Rightarrow> pkt \<Rightarrow> ptp_id \<Rightarrow> lan \<Rightarrow> lan \<Rightarrow> pkt \<Rightarrow> u32 \<Rightarrow> u32 \<Rightarrow> bool" where
  "stamp_ok E pkt k s t q sec ns \<longleftrightarrow> (\<exists>m. source E s t m sec ns \<and>
     (q = pkt \<and> m = k \<or> (\<exists>x\<in>set (rx_pending s). pending_for m x \<and> rp_pkt x = Some q)))"

lemmas stamp_origin = source_def stamp_ok_def tests_mean

lemma match_returns: "\<exists>a t. rx_match E pkt k s = Some (a, t)"
proof (cases "find_slot (captured_for k) (rx_unclaimed s)")
  case None
  then show ?thesis
    by (cases rule: rx_capture_cases [of E pkt k s]) (auto simp: rx_match_def)
qed (auto simp: rx_match_def Let_def intro: exI [of _ True])

lemma match_ok:
  assumes wf: "wf s" and m: "rx_match E pkt k s = Some (a, t)"
  shows "step_ok E (stamp_ok E pkt k s t) s t"
proof (cases "find_slot (captured_for k) (rx_unclaimed s)")
  case (Some i)
  let ?u = "rx_unclaimed s ! i"
  from Some have i: "i < length (rx_unclaimed s)" "captured_for k ?u"
    by (auto simp: find_slot_Some)
  then have "stamp_ok E pkt k s t pkt (ru_sec ?u) (ru_ns ?u)"
    unfolding stamp_origin using nth_mem by blast
  with m Some i(1) show ?thesis
    by (intro step_ok_stamp [OF wf]) (auto simp: rx_match_def Let_def act_def)
next
  case None
  with m have c: "rx_capture E pkt k s = Some (a, t)" by (simp add: rx_match_def)
  show ?thesis
  proof (cases rule: rx_capture_cases [of E pkt k s])
    case (1 u)
    with c wf show ?thesis by (simp add: step_ok_spi)
  next
    case (2 hw sec ns u)
    let ?v = "act (rx_ack E) u"
    from c 2(3) have ev: "rx_event E pkt k hw sec ns ?v = (a, t)" by simp
    have uv: "extends (is_spi E) u ?v" by (rule extends_act) simp
    with 2(1) have sv: "extends (is_spi E) s ?v" by (rule extends_trans)
    then have same: "rx_pending ?v = rx_pending s" "wf ?v"
      using extends_fields(3) wf wf_extends by blast+
    have "grew (fair E (\<lambda>q sec ns. True)) ?v t"
      using event_ok [OF same(2), of hw k "\<lambda>q sec ns. True" pkt sec ns E] ev by (simp add: step_ok_def)
    then obtain post where "trace t = post @ trace ?v" by (auto simp: grew_def)
    then have "trace t = (post @ [rx_ack E]) @ trace u" by (simp add: act_def)
    then have src: "source E s t hw sec ns"
      unfolding source_def tests_mean using 2(2) by (metis append_Nil)
    have "step_ok E (stamp_ok E pkt k s t) ?v (snd (rx_event E pkt k hw sec ns ?v))"
    proof (rule event_ok [OF same(2)])
      show "hw = k \<Longrightarrow> stamp_ok E pkt k s t pkt sec ns" using src unfolding stamp_ok_def tests_mean by blast
      show "\<And>x q. x \<in> set (rx_pending ?v) \<Longrightarrow> waits_for hw x \<Longrightarrow> rp_pkt x = Some q \<Longrightarrow>
          stamp_ok E pkt k s t q sec ns"
        using src unfolding stamp_ok_def tests_mean same(1) by blast
    qed
    with step_ok_spi [OF wf sv] show ?thesis by (simp add: ev) (rule step_ok_trans)
  qed
qed

lemma queue_ok:
  assumes wf: "wf s"
  shows "step_ok E T s (rx_queue E pkt k a s)"
proof (cases "a \<or> \<not> lan9250_1588_msg_type_is_timestamped (fst k)")
  case True
  then show ?thesis using wf by (auto simp: rx_queue_def step_ok_def grew_same)
next
  case False
  let ?i = "pending.slot (rx_pending s)"
  have i: "?i < length (rx_pending s)" using wf by simp
  define unref where "unref = (case rp_pkt (rx_pending s ! ?i) of None \<Rightarrow> [] | Some old \<Rightarrow> [Pkt_unref old])"
  have "list_all (fair E T) (Pkt_ref pkt # unref)" by (simp add: unref_def split: option.split)
  moreover have "trace (rx_queue E pkt k a s) = (Pkt_ref pkt # unref) @ trace s"
    using False by (simp add: rx_queue_def Let_def act_def unref_def split: option.split)
  ultimately have "grew (fair E T) s (rx_queue E pkt k a s)" unfolding grew_def by metis
  moreover have "wf (rx_queue E pkt k a s)"
    using False wf i by (simp add: rx_queue_def Let_def act_def split: option.split) (simp add: wf_def)
  moreover have "owed p (rx_queue E pkt k a s) = owed p s" for p
    using False i
    by (auto simp: rx_queue_def Let_def act_def owed_def held_update [OF i] balance_Cons
        split: option.split)
  ultimately show ?thesis by (simp add: step_ok_def)
qed

section \<open>The whole check\<close>

text \<open>The PTP identity of a received frame, as the driver reads it from the packet.\<close>

definition rx_id :: "lan_env \<Rightarrow> pkt \<Rightarrow> nat \<Rightarrow> lan \<Rightarrow> ptp_id option" where
  "rx_id E pkt len s =
    (let (ret, header) = net_pkt_read E (Pkt_read pkt (min len 128) # trace s)
     in if ret < 0 then None
        else case lan9250_ptp_parse_header E (take (min len 128) header) of
          Some (Some k) \<Rightarrow> Some k | _ \<Rightarrow> None)"

lemma rx_check_cases:
  assumes "lan9250_1588_rx_timestamp_check E pkt len s = Some t"
  defines "s1 \<equiv> act (Pkt_read pkt (min len 128)) s"
  defines "s2 \<equiv> act (Lock Bank_lock) s1"
  obtains "rx_id E pkt len s = None" "t = s1"
  | k a s4 where "rx_id E pkt len s = Some k"
    "rx_match E pkt k (lan9250_1588_rx_pending_expire E (uptime E (trace s2)) s2) = Some (a, s4)"
    "t = act (Unlock Bank_lock) (rx_queue E pkt k a s4)"
proof -
  obtain ret header where h: "net_pkt_read E (Pkt_read pkt (min len 128) # trace s) = (ret, header)"
    by fastforce
  then have h': "net_pkt_read E (trace s1) = (ret, header)" by (simp add: s1_def act_def)
  show thesis
  proof (cases "ret < 0")
    case True
    with assms(1) that(1) h h' show thesis
      by (simp add: lan9250_1588_rx_timestamp_check_def rx_id_def Let_def s1_def)
  next
    case ok: False
    with assms(1) h' obtain parsed where p:
      "lan9250_ptp_parse_header E (take (min len 128) header) = Some parsed"
      by (auto simp: lan9250_1588_rx_timestamp_check_def Let_def s1_def bind_eq_Some_conv)
    show thesis
    proof (cases parsed)
      case None
      with assms(1) that(1) h h' ok p show thesis
        by (simp add: lan9250_1588_rx_timestamp_check_def rx_id_def Let_def s1_def)
    next
      case (Some k)
      then have "rx_id E pkt len s = Some k" using h ok p by (simp add: rx_id_def)
      moreover obtain a s4 where
        m: "rx_match E pkt k (lan9250_1588_rx_pending_expire E (uptime E (trace s2)) s2) = Some (a, s4)"
        using match_returns by blast
      moreover have "t = act (Unlock Bank_lock) (rx_queue E pkt k a s4)"
        using assms(1) h' ok p Some m
        by (simp add: lan9250_1588_rx_timestamp_check_def Let_def s1_def s2_def)
      ultimately show thesis by (rule that(2))
    qed
  qed
qed

lemma live_after_expiry:
  assumes "wf s" "t = lan9250_1588_rx_pending_expire E now s"
  shows "x \<in> set (rx_pending t) \<Longrightarrow> is_pending x \<Longrightarrow> x \<in> set (rx_pending s) \<and> now < rp_deadline x"
    "u \<in> set (rx_unclaimed t) \<Longrightarrow> ru_valid u \<Longrightarrow> u \<in> set (rx_unclaimed s) \<and> now < ru_deadline u"
proof -
  have sets: "rx_pending t = map (expire_pending now) (rx_pending s)"
    "rx_unclaimed t = map (expire_unclaimed now) (rx_unclaimed s)"
    using expire_effect [OF assms(1), of E now] assms(2) by auto
  show "x \<in> set (rx_pending t) \<Longrightarrow> is_pending x \<Longrightarrow> x \<in> set (rx_pending s) \<and> now < rp_deadline x"
    using pending.expire_used pending.expire_same unfolding sets by fastforce
  show "u \<in> set (rx_unclaimed t) \<Longrightarrow> ru_valid u \<Longrightarrow> u \<in> set (rx_unclaimed s) \<and> now < ru_deadline u"
    using unclaimed.expire_used unclaimed.expire_same unfolding sets by fastforce
qed

lemma waits_is_pending: "waits_for k x \<Longrightarrow> is_pending x"
  by (simp add: waits_for_def is_pending_def)

lemma wf_act [simp]: "wf (act e s) = wf s"
  by (simp add: wf_def act_def)

lemma stamp_ok_widen:
  assumes "\<And>u. u \<in> set (rx_unclaimed s3) \<Longrightarrow> ru_valid u \<Longrightarrow> u \<in> set (rx_unclaimed s)"
    "\<And>x. x \<in> set (rx_pending s3) \<Longrightarrow> is_pending x \<Longrightarrow> x \<in> set (rx_pending s)"
    "trace s3 = mid @ trace s" "trace t = post @ trace s4" "stamp_ok E pkt k s3 s4 q sec ns"
  shows "stamp_ok E pkt k s t q sec ns"
proof -
  from assms(5) obtain j where j: "source E s3 s4 j sec ns"
    "q = pkt \<and> j = k \<or> (\<exists>x\<in>set (rx_pending s3). waits_for j x \<and> rp_pkt x = Some q)"
    unfolding stamp_ok_def tests_mean by blast
  consider u where "u \<in> set (rx_unclaimed s3)" "captured_for j u" "ru_sec u = sec" "ru_ns u = ns"
    | g h post' mid' where "rx_reading E g j sec ns h" "trace s4 = post' @ h" "g = mid' @ trace s3"
    using j(1) unfolding source_def tests_mean by blast
  then have "source E s t j sec ns"
  proof cases
    case 1
    then have "u \<in> set (rx_unclaimed s)" using assms(1) by (auto simp: captured_for_def)
    with 1 show ?thesis unfolding source_def tests_mean by blast
  next
    case 2
    then have "trace t = (post @ post') @ h" "g = (mid' @ mid) @ trace s"
      by (simp_all add: assms(3,4))
    with 2(1) show ?thesis unfolding source_def tests_mean by blast
  qed
  moreover have "q = pkt \<and> j = k \<or> (\<exists>x\<in>set (rx_pending s). waits_for j x \<and> rp_pkt x = Some q)"
    using j(2) assms(2) waits_is_pending by blast
  ultimately show ?thesis unfolding stamp_ok_def tests_mean by blast
qed

text \<open>A check that finds PTP: everything between the lock and the unlock is a fair step.\<close>

lemma rx_check_locked:
  assumes wf: "wf s" and c: "lan9250_1588_rx_timestamp_check E pkt len s = Some t"
    and k: "rx_id E pkt len s = Some k"
  obtains u where "t = act (Unlock Bank_lock) u"
    "step_ok E (stamp_ok E pkt k s t) (act (Lock Bank_lock) (act (Pkt_read pkt (min len 128)) s)) u"
  using c
proof (cases rule: rx_check_cases)
  case (2 m a s4)
  let ?s2 = "act (Lock Bank_lock) (act (Pkt_read pkt (min len 128)) s)"
  let ?s3 = "lan9250_1588_rx_pending_expire E (uptime E (trace ?s2)) ?s2"
  let ?u = "rx_queue E pkt k a s4"
  have m: "m = k" using 2(1) k by simp
  have wf2: "wf ?s2" using wf by simp
  have e: "step_ok E (stamp_ok E pkt k s t) ?s2 ?s3" by (rule expire_ok [OF wf2])
  then have wf3: "wf ?s3" by (simp add: step_ok_def)
  have match: "rx_match E pkt k ?s3 = Some (a, s4)" using 2(2) m by simp
  have mo: "step_ok E (stamp_ok E pkt k ?s3 s4) ?s3 s4" by (rule match_ok [OF wf3 match])
  then have wf4: "wf s4" by (simp add: step_ok_def)
  have q: "step_ok E (stamp_ok E pkt k s t) s4 ?u" by (rule queue_ok [OF wf4])
  obtain mid where mid: "trace ?s3 = mid @ trace s"
  proof -
    obtain new where "trace ?s3 = new @ trace ?s2" using e by (auto simp: step_ok_def grew_def)
    then show thesis using that [of "new @ [Lock Bank_lock, Pkt_read pkt (min len 128)]"]
      by (simp add: act_def)
  qed
  obtain post where post: "trace t = post @ trace s4"
  proof -
    obtain new where "trace ?u = new @ trace s4" using q by (auto simp: step_ok_def grew_def)
    then show thesis using that [of "Unlock Bank_lock # new"] 2(3) m by (simp add: act_def)
  qed
  have "stamp_ok E pkt k s t q sec ns" if "stamp_ok E pkt k ?s3 s4 q sec ns" for q sec ns
    using live_after_expiry [OF wf2 refl] mid post that
    by (intro stamp_ok_widen [of ?s3 s mid t post s4]) (auto simp: act_def)
  then have "fair E (stamp_ok E pkt k s t) e" if "fair E (stamp_ok E pkt k ?s3 s4) e" for e
    using that by (cases e) auto
  then have "step_ok E (stamp_ok E pkt k s t) ?s3 s4"
    using mo grew_mono unfolding step_ok_def by blast
  then have "step_ok E (stamp_ok E pkt k s t) ?s2 ?u" by (rule step_ok_trans [OF step_ok_trans [OF e] q])
  with that 2(3) m show thesis by blast
qed (use k in simp)

text \<open>No lock is taken or released.\<close>

fun lock_free :: "ev \<Rightarrow> bool" where
  "lock_free (Lock l) = False"
| "lock_free (Unlock l) = False"
| "lock_free e = True"

lemma fair_lock_free: "fair E T e \<Longrightarrow> lock_free e"
  by (cases e) simp_all

lemma grew_fair:
  assumes "grew (fair E T) s t"
  obtains new where "trace t = new @ trace s" "list_all (fair E T) new" "list_all lock_free new"
    "\<And>q sec ns. Set_timestamp q sec ns \<in> set new \<Longrightarrow> T q sec ns"
proof -
  obtain new where new: "trace t = new @ trace s" "list_all (fair E T) new"
    using assms by (auto simp: grew_def)
  then have "T q sec ns" if "Set_timestamp q sec ns \<in> set new" for q sec ns
    using that by (auto simp: list_all_iff)
  moreover have "list_all lock_free new" using new(2) fair_lock_free by (auto simp: list_all_iff)
  ultimately show thesis using that new by blast
qed

text \<open>Both outcomes of a check at once.\<close>

lemma rx_check_outcome:
  assumes wf: "wf s" and c: "lan9250_1588_rx_timestamp_check E pkt len s = Some t"
  obtains "rx_id E pkt len s = None" "t = act (Pkt_read pkt (min len 128)) s"
  | k mid where "rx_id E pkt len s = Some k" "wf t"
    "trace t = Unlock Bank_lock # mid @ Lock Bank_lock # Pkt_read pkt (min len 128) # trace s"
    "list_all (fair E (stamp_ok E pkt k s t)) mid" "list_all lock_free mid"
    "\<And>q sec ns. Set_timestamp q sec ns \<in> set mid \<Longrightarrow> stamp_ok E pkt k s t q sec ns"
    "\<And>p. owed p t = owed p s"
proof (cases "rx_id E pkt len s")
  case None
  with c that(1) show thesis by (elim rx_check_cases) simp_all
next
  case (Some k)
  let ?s2 = "act (Lock Bank_lock) (act (Pkt_read pkt (min len 128)) s)"
  obtain u where u: "t = act (Unlock Bank_lock) u" "step_ok E (stamp_ok E pkt k s t) ?s2 u"
    using rx_check_locked [OF wf c Some] .
  obtain mid where mid: "trace u = mid @ trace ?s2" "list_all (fair E (stamp_ok E pkt k s t)) mid"
    "list_all lock_free mid"
    "\<And>q sec ns. Set_timestamp q sec ns \<in> set mid \<Longrightarrow> stamp_ok E pkt k s t q sec ns"
    using u(2) grew_fair unfolding step_ok_def by metis
  have "owed p t = owed p s" for p
  proof -
    have "owed p u = owed p ?s2" using u(2) by (simp add: step_ok_def)
    then show ?thesis by (simp add: u(1) owed_def act_def balance_Cons)
  qed
  moreover have "wf t" using u by (simp add: step_ok_def)
  moreover have "trace t = Unlock Bank_lock # mid @ Lock Bank_lock # Pkt_read pkt (min len 128) # trace s"
    using u(1) mid(1) by (simp add: act_def)
  ultimately show thesis using that(2) Some mid(2-4) by blast
qed

section \<open>Deadlines\<close>

text \<open>Nothing waits for longer than the time-out.\<close>

definition timely :: "lan_env \<Rightarrow> lan \<Rightarrow> bool" where
  "timely E s \<longleftrightarrow>
    (\<forall>x\<in>set (rx_pending s). is_pending x \<longrightarrow>
       rp_deadline x \<le> uptime E (trace s) + LAN9250_1588_RX_PENDING_TIMEOUT_MS) \<and>
    (\<forall>u\<in>set (rx_unclaimed s). ru_valid u \<longrightarrow>
       ru_deadline u \<le> uptime E (trace s) + LAN9250_1588_RX_PENDING_TIMEOUT_MS)"

text \<open>The tables hold what they held, or entries made since, whose deadline is the time-out past
  some moment in between.\<close>

definition made :: "lan_env \<Rightarrow> lan \<Rightarrow> lan \<Rightarrow> int \<Rightarrow> bool" where
  "made E s t d \<longleftrightarrow> (\<exists>h new old. trace t = new @ h \<and> h = old @ trace s \<and>
     d = uptime E h + LAN9250_1588_RX_PENDING_TIMEOUT_MS)"

definition newer :: "lan_env \<Rightarrow> lan \<Rightarrow> lan \<Rightarrow> bool" where
  "newer E s t \<longleftrightarrow> grew (\<lambda>_. True) s t \<and>
    (\<forall>x\<in>set (rx_pending t). is_pending x \<longrightarrow> x \<in> set (rx_pending s) \<or> made E s t (rp_deadline x)) \<and>
    (\<forall>u\<in>set (rx_unclaimed t). ru_valid u \<longrightarrow> u \<in> set (rx_unclaimed s) \<or> made E s t (ru_deadline u))"

lemma made_later: "made E s t d \<Longrightarrow> grew P t u \<Longrightarrow> made E s u d"
  unfolding made_def grew_def by (metis append.assoc)

lemma made_earlier: "made E t u d \<Longrightarrow> grew P s t \<Longrightarrow> made E s u d"
  unfolding made_def grew_def by (metis append.assoc)

lemma newer_trans [trans]:
  assumes st: "newer E s t" and tu: "newer E t u"
  shows "newer E s u"
  unfolding newer_def
proof (intro conjI ballI impI)
  have g: "grew (\<lambda>_. True) s t" "grew (\<lambda>_. True) t u" using assms by (simp_all add: newer_def)
  then show "grew (\<lambda>_. True) s u" by (rule grew_trans)
  note since = made_later [OF _ g(2)] made_earlier [OF _ g(1)]
  fix x assume "x \<in> set (rx_pending u)" "is_pending x"
  then show "x \<in> set (rx_pending s) \<or> made E s u (rp_deadline x)"
    using assms since unfolding newer_def by blast
next
  have g: "grew (\<lambda>_. True) s t" "grew (\<lambda>_. True) t u" using assms by (simp_all add: newer_def)
  note since = made_later [OF _ g(2)] made_earlier [OF _ g(1)]
  fix x assume "x \<in> set (rx_unclaimed u)" "ru_valid x"
  then show "x \<in> set (rx_unclaimed s) \<or> made E s u (ru_deadline x)"
    using assms since unfolding newer_def by blast
qed

lemma newer_same:
  "grew P s t \<Longrightarrow> rx_pending t = rx_pending s \<Longrightarrow> rx_unclaimed t = rx_unclaimed s \<Longrightarrow> newer E s t"
  unfolding newer_def using grew_mono by auto

lemma newer_act [simp]: "newer E s (act e s)"
  by (rule newer_same [of "\<lambda>_. True"]) (auto simp: act_def grew_def)

lemma newer_extends: "extends P s t \<Longrightarrow> newer E s t"
  using newer_same grew_extends extends_fields(3,4) by blast

lemma newer_expire: "wf s \<Longrightarrow> newer E s (lan9250_1588_rx_pending_expire E now s)"
proof -
  assume wf: "wf s"
  let ?t = "lan9250_1588_rx_pending_expire E now s"
  have "grew (fair E (\<lambda>_ _ _. True)) s ?t" using expire_ok [OF wf] by (simp add: step_ok_def)
  then have "grew (\<lambda>_. True) s ?t" by (rule grew_mono) simp
  then show ?thesis unfolding newer_def using live_after_expiry [OF wf refl] by blast
qed

lemma set_update_D: "y \<in> set (xs[i := x]) \<Longrightarrow> y = x \<or> y \<in> set xs"
  using set_update_subset_insert [of xs i x] by auto

lemmas set_write_D = set_store set_update_D

lemma newer_event: "newer E s (snd (rx_event E pkt k hw sec ns s))"
proof (cases "hw = k")
  case True
  then show ?thesis
    by (intro newer_same [of "\<lambda>_. True"]) (auto simp: rx_event_own act_def grew_def)
next
  case hw: False
  show ?thesis
  proof (cases "\<exists>x\<in>set (rx_pending s). waits_for hw x")
    case True
    with hw obtain i owner where "rx_event E pkt k hw sec ns s = (False,
        (act (Pkt_unref owner) (act (Set_timestamp owner sec ns) s))
        \<lparr>rx_pending := (rx_pending s)[i := (rx_pending s ! i)\<lparr>rp_pkt := None\<rparr>],
          diag_matched_pending := diag_matched_pending s + 1\<rparr>)"
      by (rule rx_event_pending)
    then show ?thesis
      by (auto simp: newer_def grew_def act_def is_pending_def dest!: set_write_D)
  next
    case False
    have "made E s (stash_unclaimed E hw sec ns s) (uptime E (trace s) + LAN9250_1588_RX_PENDING_TIMEOUT_MS)"
      unfolding made_def by (intro exI [of _ "trace s"] exI [of _ "[]"])
        (simp add: stash_unclaimed_def Let_def)
    then show ?thesis unfolding rx_event_stash [OF hw False [simplified bex_simps]]
      by (auto simp: newer_def grew_same stash_unclaimed_def Let_def dest!: set_write_D)
  qed
qed

lemma newer_match:
  assumes "rx_match E pkt k s = Some (a, t)"
  shows "newer E s t"
proof (cases "find_slot (captured_for k) (rx_unclaimed s)")
  case (Some i)
  with assms show ?thesis
    by (auto simp: rx_match_def Let_def newer_def grew_def act_def dest!: set_write_D)
next
  case None
  with assms have c: "rx_capture E pkt k s = Some (a, t)" by (simp add: rx_match_def)
  show ?thesis
  proof (cases rule: rx_capture_cases [of E pkt k s])
    case (1 u)
    with c show ?thesis by (simp add: newer_extends)
  next
    case (2 hw sec ns u)
    have "newer E (act (rx_ack E) u) t" using newer_event c 2(3) by (metis option.inject snd_conv)
    then show ?thesis using newer_trans [OF newer_extends [OF 2(1)]] newer_trans [OF newer_act] by blast
  qed
qed

lemma newer_queue: "newer E s (rx_queue E pkt k a s)"
proof (cases "a \<or> \<not> lan9250_1588_msg_type_is_timestamped (fst k)")
  case True
  then show ?thesis by (auto simp: rx_queue_def newer_same grew_same)
next
  case False
  let ?t = "rx_queue E pkt k a s" and ?i = "pending.slot (rx_pending s)"
  obtain x where x: "rx_pending ?t = store (rx_pending s) ?i x" "rx_unclaimed ?t = rx_unclaimed s"
      "rp_deadline x = uptime E (trace ?t) + LAN9250_1588_RX_PENDING_TIMEOUT_MS"
    using False by (auto simp: rx_queue_def Let_def act_def split: option.split)
  have g: "grew (\<lambda>_. True) s ?t"
    using False by (auto simp: rx_queue_def Let_def act_def grew_def split: option.split)
  then have "made E s ?t (rp_deadline x)"
    unfolding made_def grew_def x(3) by (metis append_Nil)
  with g show ?thesis unfolding newer_def x(1,2) by (auto dest!: set_write_D)
qed

lemma uptime_mono: "clock_runs E \<Longrightarrow> uptime E h \<le> uptime E (new @ h)"
  by (induction new) (auto simp: clock_runs_def intro: order_trans)

lemma timely_newer:
  assumes "clock_runs E" "timely E s" "newer E s t"
  shows "timely E t"
proof -
  have "uptime E (trace s) \<le> uptime E (trace t)"
    using assms(3) uptime_mono [OF assms(1)] unfolding newer_def grew_def by metis
  moreover have "d \<le> uptime E (trace t) + LAN9250_1588_RX_PENDING_TIMEOUT_MS" if "made E s t d" for d
    using that uptime_mono [OF assms(1)] unfolding made_def by force
  ultimately show ?thesis using assms(2,3) unfolding timely_def newer_def by (meson add_mono order_refl order_trans)
qed

end
