(* ===== verification/Ptp_Rx.thy ===== *)
theory Ptp_Rx
  imports Ptp_Match
begin

text \<open>
  What the timestamp check of a received frame achieves, from the lemmas of \<open>Ptp_Match\<close>: packet
  references balance, timestamps go where they belong, the register bank is held under its lock,
  early and late events are delivered, and nobody waits for longer than the time-out.
\<close>

section \<open>Concrete runs\<close>

text \<open>A chip that has captured a Sync (type 0) with sequence id 258 at second 7; the packet read
  is that Sync.\<close>

definition ptp_chip :: lan_env where
  "ptp_chip = calm\<lparr>spi_rx := \<lambda>h. (case h of
     Spi [i, a, b] n # _ \<Rightarrow>
       (if b = 0x60 then [1, 0, 0, 0] else if b = 0x74 then [2, 1, 0, 0]
        else if b = 0x6C then [7, 0, 0, 0] else [9, 0, 0, 0])
   | _ \<Rightarrow> [0, 0, 0, 0]), net_pkt_read := \<lambda>h. (0, sync_frame)\<rparr>"

lemma wf_lan0: "wf lan0"
  by (simp add: wf_def lan0_def LAN9250_1588_RX_PENDING_MAX_def)

lemma trace_lan0: "trace lan0 = []"
  by (simp add: lan0_def)

lemma rx_check_total:
  assumes "reads_be16 E"
  shows "\<exists>t. lan9250_1588_rx_timestamp_check E pkt len s = Some t"
proof -
  obtain ret header where h: "net_pkt_read E (trace (act (Pkt_read pkt (min len 128)) s)) = (ret, header)"
    by fastforce
  obtain parsed where p: "lan9250_ptp_parse_header E (take (min len 128) header) = Some parsed"
    using parse_defined_sound [OF assms] by blast
  have m: "\<exists>a t. rx_match E pkt k s = Some (a, t)" for k s by (rule match_returns)
  show ?thesis
  proof (cases "ret < 0 \<or> parsed = None")
    case True
    then show ?thesis using h p by (auto simp: lan9250_1588_rx_timestamp_check_def Let_def)
  next
    case False
    then obtain k where k: "parsed = Some k" by auto
    let ?s2 = "act (Lock Bank_lock) (act (Pkt_read pkt (min len 128)) s)"
    obtain a t where "rx_match E pkt k (lan9250_1588_rx_pending_expire E (uptime E (trace ?s2)) ?s2)
        = Some (a, t)"
      using m by blast
    then show ?thesis using h p k False
      by (simp add: lan9250_1588_rx_timestamp_check_def Let_def)
  qed
qed

lemma ptp_chip_ok: "reads_be16 ptp_chip" "clock_runs ptp_chip"
  using calm_reads by (simp_all add: ptp_chip_def reads_be16_def clock_runs_def calm_def)

lemma ptp_chip_read: "net_pkt_read ptp_chip h = (0, sync_frame)"
  by (simp add: ptp_chip_def)

lemma ptp_chip_id: "rx_id ptp_chip pkt 58 s = Some (0, 258)"
proof -
  have "length sync_frame = 58" by (simp add: sync_frame_def)
  then show ?thesis
    using parse_complete [OF ptp_chip_ok(1) sync_frame_carries] by (simp add: rx_id_def ptp_chip_read)
qed

lemma made_after:
  assumes "clock_runs E" "made E s t d"
  shows "uptime E (trace s) + LAN9250_1588_RX_PENDING_TIMEOUT_MS \<le> d"
proof -
  obtain old where "d = uptime E (old @ trace s) + LAN9250_1588_RX_PENDING_TIMEOUT_MS"
    using assms(2) unfolding made_def by blast
  then show ?thesis using uptime_mono [OF assms(1), of "trace s" old] by simp
qed

section \<open>Properties\<close>

text \<open>
  C5: Packet references balance. A received frame's timestamp check, whatever it finds, expires,
  matches, evicts or queues, takes and drops references so that each packet is referenced exactly
  as often as it stands in the table of waiting packets: no packet leaks, none is dropped twice.
\<close>

theorem rx_check_balances_refs:
  assumes "wf s" "lan9250_1588_rx_timestamp_check E pkt len s = Some t"
  shows "wf t \<and> int (held (rx_pending t) p) - int (held (rx_pending s) p)
    = balance p (trace t) - balance p (trace s)"
  using assms
proof (cases rule: rx_check_outcome)
  case 1
  then show ?thesis using assms(1) by (simp add: act_def wf_def balance_Cons)
next
  case (2 k mid)
  have "owed p t = owed p s" by (rule 2(7))
  with 2(2) show ?thesis unfolding owed_def by linarith
qed

lemma rx_check_balances_refs_witness:
  "\<exists>t. lan9250_1588_rx_timestamp_check calm 1 58 lan0 = Some t \<and>
     int (held (rx_pending t) 1) = balance 1 (trace t)"
proof -
  obtain t where t: "lan9250_1588_rx_timestamp_check calm 1 58 lan0 = Some t"
    using rx_check_total [OF calm_reads] by blast
  have "held (rx_pending lan0) 1 = 0" "balance 1 (trace lan0) = 0"
    by (simp_all add: held_def balance_def lan0_def)
  with rx_check_balances_refs [OF wf_lan0 t, of 1] t show ?thesis by simp
qed

text \<open>
  C6: A timestamp belongs to its packet. Every timestamp the check attaches was either stored for
  later by an earlier check or read from the capture registers in this one by three successful
  reads; and the message type and sequence id captured with it are those of the packet that gets
  it, be it the frame just received or one that has been waiting.
\<close>

theorem rx_stamps_sound:
  assumes "wf s" "lan9250_1588_rx_timestamp_check E pkt len s = Some t"
  shows "\<exists>new. trace t = new @ trace s \<and>
    (\<forall>q sec ns. Set_timestamp q sec ns \<in> set new \<longrightarrow>
       (\<exists>k. rx_id E pkt len s = Some k \<and> stamp_ok E pkt k s t q sec ns))"
  using assms
proof (cases rule: rx_check_outcome)
  case 1
  then show ?thesis by (intro exI [of _ "[Pkt_read pkt (min len 128)]"]) (simp add: act_def)
next
  case (2 k mid)
  then show ?thesis
    by (intro exI [of _ "Unlock Bank_lock # mid @ [Lock Bank_lock, Pkt_read pkt (min len 128)]"]) auto
qed

lemma rx_stamps_sound_witness:
  "\<exists>t. lan9250_1588_rx_timestamp_check ptp_chip 1 58 lan0 = Some t \<and>
     (\<forall>q sec ns. Set_timestamp q sec ns \<in> set (trace t) \<longrightarrow> sec = 7 \<and> ns = 9)"
proof -
  obtain t where t: "lan9250_1588_rx_timestamp_check ptp_chip 1 58 lan0 = Some t"
    using rx_check_total [OF ptp_chip_ok(1)] by blast
  have "sec = 7 \<and> ns = 9" if "source ptp_chip lan0 t k sec ns" for k sec ns
    using that by (auto simp: source_def reading_def lan0_def stored_for_def Let_def ptp_chip_def
        spi_read_def calm_def dev_eval)
  then have "\<forall>q sec ns. Set_timestamp q sec ns \<in> set (trace t) \<longrightarrow> sec = 7 \<and> ns = 9"
    using rx_stamps_sound [OF wf_lan0 t] trace_lan0 unfolding stamp_ok_def
    by (metis append_Nil2)
  with t show ?thesis by blast
qed

text \<open>
  The banked registers are used under their lock. A check either touches neither lock nor chip,
  since the frame is not PTP, or takes the bank lock once, after reading the packet, gives it back
  as the last thing it does, and neither takes nor gives a lock in between, on every error path.
\<close>

lemma rx_check_locks:
  assumes "wf s" "lan9250_1588_rx_timestamp_check E pkt len s = Some t"
  shows "if rx_id E pkt len s = None then t = act (Pkt_read pkt (min len 128)) s
    else \<exists>mid. trace t = Unlock Bank_lock # mid @ Lock Bank_lock # Pkt_read pkt (min len 128) # trace s \<and>
      list_all lock_free mid"
  using assms by (cases rule: rx_check_outcome) auto

lemma rx_check_locks_witness:
  "\<exists>t mid. lan9250_1588_rx_timestamp_check ptp_chip 1 58 lan0 = Some t \<and>
     trace t = Unlock Bank_lock # mid @ [Lock Bank_lock, Pkt_read 1 58]"
proof -
  obtain t where t: "lan9250_1588_rx_timestamp_check ptp_chip 1 58 lan0 = Some t"
    using rx_check_total [OF ptp_chip_ok(1)] by blast
  from rx_check_locks [OF wf_lan0 t] t show ?thesis
    by (auto simp: ptp_chip_id lan0_def)
qed

text \<open>
  The check cannot fail or hang. If the packet is readable memory, the check of a received
  frame returns, whatever the chip, the bus and the frame's bytes are.
\<close>

lemma rx_check_returns:
  assumes "reads_be16 E"
  shows "\<exists>t. lan9250_1588_rx_timestamp_check E pkt len s = Some t"
  using assms by (rule rx_check_total)

lemma rx_check_returns_witness: "\<exists>t. lan9250_1588_rx_timestamp_check calm 1 1514 lan0 = Some t"
  using calm_reads by (rule rx_check_returns)

text \<open>
  C17: Nobody waits for longer than the time-out. If the kernel's clock runs, no entry of either
  table has a deadline further away than the time-out of two seconds, and a check keeps it so; and
  once a PTP frame has been checked, every packet still held, and every event still stored, has its
  deadline after the start of that check. So the first PTP frame after two seconds releases it.
\<close>

theorem pending_wait_bounded:
  assumes "clock_runs E" "wf s" "timely E s" "lan9250_1588_rx_timestamp_check E pkt len s = Some t"
  shows "timely E t \<and> (rx_id E pkt len s \<noteq> None \<longrightarrow>
    (\<forall>x\<in>set (rx_pending t). is_pending x \<longrightarrow> uptime E (trace s) < rp_deadline x) \<and>
    (\<forall>u\<in>set (rx_unclaimed t). ru_valid u \<longrightarrow> uptime E (trace s) < ru_deadline u))"
  using assms(4)
proof (cases rule: rx_check_cases)
  case 1
  then show ?thesis using timely_newer [OF assms(1,3) newer_act] by simp
next
  case (2 k a s4)
  let ?s2 = "act (Lock Bank_lock) (act (Pkt_read pkt (min len 128)) s)"
  let ?s3 = "lan9250_1588_rx_pending_expire E (uptime E (trace ?s2)) ?s2"
  have wf2: "wf ?s2" using assms(2) by simp
  have n2: "newer E s ?s2" by (rule newer_trans [OF newer_act newer_act])
  have n3: "newer E ?s2 ?s3" by (rule newer_expire [OF wf2])
  have n4: "newer E ?s3 t"
    unfolding 2(3) using newer_match [OF 2(2)] newer_trans newer_queue newer_act by metis
  have up: "uptime E (trace s) \<le> uptime E (trace ?s2)" "uptime E (trace ?s2) \<le> uptime E (trace ?s3)"
    using n2 n3 uptime_mono [OF assms(1)] unfolding newer_def grew_def by metis+
  have "uptime E (trace s) < d" if "made E ?s3 t d" for d
    using made_after [OF assms(1) that] up by (simp add: LAN9250_1588_RX_PENDING_TIMEOUT_MS_def)
  then have "\<forall>x\<in>set (rx_pending t). is_pending x \<longrightarrow> uptime E (trace s) < rp_deadline x"
    "\<forall>u\<in>set (rx_unclaimed t). ru_valid u \<longrightarrow> uptime E (trace s) < ru_deadline u"
    using n4 live_after_expiry [OF wf2 refl] up unfolding newer_def
    by (meson le_less_trans)+
  moreover have "timely E t"
    using timely_newer [OF assms(1,3)] newer_trans [OF newer_trans [OF n2 n3] n4] by blast
  ultimately show ?thesis by simp
qed

lemma timely_lan0: "timely E lan0"
  by (simp add: timely_def lan0_def is_pending_def)

lemma pending_wait_bounded_witness:
  "\<exists>t. lan9250_1588_rx_timestamp_check ptp_chip 1 58 lan0 = Some t \<and> timely ptp_chip t"
proof -
  obtain t where t: "lan9250_1588_rx_timestamp_check ptp_chip 1 58 lan0 = Some t"
    using rx_check_total [OF ptp_chip_ok(1)] by blast
  from pending_wait_bounded [OF ptp_chip_ok(2) wf_lan0 timely_lan0 t] t show ?thesis by blast
qed

text \<open>Storing an event: it is in the table afterwards, and what it displaced, if anything, was the
  first to expire.\<close>

lemma stash_displaces_oldest:
  assumes "wf s"
  shows "(\<exists>u\<in>set (rx_unclaimed (stash_unclaimed E hw sec ns s)). captured_for hw u \<and> ru_sec u = sec \<and>
      ru_ns u = ns \<and> ru_deadline u = uptime E (trace s) + LAN9250_1588_RX_PENDING_TIMEOUT_MS) \<and>
    (\<forall>i<length (rx_unclaimed s). rx_unclaimed (stash_unclaimed E hw sec ns s) ! i \<noteq> rx_unclaimed s ! i \<and>
      ru_valid (rx_unclaimed s ! i) \<longrightarrow>
      (\<forall>u\<in>set (rx_unclaimed s). ru_valid u \<and> ru_deadline (rx_unclaimed s ! i) \<le> ru_deadline u)) \<and>
    trace (stash_unclaimed E hw sec ns s) = trace s \<and>
    rx_pending (stash_unclaimed E hw sec ns s) = rx_pending s"
proof -
  let ?t = "stash_unclaimed E hw sec ns s" and ?xs = "rx_unclaimed s"
  let ?i = "unclaimed.slot ?xs"
  have i: "?i < length ?xs" using assms by simp
  then obtain u where u: "rx_unclaimed ?t = ?xs[?i := u]" "captured_for hw u" "ru_sec u = sec"
      "ru_ns u = ns" "ru_deadline u = uptime E (trace s) + LAN9250_1588_RX_PENDING_TIMEOUT_MS"
      "trace ?t = trace s" "rx_pending ?t = rx_pending s"
    by (auto simp: stash_unclaimed_def Let_def captured_for_def)
  have "u \<in> set (rx_unclaimed ?t)" unfolding u(1) using i by (rule set_update_memI)
  moreover have "\<forall>y\<in>set ?xs. ru_valid y \<and> ru_deadline (?xs ! j) \<le> ru_deadline y"
    if j: "j < length ?xs" "rx_unclaimed ?t ! j \<noteq> ?xs ! j" "ru_valid (?xs ! j)" for j
  proof -
    have "j = ?i" using j(2) nth_list_update_neq unfolding u(1) by metis
    with j(3) have "\<forall>y\<in>set ?xs. ru_valid y" using unclaimed.slot_free by blast
    with unclaimed.slot_oldest \<open>j = ?i\<close> show ?thesis by blast
  qed
  ultimately show ?thesis using u by blast
qed

text \<open>
  C12: No event is lost while there is room. A captured event whose type and sequence id are those
  of the received frame stamps that frame; else the packet in the first slot that waits for it is
  stamped and let go, and no other slot changes; else it is stored with the full time-out, without displacing a stored event unless all
  sixteen slots are taken, and then only one that would be the first to expire.
\<close>

theorem event_delivered:
  assumes "wf s" "rx_event E pkt k hw sec ns s = (attached, t)"
  shows "attached = (hw = k) \<and>
    (if hw = k then trace t = Set_timestamp pkt sec ns # trace s \<and>
       rx_pending t = rx_pending s \<and> rx_unclaimed t = rx_unclaimed s
     else if \<exists>x\<in>set (rx_pending s). pending_for hw x
     then \<exists>i owner. i < length (rx_pending s) \<and> pending_for hw (rx_pending s ! i) \<and>
       (\<forall>j<i. \<not> pending_for hw (rx_pending s ! j)) \<and> rp_pkt (rx_pending s ! i) = Some owner \<and>
       trace t = Pkt_unref owner # Set_timestamp owner sec ns # trace s \<and>
       rx_pending t = (rx_pending s)[i := (rx_pending s ! i)\<lparr>rp_pkt := None\<rparr>] \<and>
       rx_unclaimed t = rx_unclaimed s
     else trace t = trace s \<and> rx_pending t = rx_pending s \<and>
       (\<exists>u\<in>set (rx_unclaimed t). stored_for hw u \<and> ru_sec u = sec \<and> ru_ns u = ns \<and>
          ru_deadline u = uptime E (trace s) + LAN9250_1588_RX_PENDING_TIMEOUT_MS) \<and>
       (\<forall>i<length (rx_unclaimed s). rx_unclaimed t ! i \<noteq> rx_unclaimed s ! i \<and> ru_valid (rx_unclaimed s ! i) \<longrightarrow>
          (\<forall>u\<in>set (rx_unclaimed s). ru_valid u \<and> ru_deadline (rx_unclaimed s ! i) \<le> ru_deadline u)))"
proof (cases "hw = k")
  case True
  then show ?thesis using assms(2) by (auto simp: rx_event_own act_def)
next
  case hw: False
  show ?thesis
  proof (cases "\<exists>x\<in>set (rx_pending s). pending_for hw x")
    case True
    with hw obtain i owner where i: "i < length (rx_pending s)" "pending_for hw (rx_pending s ! i)"
      "\<forall>j<i. \<not> pending_for hw (rx_pending s ! j)" "rp_pkt (rx_pending s ! i) = Some owner"
      "rx_event E pkt k hw sec ns s = (False,
        (act (Pkt_unref owner) (act (Set_timestamp owner sec ns) s))
        \<lparr>rx_pending := (rx_pending s)[i := (rx_pending s ! i)\<lparr>rp_pkt := None\<rparr>],
          diag_matched_pending := diag_matched_pending s + 1\<rparr>)"
      by (rule rx_event_pending [folded tests_mean])
    have "\<not> attached" and t: "t = (act (Pkt_unref owner) (act (Set_timestamp owner sec ns) s))
        \<lparr>rx_pending := (rx_pending s)[i := (rx_pending s ! i)\<lparr>rp_pkt := None\<rparr>],
          diag_matched_pending := diag_matched_pending s + 1\<rparr>"
      using assms(2) i(5) by simp_all
    then have "trace t = Pkt_unref owner # Set_timestamp owner sec ns # trace s \<and>
        rx_pending t = (rx_pending s)[i := (rx_pending s ! i)\<lparr>rp_pkt := None\<rparr>] \<and>
        rx_unclaimed t = rx_unclaimed s"
      by (simp add: act_def)
    with i(1-4) hw True \<open>\<not> attached\<close> show ?thesis by (simp only: if_False if_True) blast
  next
    case False
    have "\<not> attached" "t = stash_unclaimed E hw sec ns s"
      using assms(2) rx_event_stash [OF hw, folded tests_mean] False by simp_all
    then show ?thesis using hw False stash_displaces_oldest [OF assms(1), of E hw sec ns, folded tests_mean]
      by (simp only: if_False) blast
  qed
qed

lemma event_delivered_witness:
  "\<exists>t. rx_event calm 1 (0, 5) (0, 4) 7 9 lan0 = (False, t) \<and>
     (\<exists>u\<in>set (rx_unclaimed t). stored_for (0, 4) u \<and> ru_sec u = 7 \<and> ru_ns u = 9)"
proof -
  obtain a t where t: "rx_event calm 1 (0, 5) (0, 4) 7 9 lan0 = (a, t)" by fastforce
  have "\<not> (\<exists>x\<in>set (rx_pending lan0). pending_for (0, 4) x)" "(0 :: u8, 4 :: u16) \<noteq> (0, 5)"
    by (simp_all add: lan0_def pending_for_def)
  with event_delivered [OF wf_lan0 t] t show ?thesis by auto
qed

text \<open>
  An early event reaches its frame. If an event for a frame was stored before the frame was read
  and has not expired, the check of that frame attaches the stored time to it at once, without a
  single transfer over the bus, and does not queue the frame.
\<close>

lemma early_event_delivered:
  assumes "wf s" "lan9250_1588_rx_timestamp_check E pkt len s = Some t" "rx_id E pkt len s = Some k"
    and "u \<in> set (rx_unclaimed s)" "captured_for k u"
    and "uptime E (Lock Bank_lock # Pkt_read pkt (min len 128) # trace s) < ru_deadline u"
  shows "\<exists>v\<in>set (rx_unclaimed s). captured_for k v \<and>
    (\<exists>mid. trace t = Unlock Bank_lock # Set_timestamp pkt (ru_sec v) (ru_ns v) # mid @
       Lock Bank_lock # Pkt_read pkt (min len 128) # trace s \<and> list_all (\<lambda>e. \<exists>q. e = Pkt_unref q) mid)"
  using assms(2)
proof (cases rule: rx_check_cases)
  case (2 m a s4)
  let ?s2 = "act (Lock Bank_lock) (act (Pkt_read pkt (min len 128)) s)"
  let ?now = "uptime E (trace ?s2)"
  let ?s3 = "lan9250_1588_rx_pending_expire E ?now ?s2"
  have wf2: "wf ?s2" using assms(1) by simp
  have m: "m = k" using 2(1) assms(3) by simp
  obtain d dm where s3: "?s3 = ?s2\<lparr>trace := rev (expired ?now (rx_pending ?s2)) @ trace ?s2,
      rx_pending := map (expire_pending ?now) (rx_pending ?s2),
      rx_unclaimed := map (expire_unclaimed ?now) (rx_unclaimed ?s2),
      diag_expired_unmatched := d, diag_last_summary_ms := dm\<rparr>"
    using expire_effect [OF wf2] by blast
  have "expire_unclaimed ?now u = u"
    using assms(6) by (simp add: expire_unclaimed_def act_def)
  then have "u \<in> set (rx_unclaimed ?s3)"
    unfolding s3 using assms(4) by (auto simp: act_def intro: rev_image_eqI)
  then obtain i where i: "find_slot (captured_for k) (rx_unclaimed ?s3) = Some i"
    using assms(5) find_slot_None by fastforce
  let ?v = "rx_unclaimed ?s3 ! i"
  have v: "i < length (rx_unclaimed ?s3)" "captured_for k ?v" using i by (auto simp: find_slot_Some)
  then have "?v \<in> set (rx_unclaimed s)"
    using live_after_expiry(2) [OF wf2 refl, of ?v E ?now] nth_mem [OF v(1)]
    by (auto simp: captured_for_def act_def)
  moreover have "trace t = Unlock Bank_lock # Set_timestamp pkt (ru_sec ?v) (ru_ns ?v) # trace ?s3"
    using 2(2,3) i m by (auto simp: rx_match_def Let_def rx_queue_def act_def)
  moreover have "trace ?s3 = rev (expired ?now (rx_pending ?s2)) @
      Lock Bank_lock # Pkt_read pkt (min len 128) # trace s"
    unfolding s3 by (simp add: act_def)
  moreover have "list_all (\<lambda>e. \<exists>q. e = Pkt_unref q) (rev (expired ?now (rx_pending ?s2)))"
    by (auto simp: expired_def list_all_iff)
  ultimately show ?thesis using v(2) by metis
qed (use assms(3) in simp)

definition stored :: lan where
  "stored = lan0\<lparr>rx_unclaimed := \<lparr>ru_valid = True, ru_msg_type = 0, ru_seq_id = 258, ru_sec = 3,
     ru_ns = 4, ru_deadline = 1000\<rparr> # replicate 15 \<lparr>ru_valid = False, ru_msg_type = 0,
     ru_seq_id = 0, ru_sec = 0, ru_ns = 0, ru_deadline = 0\<rparr>\<rparr>"

lemma early_event_delivered_example:
  "\<exists>t mid. lan9250_1588_rx_timestamp_check ptp_chip 1 58 stored = Some t \<and>
     trace t = Unlock Bank_lock # Set_timestamp 1 3 4 # mid"
proof -
  let ?u = "\<lparr>ru_valid = True, ru_msg_type = 0, ru_seq_id = 258, ru_sec = 3, ru_ns = 4,
    ru_deadline = 1000\<rparr>"
  obtain t where t: "lan9250_1588_rx_timestamp_check ptp_chip 1 58 stored = Some t"
    using rx_check_total [OF ptp_chip_ok(1)] by blast
  have wf: "wf stored" by (simp add: wf_def stored_def lan0_def LAN9250_1588_RX_PENDING_MAX_def)
  have u: "?u \<in> set (rx_unclaimed stored)" "captured_for (0, 258) ?u"
    "uptime ptp_chip (Lock Bank_lock # Pkt_read 1 (min 58 128) # trace stored) < ru_deadline ?u"
    by (simp_all add: stored_def captured_for_def ptp_chip_def calm_def lan0_def)
  have "v = ?u" if "v \<in> set (rx_unclaimed stored)" "captured_for (0, 258) v" for v
    using that by (auto simp: stored_def captured_for_def)
  with early_event_delivered [OF wf t ptp_chip_id u] t show ?thesis by fastforce
qed

end
