(* ===== verification/Ptp_Tx.thy ===== *)
theory Ptp_Tx
  imports Ptp_Rx
begin

text \<open>
  The timestamp check of a sent frame (\<open>lan9250_1588_tx_timestamp_check\<close> in
  \<open>drivers/eth_lan9250/eth_lan9250.c\<close>, modelled in \<open>Ptp_Match\<close>): it polls for the capture a bounded
  number of times, under the bank lock, and attaches a time only to the frame it belongs to.
\<close>

section \<open>The poll\<close>

definition adds_at_most :: "lan_env \<Rightarrow> nat \<Rightarrow> lan \<Rightarrow> lan \<Rightarrow> bool" where
  "adds_at_most E n s t \<longleftrightarrow>
    (\<exists>new. t = s\<lparr>trace := new @ trace s\<rparr> \<and> list_all (is_spi E) new \<and> length new \<le> n)"

lemma adds_at_most_extends: "adds_at_most E n s t \<Longrightarrow> extends (is_spi E) s t"
  by (auto simp: adds_at_most_def extends_def)

lemma adds_at_most_act: "is_spi E e \<Longrightarrow> adds_at_most E n s t \<Longrightarrow> adds_at_most E (Suc n) s (act e t)"
  unfolding adds_at_most_def by (auto simp: act_def intro: exI [of _ "e # _"])

lemma adds_at_most_refl: "adds_at_most E n s s"
  unfolding adds_at_most_def by (auto intro: exI [of _ "[]"])

lemma adds_at_most_trans:
  assumes "adds_at_most E m s t" "adds_at_most E n t u"
  shows "adds_at_most E (m + n) s u"
proof -
  obtain a b where "t = s\<lparr>trace := a @ trace s\<rparr>" "u = t\<lparr>trace := b @ trace t\<rparr>"
    "list_all (is_spi E) a" "list_all (is_spi E) b" "length a \<le> m" "length b \<le> n"
    using assms unfolding adds_at_most_def by blast
  then show ?thesis
    unfolding adds_at_most_def by (intro exI [of _ "b @ a"]) simp
qed

lemma adds_at_most_mono: "adds_at_most E m s t \<Longrightarrow> m \<le> n \<Longrightarrow> adds_at_most E n s t"
  unfolding adds_at_most_def by (auto intro: order_trans)

lemma tx_poll_bounded:
  "\<exists>c t. tx_poll E n cap s = Some (c, t) \<and> adds_at_most E (2 * n) s t"
proof (induction n arbitrary: cap s)
  case 0
  show ?case by (simp add: adds_at_most_refl)
next
  case (Suc n)
  let ?s1 = "act (spi_read E LAN9250_1588_CAP_INFO) s"
  have s1: "adds_at_most E 1 s ?s1"
    using adds_at_most_act [OF _ adds_at_most_refl] by simp
  have s2: "adds_at_most E 2 s (act (Sleep_ms 1) ?s1)"
    using adds_at_most_act [of E "Sleep_ms 1", OF _ s1] by (simp add: numeral_2_eq_2)
  show ?case
  proof (cases "spi_ret E (trace ?s1) < 0 \<or>
      le32 (spi_rx E (trace ?s1)) AND LAN9250_1588_CAP_INFO_TX_TS_CNT_MASK \<noteq> 0")
    case True
    then show ?thesis using adds_at_most_mono [OF s1, of "2 * Suc n"]
      by (auto simp: lan9250_read_sys_reg_def Let_def)
  next
    case False
    obtain c t where "tx_poll E n (le32 (spi_rx E (trace ?s1))) (act (Sleep_ms 1) ?s1) = Some (c, t)"
      and t: "adds_at_most E (2 * n) (act (Sleep_ms 1) ?s1) t" using Suc by blast
    moreover have "adds_at_most E (2 * Suc n) s t" using adds_at_most_trans [OF s2 t] by simp
    ultimately show ?thesis using False by (auto simp: lan9250_read_sys_reg_def Let_def)
  qed
qed

section \<open>The paths through a check\<close>

abbreviation tx_reading where
  "tx_reading E \<equiv> reading E LAN9250_1588_TX_MSG_HEADER LAN9250_1588_TX_EGRESS_SEC
     LAN9250_1588_TX_EGRESS_NS"

lemma tx_capture_cases:
  obtains t where "tx_capture E pkt k s = Some ((), t)" "adds_at_most E 15 s t"
  | hw sec ns u where "adds_at_most E 15 s u" "tx_reading E (trace s) hw sec ns (trace u)"
    "tx_capture E pkt k s = Some ((), act (spi_write E LAN9250_1588_INT_STS
       LAN9250_1588_INT_STS_TX_TS_INT) (tx_event E pkt k hw sec ns u))"
proof -
  define s1 where "s1 = act (spi_write E LAN9250_1588_BANK_PORT_GPIO_SEL LAN9250_1588_BANK_SEL_PORT_GENERAL) s"
  obtain c s2 where poll: "tx_poll E 5 0 s1 = Some (c, s2)" "adds_at_most E 10 s1 s2"
    using tx_poll_bounded [of E 5 0 s1] by auto
  define s3 where "s3 = act (spi_write E LAN9250_1588_BANK_PORT_GPIO_SEL LAN9250_1588_BANK_SEL_PORT_TX) s2"
  define s4 where "s4 = act (spi_read E LAN9250_1588_TX_MSG_HEADER) s3"
  define s5 where "s5 = act (spi_read E LAN9250_1588_TX_EGRESS_SEC) s4"
  define s6 where "s6 = act (spi_read E LAN9250_1588_TX_EGRESS_NS) s5"
  note acts = s3_def s4_def s5_def s6_def
  have n1: "adds_at_most E 1 s s1"
    unfolding s1_def using adds_at_most_act [OF _ adds_at_most_refl, of E _ 0] by simp
  have n2: "adds_at_most E 11 s s2" using adds_at_most_trans [OF n1 poll(2)] by simp
  have n3: "adds_at_most E 12 s s3" unfolding acts using adds_at_most_act [OF _ n2] by simp
  have n4: "adds_at_most E 13 s s4" unfolding s4_def using adds_at_most_act [OF _ n3] by simp
  have n5: "adds_at_most E 14 s s5" unfolding s5_def using adds_at_most_act [OF _ n4] by simp
  have n6: "adds_at_most E 15 s s6" unfolding s6_def using adds_at_most_act [OF _ n5] by simp
  have le15: "adds_at_most E 15 s s1" "adds_at_most E 15 s s2" "adds_at_most E 15 s s3"
    "adds_at_most E 15 s s4" "adds_at_most E 15 s s5"
    using adds_at_most_mono n1 n2 n3 n4 n5 by simp_all
  have chain: "tx_capture E pkt k s = (
    if spi_ret E (trace s1) < 0 then Some ((), s1)
    else case c of None \<Rightarrow> Some ((), s2) | Some cap_info \<Rightarrow>
      if cap_info AND LAN9250_1588_CAP_INFO_TX_TS_CNT_MASK = 0 then Some ((), s2)
      else if spi_ret E (trace s3) < 0 then Some ((), s3)
      else if spi_ret E (trace s4) < 0 then Some ((), s4)
      else if spi_ret E (trace s5) < 0 then Some ((), s5)
      else if spi_ret E (trace s6) < 0 then Some ((), s6)
      else Some ((), act (spi_write E LAN9250_1588_INT_STS LAN9250_1588_INT_STS_TX_TS_INT)
        (tx_event E pkt k (hw_id (le32 (spi_rx E (trace s4)))) (le32 (spi_rx E (trace s5)))
          (le32 (spi_rx E (trace s6))) s6)))"
    using poll(1)
    by (simp add: tx_capture_def or_stop_def or_stop_q_def lan9250_1588_bank_select_def
        lan9250_write_sys_reg_def lan9250_read_sys_reg_def Let_def acts s1_def split: option.split)
  show thesis
  proof (cases "spi_ret E (trace s1) < 0 \<or> c = None \<or>
      the c AND LAN9250_1588_CAP_INFO_TX_TS_CNT_MASK = 0 \<or> spi_ret E (trace s3) < 0 \<or>
      spi_ret E (trace s4) < 0 \<or> spi_ret E (trace s5) < 0 \<or> spi_ret E (trace s6) < 0")
    case True
    then show thesis using that(1) chain le15 n6 by (cases c) (auto split: if_splits)
  next
    case False
    then obtain cap where c: "c = Some cap" by auto
    obtain mid where "list_all (is_spi E) mid" "trace s4 = spi_read E LAN9250_1588_TX_MSG_HEADER # mid @ trace s"
      using adds_at_most_extends [OF n3] by (auto simp: s4_def act_def extends_def)
    then have "tx_reading E (trace s) (hw_id (le32 (spi_rx E (trace s4)))) (le32 (spi_rx E (trace s5)))
        (le32 (spi_rx E (trace s6))) (trace s6)"
      using False unfolding reading_def Let_def s6_def s5_def by (auto simp: act_def)
    with that(2) [OF n6] chain False c show thesis by simp
  qed
qed

section \<open>Properties\<close>

text \<open>The PTP identity of a frame to be sent.\<close>

definition tx_id :: "lan_env \<Rightarrow> u8 list \<Rightarrow> ptp_id option" where
  "tx_id E frame = (case lan9250_ptp_parse_header E frame of Some (Some k) \<Rightarrow> Some k | _ \<Rightarrow> None)"

text \<open>The times attached: to this frame, read just before with this frame's identity, and the event
  acknowledged as the last transfer.\<close>

definition tx_stamps_ok :: "lan_env \<Rightarrow> pkt \<Rightarrow> ptp_id \<Rightarrow> ev list \<Rightarrow> ev list \<Rightarrow> bool" where
  "tx_stamps_ok E pkt k h0 mid \<longleftrightarrow> (\<forall>q sec ns. Set_timestamp q sec ns \<in> set mid \<longrightarrow>
     q = pkt \<and> (\<exists>post h. mid @ h0 = spi_write E LAN9250_1588_INT_STS LAN9250_1588_INT_STS_TX_TS_INT #
       post @ Set_timestamp pkt sec ns # h \<and> tx_reading E h0 k sec ns h))"

text \<open>The two ends of a check after the lock was taken: without an event, and with one.\<close>

lemma spi_new_ok:
  assumes "list_all (is_spi E) new"
  shows "list_all lock_free new" "Set_timestamp q a b \<notin> set new"
  using assms fair_lock_free [OF fair_spi] by (auto simp: list_all_iff)

lemma tx_no_event_ok:
  assumes "list_all (is_spi E) new"
  shows "tx_stamps_ok E pkt k h new"
  using spi_new_ok(2) [OF assms] by (simp add: tx_stamps_ok_def)

definition tx_stamp :: "lan_env \<Rightarrow> pkt \<Rightarrow> bool \<Rightarrow> u32 \<Rightarrow> u32 \<Rightarrow> ev list" where
  "tx_stamp E pkt own sec ns =
    (if own then (if PKT_TIMESTAMP_THREAD E then [Tx_timestamp pkt] else []) @ [Set_timestamp pkt sec ns] else [])"

definition tx_ack :: "lan_env \<Rightarrow> ev" where
  "tx_ack E = spi_write E LAN9250_1588_INT_STS LAN9250_1588_INT_STS_TX_TS_INT"

lemma tx_event_trace:
  "act (tx_ack E) (tx_event E pkt k hw sec ns u) =
    u\<lparr>trace := tx_ack E # tx_stamp E pkt (hw = k) sec ns @ trace u\<rparr>"
  by (simp add: tx_event_def tx_stamp_def act_def Let_def)

lemma tx_event_ok:
  assumes "list_all (is_spi E) new" "length new \<le> 15" "tx_reading E h hw sec ns (new @ h)"
  shows "list_all lock_free (tx_ack E # tx_stamp E pkt (hw = k) sec ns @ new) \<and>
    length (tx_ack E # tx_stamp E pkt (hw = k) sec ns @ new) \<le> 18 \<and>
    tx_stamps_ok E pkt k h (tx_ack E # tx_stamp E pkt (hw = k) sec ns @ new)"
proof (intro conjI)
  let ?mid = "tx_ack E # tx_stamp E pkt (hw = k) sec ns @ new"
  show "list_all lock_free ?mid" "length ?mid \<le> 18"
    using assms(2) spi_new_ok(1) [OF assms(1)] fair_lock_free [OF fair_spi [OF is_spi_1588(2)]]
    by (auto simp: tx_stamp_def tx_ack_def)
  have "q = pkt \<and> (\<exists>post g. ?mid @ h = tx_ack E # post @ Set_timestamp pkt a b # g \<and> tx_reading E h k a b g)"
    if "Set_timestamp q a b \<in> set ?mid" for q a b
  proof -
    have s: "hw = k" "q = pkt" "a = sec" "b = ns"
      using that spi_new_ok(2) [OF assms(1), of q a b]
      by (auto simp: tx_stamp_def tx_ack_def spi_write_def split: if_splits)
    then have "?mid @ h = tx_ack E # (if PKT_TIMESTAMP_THREAD E then [Tx_timestamp pkt] else []) @
        Set_timestamp pkt a b # new @ h"
      by (simp add: tx_stamp_def)
    with s assms(3) show ?thesis by blast
  qed
  then show "tx_stamps_ok E pkt k h ?mid" unfolding tx_stamps_ok_def tx_ack_def by blast
qed

lemma tx_check_runs:
  assumes "reads_be16 E"
  shows "\<exists>t. lan9250_1588_tx_timestamp_check E pkt frame len s = Some t \<and>
    (case tx_id E (take len frame) of
       None \<Rightarrow> t = s
     | Some k \<Rightarrow> \<exists>mid. t = s\<lparr>trace := Unlock Bank_lock # mid @ Lock Bank_lock # trace s\<rparr> \<and>
         length mid \<le> 18 \<and> list_all lock_free mid \<and>
         tx_stamps_ok E pkt k (Lock Bank_lock # trace s) mid)"
proof -
  obtain parsed where p: "lan9250_ptp_parse_header E (take len frame) = Some parsed"
    using parse_defined_sound [OF assms] by blast
  show ?thesis
  proof (cases parsed)
    case None
    with p show ?thesis by (simp add: lan9250_1588_tx_timestamp_check_def tx_id_def)
  next
    case (Some k)
    let ?s1 = "act (Lock Bank_lock) s"
    have id: "tx_id E (take len frame) = Some k" using p Some by (simp add: tx_id_def)
    have run: "lan9250_1588_tx_timestamp_check E pkt frame len s = Some (act (Unlock Bank_lock) u)"
      if "tx_capture E pkt k ?s1 = Some ((), u)" for u
      using that p Some by (simp add: lan9250_1588_tx_timestamp_check_def)
    show ?thesis
    proof (cases rule: tx_capture_cases [of E pkt k ?s1])
      case (1 u)
      then obtain new where new: "u = ?s1\<lparr>trace := new @ trace ?s1\<rparr>" "list_all (is_spi E) new" "length new \<le> 15"
        unfolding adds_at_most_def by blast
      note ok = spi_new_ok(1) [OF new(2)] tx_no_event_ok [OF new(2), of pkt k "Lock Bank_lock # trace s"]
      show ?thesis using run [OF 1(1)] id new ok
        by (auto simp: act_def intro!: exI [of _ new])
    next
      case (2 hw sec ns u)
      then obtain new where new: "u = ?s1\<lparr>trace := new @ trace ?s1\<rparr>" "list_all (is_spi E) new" "length new \<le> 15"
        unfolding adds_at_most_def by blast
      have "tx_reading E (Lock Bank_lock # trace s) hw sec ns (new @ Lock Bank_lock # trace s)"
        using 2(2) new(1) by (simp add: act_def)
      note ok = tx_event_ok [OF new(2,3) this, of pkt k]
      have "act (Unlock Bank_lock) (act (tx_ack E) (tx_event E pkt k hw sec ns u)) = s\<lparr>trace :=
          Unlock Bank_lock # (tx_ack E # tx_stamp E pkt (hw = k) sec ns @ new) @ Lock Bank_lock # trace s\<rparr>"
        unfolding tx_event_trace new(1) by (simp add: act_def)
      with run [OF 2(3) [folded tx_ack_def]] ok id show ?thesis by (simp only: option.case) blast
    qed
  qed
qed

text \<open>
  C18: The check of a sent frame is bounded and attaches no foreign time. It always returns; a frame
  that is not PTP costs nothing; otherwise everything happens between one lock and its unlock, with
  at most eighteen events (the count is looked at no more than five times), the tables of received
  frames are left alone, and if a time is attached then to this frame, read in this call together
  with this frame's message type and sequence id, and the event is acknowledged right after.
\<close>

theorem tx_check_sound:
  assumes "reads_be16 E"
  shows "\<exists>t. lan9250_1588_tx_timestamp_check E pkt frame len s = Some t \<and>
    (case tx_id E (take len frame) of
       None \<Rightarrow> t = s
     | Some k \<Rightarrow> \<exists>mid. t = s\<lparr>trace := Unlock Bank_lock # mid @ Lock Bank_lock # trace s\<rparr> \<and>
         length mid \<le> 18 \<and> list_all lock_free mid \<and>
         tx_stamps_ok E pkt k (Lock Bank_lock # trace s) mid)"
  using assms by (rule tx_check_runs)

lemma tx_check_sound_witness:
  "\<exists>t mid. lan9250_1588_tx_timestamp_check ptp_chip 1 (sync_frame @ replicate 6 0) 58 lan0 = Some t \<and>
     trace t = Unlock Bank_lock # mid @ [Lock Bank_lock] \<and> length mid \<le> 18"
proof -
  have "length sync_frame = 58" by (simp add: sync_frame_def)
  then have "tx_id ptp_chip (take 58 (sync_frame @ replicate 6 0)) = Some (0, 258)"
    using parse_complete [OF ptp_chip_ok(1) sync_frame_carries] by (simp add: tx_id_def)
  with tx_check_sound [OF ptp_chip_ok(1), of 1 "sync_frame @ replicate 6 0" 58 lan0] show ?thesis
    by (auto simp: trace_lan0)
qed

end
