(* ===== verification/Lan_RxTx.thy ===== *)
theory Lan_RxTx
  imports Ptp_Tx
begin

text \<open>
  Moving frames (\<open>lan9250_rx\<close>, \<open>lan9250_tx\<close>, the interrupt callback and the driver thread of
  \<open>drivers/eth_lan9250/eth_lan9250.c\<close>). The chip's receive FIFO has no framing of its own: the driver
  must clock out exactly the words of each frame.
\<close>

section \<open>FIFO access\<close>

definition LAN9250_RX_DATA_FIFO :: u16 where [dev_eval]: "LAN9250_RX_DATA_FIFO = 0x0000"
definition LAN9250_TX_DATA_FIFO :: u16 where [dev_eval]: "LAN9250_TX_DATA_FIFO = 0x0020"
definition LAN9250_RX_STATUS_FIFO :: u16 where [dev_eval]: "LAN9250_RX_STATUS_FIFO = 0x0040"
definition LAN9250_TX_STATUS_FIFO :: u16 where [dev_eval]: "LAN9250_TX_STATUS_FIFO = 0x0048"
definition LAN9250_RX_FIFO_INF :: u16 where [dev_eval]: "LAN9250_RX_FIFO_INF = 0x007C"
definition LAN9250_TX_FIFO_INF :: u16 where [dev_eval]: "LAN9250_TX_FIFO_INF = 0x0080"
definition LAN9250_PHY_INTERRUPT_SOURCE :: u8 where [dev_eval]: "LAN9250_PHY_INTERRUPT_SOURCE = 0x1D"

definition LAN9250_ALIGN :: "nat \<Rightarrow> nat" where
  "LAN9250_ALIGN v = (v + 3) div 4 * 4"

definition fifo_instr :: "u16 \<Rightarrow> u8 list" where
  "fifo_instr a = [ucast (drop_bit 8 a), ucast a]"

text \<open>The buffer given to \<open>lan9250_write_buf\<close> is the memory from its first byte on.\<close>

definition lan9250_write_buf :: "lan_env \<Rightarrow> u8 list \<Rightarrow> nat \<Rightarrow> lan cmd" where
  "lan9250_write_buf E data_buffer buf_len s =
    (let s1 = act (Spi ([LAN9250_SPI_INSTR_WRITE] @ fifo_instr LAN9250_TX_DATA_FIFO @
       take buf_len data_buffer) 0) s
     in Some (spi_ret E (trace s1), s1))"

definition read_buf_ev :: "nat \<Rightarrow> ev" where
  "read_buf_ev buf_len = Spi ([LAN9250_SPI_INSTR_READ] @ fifo_instr LAN9250_RX_DATA_FIFO) buf_len"

definition lan9250_read_buf :: "lan_env \<Rightarrow> nat \<Rightarrow> lan cmd" where
  "lan9250_read_buf E buf_len s =
    (let s1 = act (read_buf_ev buf_len) s in Some (spi_ret E (trace s1), s1))"

section \<open>Receiving\<close>

text \<open>Throwing a frame away: chunk by chunk, until the bus fails.\<close>

partial_function (option) drain_loop :: "lan_env \<Rightarrow> nat \<Rightarrow> lan \<Rightarrow> lan option" where
  "drain_loop E pkt_len s =
    (if pkt_len = 0 then Some s
     else do {
       (ret, s1) \<leftarrow> lan9250_read_buf E (min pkt_len (NET_BUF_DATA_SIZE E)) s;
       if ret < 0 then Some s1
       else drain_loop E (pkt_len - min pkt_len (NET_BUF_DATA_SIZE E)) s1
     })"

text \<open>Reading a frame into the buffers of its packet, of which \<open>frags\<close> are left in the chain; the body
  runs at least once. The code follows the chain without looking at its end: past it, it writes
  through a null pointer, and no state of the model is the result.\<close>

fun fill_loop :: "lan_env \<Rightarrow> pkt \<Rightarrow> nat \<Rightarrow> nat \<Rightarrow> lan \<Rightarrow> (int \<times> lan) option" where
  "fill_loop E pkt 0 pkt_len s = None"
| "fill_loop E pkt (Suc frags) pkt_len s = do {
     (ret, s1) \<leftarrow> lan9250_read_buf E (min pkt_len (NET_BUF_DATA_SIZE E)) s;
     if ret < 0 then Some (ret, s1)
     else let s2 = act (Buf_add pkt (min pkt_len (NET_BUF_DATA_SIZE E))) s1;
              left = pkt_len - min pkt_len (NET_BUF_DATA_SIZE E)
          in if 0 < left then fill_loop E pkt frags left s2 else Some (0, s2)
   }"

definition end_pad :: "nat \<Rightarrow> nat" where
  "end_pad frame_len = (4 - frame_len mod 4) mod 4"

text \<open>No packet to be had: sweep the tables, then drain the frame.\<close>

definition rx_drop_frame :: "lan_env \<Rightarrow> nat \<Rightarrow> lan cmd" where
  "rx_drop_frame E pkt_len s = do {
     let s1 = act (Lock Bank_lock) (act Rx_error s);
     let s2 = act (Unlock Bank_lock)
       (lan9250_1588_rx_pending_expire E (uptime E (trace s1)) s1);
     s3 \<leftarrow> drain_loop E pkt_len s2;
     if 0 < end_pad pkt_len
     then do { (ret, s4) \<leftarrow> lan9250_read_buf E (end_pad pkt_len) s3; Some (0, s4) }
     else Some (0, s3)
   }"

definition rx_store_frame :: "lan_env \<Rightarrow> pkt \<Rightarrow> nat \<Rightarrow> lan cmd" where
  "rx_store_frame E pkt pkt_len = run_cmds
    [(\<lambda>s. fill_loop E pkt (pkt_frags E (trace s)) pkt_len s),
     if 0 < end_pad pkt_len then lan9250_read_buf E (end_pad pkt_len) else run_cmds [],
     (\<lambda>s. do {
        s1 \<leftarrow> lan9250_1588_rx_timestamp_check E pkt pkt_len s;
        let s2 = act (Net_recv pkt) s1;
        let s3 = (if net_recv E (trace s2) < 0 then act (Pkt_unref pkt) s2 else s2);
        Some (0, act (Sem_give Tx_rx_sem) s3)
      })]"

definition lan9250_rx :: "lan_env \<Rightarrow> lan cmd" where
  "lan9250_rx E =
    query_ok (lan9250_read_sys_reg E LAN9250_RX_FIFO_INF) (\<lambda>inf.
    query_ok (lan9250_read_sys_reg E LAN9250_RX_STATUS_FIFO) (\<lambda>status.
      let pktcnt = drop_bit 16 (inf AND LAN9250_RX_FIFO_INF_RXSUSED);
          pkt_len = unat (drop_bit 16 (status AND LAN9250_RX_STS_PACKET_LEN))
      in if pktcnt = 0 \<or> pkt_len = 0 then (\<lambda>s. Some (0, s))
         else query_ok (lan9250_read_sys_reg E LAN9250_RX_DATA_FIFO) (\<lambda>dummy s.
           let s1 = (if NET_ETH_MAX_FRAME E < pkt_len then act Rx_error s else s);
               s2 = act (Pkt_alloc pkt_len) s1
           in case net_pkt_alloc E (trace s2) of
                None \<Rightarrow> rx_drop_frame E pkt_len s2
              | Some pkt \<Rightarrow> rx_store_frame E pkt pkt_len s2)))"

section \<open>Sending\<close>

definition LAN9250_TX_CMD_A :: u32 where [dev_eval]: "LAN9250_TX_CMD_A = 0x80003000"
definition LAN9250_TX_CMD_B_PACKET_TAG :: u32 where [dev_eval]: "LAN9250_TX_CMD_B_PACKET_TAG = 0xFFFF0000"

text \<open>Reading the packet overwrites the first bytes of the transmit buffer.\<close>

definition read_packet :: "lan_env \<Rightarrow> pkt \<Rightarrow> nat \<Rightarrow> lan cmd" where
  "read_packet E pkt len s =
    (let s1 = act (Pkt_read pkt len) s; (ret, bytes) = net_pkt_read E (trace s1)
     in if ret \<noteq> 0 then Some (- EIO, s1)
        else Some (0, s1\<lparr>txbuf := take len bytes @ drop len (txbuf s1)\<rparr>))"

fun drain_status :: "lan_env \<Rightarrow> nat \<Rightarrow> lan cmd" where
  "drain_status E 0 s = Some (0, s)"
| "drain_status E (Suc n) s =
     query_ok (lan9250_read_sys_reg E LAN9250_TX_STATUS_FIFO) (\<lambda>tmp. drain_status E n) s"

definition lan9250_tx :: "lan_env \<Rightarrow> pkt \<Rightarrow> lan cmd" where
  "lan9250_tx E pkt =
    (let len = net_pkt_len E pkt in
     query_ok (lan9250_read_sys_reg E LAN9250_TX_FIFO_INF) (\<lambda>regval. run_cmds
       [act_cmd (Sem_take Tx_rx_sem),
        lan9250_write_sys_reg E LAN9250_TX_DATA_FIFO (LAN9250_TX_CMD_A OR of_nat len),
        lan9250_write_sys_reg E LAN9250_TX_DATA_FIFO (LAN9250_TX_CMD_B_PACKET_TAG OR of_nat len),
        read_packet E pkt len,
        (\<lambda>s. lan9250_write_buf E (txbuf s @ after_txbuf E) (LAN9250_ALIGN len) s),
        drain_status E (unat (drop_bit 16 (regval AND LAN9250_TX_FIFO_INF_TXSUSED))),
        (\<lambda>s. do {
           s1 \<leftarrow> lan9250_1588_tx_timestamp_check E pkt (txbuf s) len s;
           Some (0, act (Sem_give Tx_rx_sem) s1)
         })]))"

section \<open>Interrupts and the thread\<close>

definition lan9250_gpio_callback :: "lan \<Rightarrow> lan" where
  "lan9250_gpio_callback s = act (Sem_give Int_sem) s"

text \<open>A link event; \<open>tmp\<close> is the local variable for the interrupt source, which keeps its value
  when the PHY cannot be read.\<close>

definition link_event :: "lan_env \<Rightarrow> u16 \<Rightarrow> lan \<Rightarrow> (u16 \<times> lan) option" where
  "link_event E tmp s = do {
     (ret, v, s1) \<leftarrow> lan9250_read_phy_reg E LAN9250_PHY_INTERRUPT_SOURCE s;
     let tmp1 = (if ret < 0 then tmp else v);
     if tmp1 AND LAN9250_PHY_INTERRUPT_SOURCE_LINK_UP \<noteq> 0
     then do {
       (_, _, s2) \<leftarrow> lan9250_read_phy_reg E LAN9250_PHY_SPECIAL_CONTROL_STATUS s1;
       (_, _, s3) \<leftarrow> lan9250_read_phy_reg E LAN9250_PHY_SPECIAL_CONTROL_STAT_IND s2;
       Some (tmp1, act (Carrier True) s3)
     }
     else if tmp1 AND LAN9250_PHY_INTERRUPT_SOURCE_LINK_DOWN \<noteq> 0 then Some (tmp1, act (Carrier False) s1)
     else Some (tmp1, s1)
   }"

text \<open>One turn of the thread's loop. Its local variables live from turn to turn, and a read that fails
  leaves its variable as it was: the results of the transfers are not looked at. Before the first turn
  two of the three are uninitialised.\<close>

record thread_locals =
  var_int_sts :: u32
  var_tmp :: u16
  var_ier :: u32

definition lan9250_thread_turn :: "lan_env \<Rightarrow> thread_locals \<Rightarrow> lan \<Rightarrow> (thread_locals \<times> lan) option" where
  "lan9250_thread_turn E vars s = do {
     let s1 = act (Sem_take Int_sem) s;
     (ret, v, s2) \<leftarrow> lan9250_read_sys_reg E LAN9250_INT_EN s1;
     let ier = (if ret < 0 then var_ier vars else v);
     (_, s3) \<leftarrow> lan9250_write_sys_reg E LAN9250_INT_EN 0 s2;
     (ret, v, s4) \<leftarrow> lan9250_read_sys_reg E LAN9250_INT_STS s3;
     let int_sts = (if ret < 0 then var_int_sts vars else v);
     (tmp, s5) \<leftarrow> (if int_sts AND LAN9250_INT_STS_PHY_INT \<noteq> 0 then link_event E (var_tmp vars) s4
       else Some (var_tmp vars, s4));
     s6 \<leftarrow> (if int_sts AND LAN9250_INT_STS_RSFL \<noteq> 0
       then do {
         (_, a) \<leftarrow> lan9250_write_sys_reg E LAN9250_INT_STS LAN9250_INT_STS_RSFL s5;
         (_, b) \<leftarrow> lan9250_rx E a;
         Some b
       }
       else Some s5);
     (_, s7) \<leftarrow> lan9250_write_sys_reg E LAN9250_INT_EN ier s6;
     Some (\<lparr>var_int_sts = int_sts, var_tmp = tmp, var_ier = ier\<rparr>, s7)
   }"

section \<open>What is counted\<close>

text \<open>Bytes clocked out of the receive FIFO; bytes made part of a packet; bytes written to the
  transmit FIFO; gives of the driver's semaphore, less takes.\<close>

fun fifo_read :: "ev \<Rightarrow> nat" where
  "fifo_read (Spi b n) = (if b = [LAN9250_SPI_INSTR_READ, 0, 0] then n else 0)"
| "fifo_read e = 0"

fun added :: "pkt \<Rightarrow> ev \<Rightarrow> nat" where
  "added p (Buf_add q n) = (if q = p then n else 0)"
| "added p e = 0"

fun fifo_written :: "ev \<Rightarrow> u8 list" where
  "fifo_written (Spi (i # a # b # data) n) =
    (if i = LAN9250_SPI_INSTR_WRITE \<and> a = 0 \<and> b = 0x20 then data else [])"
| "fifo_written e = []"

fun sem_step :: "ev \<Rightarrow> int" where
  "sem_step (Sem_give Tx_rx_sem) = 1"
| "sem_step (Sem_take Tx_rx_sem) = - 1"
| "sem_step e = 0"

definition fifo_bytes :: "ev list \<Rightarrow> nat" where
  "fifo_bytes h = sum_list (map fifo_read h)"

definition packet_bytes :: "pkt \<Rightarrow> ev list \<Rightarrow> nat" where
  "packet_bytes p h = sum_list (map (added p) h)"

definition fifo_output :: "ev list \<Rightarrow> u8 list" where
  "fifo_output h = concat (map fifo_written (rev h))"

definition sem_net :: "ev list \<Rightarrow> int" where
  "sem_net h = sum_list (map sem_step h)"

lemma tally_Cons [simp]:
  "fifo_bytes (e # h) = fifo_read e + fifo_bytes h"
  "packet_bytes p (e # h) = added p e + packet_bytes p h"
  "fifo_output (e # h) = fifo_output h @ fifo_written e"
  "sem_net (e # h) = sem_step e + sem_net h"
  by (simp_all add: fifo_bytes_def packet_bytes_def fifo_output_def sem_net_def)

lemma tally_append [simp]:
  "fifo_bytes (g @ h) = fifo_bytes g + fifo_bytes h"
  "packet_bytes p (g @ h) = packet_bytes p g + packet_bytes p h"
  "fifo_output (g @ h) = fifo_output h @ fifo_output g"
  "sem_net (g @ h) = sem_net g + sem_net h"
  by (simp_all add: fifo_bytes_def packet_bytes_def fifo_output_def sem_net_def)

lemma tally_Nil [simp]: "fifo_bytes [] = 0" "packet_bytes p [] = 0" "fifo_output [] = []" "sem_net [] = 0"
  by (simp_all add: fifo_bytes_def packet_bytes_def fifo_output_def sem_net_def)

text \<open>Events that count for nothing.\<close>

definition uncounted :: "ev \<Rightarrow> bool" where
  "uncounted e \<longleftrightarrow> fifo_read e = 0 \<and> (\<forall>p. added p e = 0) \<and> fifo_written e = [] \<and> sem_step e = 0"

lemma uncounted_simps [simp]:
  "uncounted (Lock l)" "uncounted (Unlock l)" "uncounted (Pkt_read p n)" "uncounted (Pkt_ref p)"
  "uncounted (Pkt_unref p)" "uncounted (Set_timestamp p a b)" "uncounted (Net_recv p)"
  "uncounted (Sleep_ms n)" "uncounted (Tx_timestamp p)" "uncounted (Pkt_alloc n)" "uncounted Rx_error"
  by (simp_all add: uncounted_def)

lemma tally_uncounted:
  assumes "list_all uncounted h"
  shows "fifo_bytes h = 0" "packet_bytes p h = 0" "fifo_output h = []" "sem_net h = 0"
  using assms by (induction h) (simp_all add: uncounted_def)

lemma spi_write_uncounted:
  assumes "byte_order E" "a \<noteq> LAN9250_TX_DATA_FIFO"
  shows "uncounted (spi_write E a d)"
proof -
  have "\<not> (ucast (drop_bit 8 a) = (0 :: u8) \<and> ucast a = (0x20 :: u8))"
    using be16_bytes [of a] assms(2) by (auto simp: LAN9250_TX_DATA_FIFO_def)
  then show ?thesis using assms(1)
    by (simp add: uncounted_def spi_write_def byte_order_def dev_eval)
qed

lemma spi_read_uncounted:
  assumes "byte_order E" "a \<noteq> LAN9250_RX_DATA_FIFO"
  shows "uncounted (spi_read E a)"
proof -
  have "\<not> (ucast (drop_bit 8 a) = (0 :: u8) \<and> ucast a = (0 :: u8))"
    using be16_bytes [of a] assms(2) by (auto simp: LAN9250_RX_DATA_FIFO_def)
  then show ?thesis using assms(1)
    by (simp add: uncounted_def spi_read_def byte_order_def LAN9250_SPI_INSTR_READ_def
        LAN9250_SPI_INSTR_WRITE_def)
qed

lemma transfer_1588_uncounted: "byte_order E \<Longrightarrow> transfer_1588 E e \<Longrightarrow> uncounted e"
  unfolding transfer_1588_def
  by (auto intro!: spi_write_uncounted spi_read_uncounted simp: dev_eval)

lemma fair_uncounted: "byte_order E \<Longrightarrow> fair E T e \<Longrightarrow> uncounted e"
  by (cases e) (simp_all add: transfer_1588_uncounted)

lemma is_spi_uncounted: "byte_order E \<Longrightarrow> is_spi E e \<Longrightarrow> uncounted e"
  using fair_uncounted fair_spi by blast

lemma rx_check_uncounted:
  assumes "byte_order E" "wf s" "lan9250_1588_rx_timestamp_check E pkt len s = Some t"
  shows "grew uncounted s t" "wf t"
proof -
  show "grew uncounted s t"
    using assms(2,3)
  proof (cases rule: rx_check_outcome)
    case (2 k mid)
    have "list_all uncounted mid" using 2(4) fair_uncounted [OF assms(1)] by (auto simp: list_all_iff)
    then show ?thesis unfolding grew_def 2(3)
      by (intro exI [of _ "Unlock Bank_lock # mid @ [Lock Bank_lock, Pkt_read pkt (min len 128)]"]) simp
  qed (auto simp: grew_def act_def)
  show "wf t" using assms(2,3) by (cases rule: rx_check_outcome) (use assms(2) in auto)
qed

lemma expire_uncounted:
  assumes "wf s"
  shows "grew uncounted s (lan9250_1588_rx_pending_expire E now s)" "wf (lan9250_1588_rx_pending_expire E now s)"
proof -
  have "list_all uncounted (rev (expired now (rx_pending s)))" by (auto simp: expired_def list_all_iff)
  then show "grew uncounted s (lan9250_1588_rx_pending_expire E now s)"
    using expire_effect [OF assms, of E now] unfolding grew_def by force
  show "wf (lan9250_1588_rx_pending_expire E now s)"
    using expire_ok [OF assms, of E "\<lambda>_ _ _. True" now] by (simp add: step_ok_def)
qed

lemma tx_check_uncounted:
  assumes "byte_order E" "lan9250_1588_tx_timestamp_check E pkt frame len s = Some t"
  shows "grew uncounted s t"
proof (cases "lan9250_ptp_parse_header E (take len frame)")
  case (Some parsed)
  show ?thesis
  proof (cases parsed)
    case None
    with Some assms(2) show ?thesis by (simp add: lan9250_1588_tx_timestamp_check_def grew_same)
  next
    case (Some k)
    let ?s1 = "act (Lock Bank_lock) s"
    have un: "grew uncounted ?s1 u" if "adds_at_most E n ?s1 u" for n u
      using that is_spi_uncounted [OF assms(1)]
      unfolding adds_at_most_def grew_def by (fastforce simp: list_all_iff)
    have "\<exists>u. tx_capture E pkt k ?s1 = Some ((), u) \<and> grew uncounted ?s1 u"
    proof (cases rule: tx_capture_cases [of E pkt k ?s1])
      case (2 hw sec ns u)
      have "grew uncounted u (act (spi_write E LAN9250_1588_INT_STS LAN9250_1588_INT_STS_TX_TS_INT)
          (tx_event E pkt k hw sec ns u))"
        using is_spi_uncounted [OF assms(1) is_spi_1588(2)]
        by (auto simp: grew_def act_def tx_event_def Let_def)
      with 2(3) un [OF 2(1)] show ?thesis using grew_trans by blast
    qed (use un in blast)
    then obtain u where "tx_capture E pkt k ?s1 = Some ((), u)" "grew uncounted ?s1 u" by blast
    with Some \<open>lan9250_ptp_parse_header E (take len frame) = Some parsed\<close> assms(2) show ?thesis
      by (auto simp: lan9250_1588_tx_timestamp_check_def grew_def act_def)
  qed
qed (use assms(2) in \<open>simp add: lan9250_1588_tx_timestamp_check_def\<close>)

section \<open>The loops\<close>

lemma read_buf_tally [simp]:
  "fifo_read (read_buf_ev n) = n" "added p (read_buf_ev n) = 0" "fifo_written (read_buf_ev n) = []"
  "sem_step (read_buf_ev n) = 0"
  by (simp_all add: read_buf_ev_def fifo_instr_def LAN9250_RX_DATA_FIFO_def LAN9250_SPI_INSTR_READ_def
      LAN9250_SPI_INSTR_WRITE_def)

text \<open>The loops return on any bus, with nothing but reads of at most a buffer's size and, when
  filling, the bytes of this packet.\<close>

definition chunk_ev :: "lan_env \<Rightarrow> pkt option \<Rightarrow> ev \<Rightarrow> bool" where
  "chunk_ev E dst e \<longleftrightarrow> (\<exists>n\<le>NET_BUF_DATA_SIZE E. e = read_buf_ev n) \<or> (\<exists>p n. dst = Some p \<and> e = Buf_add p n)"

lemma chunk_evI:
  "chunk_ev E dst (read_buf_ev (min n (NET_BUF_DATA_SIZE E)))" "chunk_ev E (Some p) (Buf_add p n)"
  unfolding chunk_ev_def using min.cobounded2 by blast+

lemma drain_loop_returns:
  assumes "0 < NET_BUF_DATA_SIZE E"
  shows "\<exists>new. drain_loop E n s = Some (s\<lparr>trace := new @ trace s\<rparr>) \<and> list_all (chunk_ev E None) new \<and>
    ((\<forall>h. 0 \<le> spi_ret E h) \<longrightarrow> fifo_bytes new = n)"
proof (induction n arbitrary: s rule: less_induct)
  case (less n)
  let ?k = "min n (NET_BUF_DATA_SIZE E)" let ?s1 = "act (read_buf_ev ?k) s"
  have ev: "chunk_ev E None (read_buf_ev ?k)" by (rule chunk_evI)
  show ?case
  proof (cases "n = 0 \<or> spi_ret E (trace ?s1) < 0")
    case True
    then show ?thesis
    proof (cases "n = 0")
      case True
      then show ?thesis by (intro exI [of _ "[]"]) (simp add: drain_loop.simps)
    next
      case False
      with True have "spi_ret E (trace ?s1) < 0" by simp
      moreover from this have "\<not> (\<forall>h. 0 \<le> spi_ret E h)" by (metis not_less)
      ultimately show ?thesis using ev False
        by (intro exI [of _ "[read_buf_ev ?k]"])
          (auto simp: drain_loop.simps [of E n s] lan9250_read_buf_def Let_def act_def)
    qed
  next
    case False
    then have "n - ?k < n" using assms by simp
    from less [OF this, of ?s1] obtain new where
      IH: "drain_loop E (n - ?k) ?s1 = Some (?s1\<lparr>trace := new @ trace ?s1\<rparr>)"
        "list_all (chunk_ev E None) new" "(\<forall>h. 0 \<le> spi_ret E h) \<longrightarrow> fifo_bytes new = n - ?k"
      by blast
    then have "drain_loop E n s = Some (s\<lparr>trace := (new @ [read_buf_ev ?k]) @ trace s\<rparr>)"
      using False by (simp add: drain_loop.simps [of E n s] lan9250_read_buf_def Let_def act_def)
    with IH(2,3) ev show ?thesis by (intro exI [of _ "new @ [read_buf_ev ?k]"]) auto
  qed
qed

lemma fill_loop_outcome:
  "fill_loop E pkt frags n s = Some (r, t) \<Longrightarrow>
   \<exists>new. t = s\<lparr>trace := new @ trace s\<rparr> \<and> list_all (chunk_ev E (Some pkt)) new \<and> r \<le> 0 \<and>
    ((\<forall>h. 0 \<le> spi_ret E h) \<longrightarrow> r = 0) \<and> (r = 0 \<longrightarrow> fifo_bytes new = n \<and> packet_bytes pkt new = n)"
proof (induction frags arbitrary: n s)
  case (Suc frags)
  let ?k = "min n (NET_BUF_DATA_SIZE E)" let ?s1 = "act (read_buf_ev ?k) s"
  let ?s2 = "act (Buf_add pkt ?k) ?s1"
  have ev: "chunk_ev E (Some pkt) (read_buf_ev ?k)" "chunk_ev E (Some pkt) (Buf_add pkt ?k)"
    by (rule chunk_evI)+
  consider "spi_ret E (trace ?s1) < 0" | "0 \<le> spi_ret E (trace ?s1)" "n - ?k = 0"
    | "0 \<le> spi_ret E (trace ?s1)" "0 < n - ?k" by linarith
  then show ?case
  proof cases
    case 1
    then have "\<not> (\<forall>h. 0 \<le> spi_ret E h)" by (metis not_less)
    with 1 ev Suc.prems show ?thesis
      by (intro exI [of _ "[read_buf_ev ?k]"]) (auto simp: lan9250_read_buf_def Let_def act_def)
  next
    case 2
    then have "?k = n" by simp
    with 2 ev Suc.prems show ?thesis
      by (intro exI [of _ "[Buf_add pkt ?k, read_buf_ev ?k]"]) (auto simp: lan9250_read_buf_def Let_def act_def)
  next
    case 3
    with Suc.prems have "fill_loop E pkt frags (n - ?k) ?s2 = Some (r, t)"
      by (simp add: lan9250_read_buf_def Let_def split: if_splits)
    from Suc.IH [OF this] obtain new where
      IH: "t = ?s2\<lparr>trace := new @ trace ?s2\<rparr>" "list_all (chunk_ev E (Some pkt)) new" "r \<le> 0"
        "(\<forall>h. 0 \<le> spi_ret E h) \<longrightarrow> r = 0" "r = 0 \<longrightarrow> fifo_bytes new = n - ?k \<and> packet_bytes pkt new = n - ?k"
      by blast
    then show ?thesis using ev
      by (intro exI [of _ "new @ [Buf_add pkt ?k, read_buf_ev ?k]"]) (auto simp: act_def)
  qed
qed simp

lemma fill_loop_pos: "0 < frags \<Longrightarrow> fill_loop E pkt frags n s = do {
    (ret, s1) \<leftarrow> lan9250_read_buf E (min n (NET_BUF_DATA_SIZE E)) s;
    if ret < 0 then Some (ret, s1)
    else let s2 = act (Buf_add pkt (min n (NET_BUF_DATA_SIZE E))) s1;
             left = n - min n (NET_BUF_DATA_SIZE E)
         in if 0 < left then fill_loop E pkt (frags - 1) left s2 else Some (0, s2) }"
  by (cases frags) (simp_all only: fill_loop.simps(2) diff_Suc_1 less_irrefl)

text \<open>The chain is long enough, or the loop runs off its end unless a transfer fails before.\<close>

lemma fill_loop_fits:
  "0 < frags \<Longrightarrow> n \<le> frags * NET_BUF_DATA_SIZE E \<Longrightarrow> \<exists>r t. fill_loop E pkt frags n s = Some (r, t)"
proof (induction frags arbitrary: n s)
  case (Suc frags)
  let ?k = "min n (NET_BUF_DATA_SIZE E)"
  show ?case
  proof (cases "0 < n - ?k")
    case True
    then have "0 < frags" "n - ?k \<le> frags * NET_BUF_DATA_SIZE E" using Suc.prems by (auto intro: gr0I)
    from Suc.IH [OF this, of "act (Buf_add pkt ?k) (act (read_buf_ev ?k) s)"] show ?thesis
      by (auto simp: lan9250_read_buf_def Let_def)
  qed (auto simp: lan9250_read_buf_def Let_def)
qed simp

lemma fill_loop_overrun:
  "(\<forall>h. 0 \<le> spi_ret E h) \<Longrightarrow> frags * NET_BUF_DATA_SIZE E < n \<Longrightarrow> fill_loop E pkt frags n s = None"
proof (induction frags arbitrary: n s)
  case (Suc frags)
  let ?k = "min n (NET_BUF_DATA_SIZE E)"
  have left: "frags * NET_BUF_DATA_SIZE E < n - ?k" using Suc.prems(2) by (simp add: min_def split: if_splits)
  have ok: "\<not> spi_ret E h < 0" for h using Suc.prems(1) by (simp add: not_less)
  have "fill_loop E pkt frags (n - ?k) u = None" for u by (rule Suc.IH [OF Suc.prems(1) left])
  then show ?case using left by (simp add: lan9250_read_buf_def Let_def ok)
qed simp

lemma chunk_tally:
  assumes "list_all (chunk_ev E dst) new"
  shows "sem_net new = 0" "fifo_output new = []"
  using assms by (induction new) (auto simp: chunk_ev_def)

section \<open>Receiving a frame\<close>

text \<open>The two words that describe the next frame.\<close>

definition next_frame :: "lan_env \<Rightarrow> lan \<Rightarrow> nat" where
  "next_frame E s =
    (let h1 = spi_read E LAN9250_RX_FIFO_INF # trace s; h2 = spi_read E LAN9250_RX_STATUS_FIFO # h1
     in if drop_bit 16 (le32 (spi_rx E h1) AND LAN9250_RX_FIFO_INF_RXSUSED) = 0 then 0
        else unat (drop_bit 16 (le32 (spi_rx E h2) AND LAN9250_RX_STS_PACKET_LEN)))"

lemma rx_drop_returns:
  assumes "wf s" "0 < NET_BUF_DATA_SIZE E"
  obtains t new where "rx_drop_frame E n s = Some (0, t)" "wf t" "trace t = new @ trace s"
    "sem_net new = 0" "(\<forall>h. 0 \<le> spi_ret E h) \<longrightarrow> fifo_bytes new = n + end_pad n"
proof -
  let ?s1 = "act (Lock Bank_lock) (act Rx_error s)"
  let ?e = "lan9250_1588_rx_pending_expire E (uptime E (trace ?s1)) ?s1"
  let ?s2 = "act (Unlock Bank_lock) ?e"
  have wf: "wf ?s1" using assms(1) by simp
  obtain un where un: "trace ?e = un @ trace ?s1" "list_all uncounted un"
    using expire_uncounted(1) [OF wf] by (auto simp: grew_def)
  obtain dr where dr: "drain_loop E n ?s2 = Some (?s2\<lparr>trace := dr @ trace ?s2\<rparr>)"
    "list_all (chunk_ev E None) dr" "(\<forall>h. 0 \<le> spi_ret E h) \<longrightarrow> fifo_bytes dr = n"
    using drain_loop_returns [OF assms(2)] by blast
  define pad where "pad = (if 0 < end_pad n then [read_buf_ev (end_pad n)] else [])"
  let ?new = "pad @ dr @ Unlock Bank_lock # un @ [Lock Bank_lock, Rx_error]"
  let ?t = "?s2\<lparr>trace := pad @ dr @ trace ?s2\<rparr>"
  show thesis
  proof (rule that)
    show "rx_drop_frame E n s = Some (0, ?t)"
      using dr(1) by (simp add: rx_drop_frame_def Let_def pad_def lan9250_read_buf_def act_def)
    show "wf ?t" using expire_uncounted(2) [OF wf] by (simp add: wf_def act_def)
    show "trace ?t = ?new @ trace s" using un(1) by (simp add: act_def)
    show "sem_net ?new = 0" "(\<forall>h. 0 \<le> spi_ret E h) \<longrightarrow> fifo_bytes ?new = n + end_pad n"
      using dr(3) tally_uncounted [OF un(2)] chunk_tally [OF dr(2)] by (auto simp: pad_def)
  qed
qed

lemma rx_store_outcome:
  assumes E: "byte_order E" "reads_be16 E" and wf: "wf s" and store: "rx_store_frame E pkt n s = Some (r, t)"
  obtains new where "wf t" "trace t = new @ trace s"
    "sem_net new = (if r < 0 then 0 else 1)" "(\<forall>h. 0 \<le> spi_ret E h) \<longrightarrow> r = 0" "r \<le> 0"
    "r = 0 \<longrightarrow> fifo_bytes new = n + end_pad n \<and> packet_bytes pkt new = n"
    "r < 0 \<longrightarrow> list_all (\<lambda>e. chunk_ev E (Some pkt) e \<or> e = read_buf_ev (end_pad n)) new"
    "Sem_take Tx_rx_sem \<notin> set new" "fifo_output new = []"
proof -
  obtain r1 s1 where fill: "fill_loop E pkt (pkt_frags E (trace s)) n s = Some (r1, s1)"
    using store by (auto simp: rx_store_frame_def then_ok_def bind_eq_Some_conv)
  obtain fl where s1: "s1 = s\<lparr>trace := fl @ trace s\<rparr>"
    and fl: "list_all (chunk_ev E (Some pkt)) fl" "r1 \<le> 0" "(\<forall>h. 0 \<le> spi_ret E h) \<longrightarrow> r1 = 0"
    "r1 = 0 \<longrightarrow> fifo_bytes fl = n \<and> packet_bytes pkt fl = n"
    using fill_loop_outcome [OF fill] by blast
  let ?s1 = "s\<lparr>trace := fl @ trace s\<rparr>"
  define pad where "pad = (if 0 < end_pad n then [read_buf_ev (end_pad n)] else [])"
  define r2 where "r2 = (if 0 < end_pad n then spi_ret E (pad @ trace ?s1) else 0)"
  let ?s2 = "?s1\<lparr>trace := pad @ trace ?s1\<rparr>"
  have wf2: "wf ?s2" using wf by (simp add: wf_def)
  obtain c where c: "lan9250_1588_rx_timestamp_check E pkt n ?s2 = Some c"
    using rx_check_total [OF E(2)] by blast
  obtain ck where ck: "trace c = ck @ trace ?s2" "list_all uncounted ck"
    using rx_check_uncounted(1) [OF E(1) wf2 c] by (auto simp: grew_def)
  define d where "d = (if net_recv E (trace (act (Net_recv pkt) c)) < 0 then [Pkt_unref pkt] else [])"
  let ?t = "c\<lparr>trace := Sem_give Tx_rx_sem # d @ Net_recv pkt # trace c\<rparr>"
  have pad_run: "(if 0 < end_pad n then lan9250_read_buf E (end_pad n) else run_cmds []) ?s1 = Some (r2, ?s2)"
    by (simp add: pad_def r2_def lan9250_read_buf_def act_def)
  have run: "Some (r, t) =
      (if r1 < 0 then Some (r1, ?s1) else if r2 < 0 then Some (r2, ?s2) else Some (0, ?t))"
    using fill pad_run c by (simp add: store [symmetric] rx_store_frame_def then_ok_def Let_def d_def act_def s1)
  have no_take: "Sem_take Tx_rx_sem \<notin> set fl" "Sem_take Tx_rx_sem \<notin> set ck" "Sem_take Tx_rx_sem \<notin> set pad"
    using fl(1) ck(2) by (auto simp: list_all_iff chunk_ev_def read_buf_ev_def uncounted_def pad_def)
  consider "r1 < 0" | "r1 = 0" "r2 < 0" | "r1 = 0" "0 \<le> r2" using fl(2) by linarith
  then show thesis
  proof cases
    case 1
    then have rt: "r = r1" "t = ?s1" using run by simp_all
    with 1 show thesis using wf chunk_tally [OF fl(1)] fl(1,3) no_take
      by (intro that [of fl]) (auto simp: wf_def list_all_iff)
  next
    case 2
    then have rt: "r = r2" "t = ?s2" and "0 < end_pad n" using run by (auto simp: r2_def split: if_splits)
    with 2 show thesis using wf2 chunk_tally [OF fl(1)] fl(1) no_take
      by (intro that [of "pad @ fl"]) (auto simp: pad_def r2_def list_all_iff not_less [symmetric])
  next
    case 3
    then have rt: "r = 0" "t = ?t" using run by simp_all
    have "wf ?t" using rx_check_uncounted(2) [OF E(1) wf2 c] by (simp add: wf_def)
    moreover have "trace ?t = (Sem_give Tx_rx_sem # d @ Net_recv pkt # ck @ pad @ fl) @ trace s"
      using ck(1) by simp
    ultimately show thesis using 3 rt fl(4) tally_uncounted [OF ck(2)] chunk_tally [OF fl(1)] no_take
      by (intro that [of "Sem_give Tx_rx_sem # d @ Net_recv pkt # ck @ pad @ fl"])
        (auto simp: pad_def d_def)
  qed
qed

lemma rx_store_fits:
  assumes "reads_be16 E" "0 < n" "n \<le> pkt_frags E (trace s) * NET_BUF_DATA_SIZE E"
  shows "\<exists>r t. rx_store_frame E pkt n s = Some (r, t)"
proof -
  have "0 < pkt_frags E (trace s)" using assms(2,3) by (auto intro: gr0I)
  then obtain r s1 where fill: "fill_loop E pkt (pkt_frags E (trace s)) n s = Some (r, s1)"
    using fill_loop_fits assms(3) by blast
  have "\<exists>c. lan9250_1588_rx_timestamp_check E pkt n u = Some c" for u
    using rx_check_total [OF assms(1)] by blast
  then have "\<exists>r t. do { c \<leftarrow> lan9250_1588_rx_timestamp_check E pkt n u; Some (0 :: int, f c) } = Some (r, t)"
    for u and f :: "lan \<Rightarrow> lan" by (metis bind.bind_lunit)
  then show ?thesis
    using fill by (simp add: rx_store_frame_def then_ok_def lan9250_read_buf_def Let_def)
qed

lemma padded: "(n + end_pad n) mod 4 = 0"
proof -
  have "n mod 4 < 4" by simp
  then consider "n mod 4 = 0" | "n mod 4 = 1" | "n mod 4 = 2" | "n mod 4 = 3" by linarith
  then show ?thesis by cases (simp_all add: end_pad_def mod_add_left_eq [symmetric] mod_Suc)
qed

text \<open>The paths through \<open>lan9250_rx\<close>: nothing to read or no bus, a frame dropped, a frame stored.\<close>

lemma rx_paths:
  fixes E s
  defines "h1 \<equiv> spi_read E LAN9250_RX_FIFO_INF # trace s"
  defines "h2 \<equiv> spi_read E LAN9250_RX_STATUS_FIFO # h1"
  defines "h3 \<equiv> spi_read E LAN9250_RX_DATA_FIFO # h2"
  defines "h4 \<equiv> Pkt_alloc (next_frame E s) # (if NET_ETH_MAX_FRAME E < next_frame E s then [Rx_error] else []) @ h3"
  shows "lan9250_rx E s =
    (if spi_ret E h1 < 0 then Some (spi_ret E h1, s\<lparr>trace := h1\<rparr>)
     else if spi_ret E h2 < 0 then Some (spi_ret E h2, s\<lparr>trace := h2\<rparr>)
     else if next_frame E s = 0 then Some (0, s\<lparr>trace := h2\<rparr>)
     else if spi_ret E h3 < 0 then Some (spi_ret E h3, s\<lparr>trace := h3\<rparr>)
     else case net_pkt_alloc E h4 of
       None \<Rightarrow> rx_drop_frame E (next_frame E s) (s\<lparr>trace := h4\<rparr>)
     | Some pkt \<Rightarrow> rx_store_frame E pkt (next_frame E s) (s\<lparr>trace := h4\<rparr>))"
  unfolding h4_def h3_def h2_def h1_def lan9250_rx_def next_frame_def
  by (simp add: query_ok_def lan9250_read_sys_reg_def act_def Let_def split: option.split)

text \<open>The log when the packet for the next frame has been asked for, and the bytes its buffers hold; a
  frame that gets no packet is not stored and needs none.\<close>

definition alloc_log :: "lan_env \<Rightarrow> lan \<Rightarrow> ev list" where
  "alloc_log E s = Pkt_alloc (next_frame E s) #
     (if NET_ETH_MAX_FRAME E < next_frame E s then [Rx_error] else []) @ spi_read E LAN9250_RX_DATA_FIFO #
     spi_read E LAN9250_RX_STATUS_FIFO # spi_read E LAN9250_RX_FIFO_INF # trace s"

definition rx_room :: "lan_env \<Rightarrow> lan \<Rightarrow> nat" where
  "rx_room E s = (case net_pkt_alloc E (alloc_log E s) of
     None \<Rightarrow> next_frame E s
   | Some pkt \<Rightarrow> pkt_frags E (alloc_log E s) * NET_BUF_DATA_SIZE E)"

text \<open>What the code relies on of the allocation: an answer for a frame that is no longer than
  \<open>NET_ETH_MAX_FRAME_SIZE\<close> has buffers for all of it. Zephyr gives a longer one no more than that.\<close>

definition buffers_for :: "lan_env \<Rightarrow> bool" where
  "buffers_for E \<longleftrightarrow> (\<forall>n h. 0 < n \<and> n \<le> NET_ETH_MAX_FRAME E \<longrightarrow>
     n \<le> pkt_frags E (Pkt_alloc n # h) * NET_BUF_DATA_SIZE E)"

lemma buffers_room:
  assumes "buffers_for E" "next_frame E s \<le> NET_ETH_MAX_FRAME E"
  shows "next_frame E s \<le> rx_room E s"
proof (cases "next_frame E s = 0")
  case False
  then have "next_frame E s \<le> pkt_frags E (alloc_log E s) * NET_BUF_DATA_SIZE E"
    using assms unfolding buffers_for_def alloc_log_def by blast
  then show ?thesis by (simp add: rx_room_def split: option.split)
qed simp

lemma rx_returns:
  assumes E: "byte_order E" "reads_be16 E" and wf: "wf s" and B: "0 < NET_BUF_DATA_SIZE E"
    and fits: "next_frame E s \<le> rx_room E s"
  obtains r t where "lan9250_rx E s = Some (r, t)" "wf t" "grew (\<lambda>_. True) s t"
proof -
  let ?n = "next_frame E s"
  let ?h1 = "spi_read E LAN9250_RX_FIFO_INF # trace s"
  let ?h3 = "spi_read E LAN9250_RX_DATA_FIFO # spi_read E LAN9250_RX_STATUS_FIFO # ?h1"
  let ?h4 = "Pkt_alloc ?n # (if NET_ETH_MAX_FRAME E < ?n then [Rx_error] else []) @ ?h3"
  have wf': "wf (s\<lparr>trace := h\<rparr>)" for h using wf by (simp add: wf_def)
  have front: "grew (\<lambda>_. True) s (s\<lparr>trace := new @ trace s\<rparr>)" for new
    by (auto simp: grew_def list_all_iff)
  have g: "grew (\<lambda>_. True) s (s\<lparr>trace := ?h1\<rparr>)" "grew (\<lambda>_. True) s (s\<lparr>trace := tl ?h3\<rparr>)"
    "grew (\<lambda>_. True) s (s\<lparr>trace := ?h3\<rparr>)" "grew (\<lambda>_. True) s (s\<lparr>trace := ?h4\<rparr>)"
    using front [of "[_]"] front [of "[_, _]"] front [of "[_, _, _]"]
      front [of "Pkt_alloc ?n # (if NET_ETH_MAX_FRAME E < ?n then [Rx_error] else []) @ [_, _, _]"]
    by (simp_all split del: if_split)
  have tail: "\<exists>r t. (case net_pkt_alloc E ?h4 of None \<Rightarrow> rx_drop_frame E ?n (s\<lparr>trace := ?h4\<rparr>)
      | Some p \<Rightarrow> rx_store_frame E p ?n (s\<lparr>trace := ?h4\<rparr>)) = Some (r, t) \<and> wf t \<and> grew (\<lambda>_. True) s t"
    if n: "0 < ?n"
  proof (cases "net_pkt_alloc E ?h4")
    case None
    obtain t new where "rx_drop_frame E ?n (s\<lparr>trace := ?h4\<rparr>) = Some (0, t)" "wf t" "trace t = new @ trace (s\<lparr>trace := ?h4\<rparr>)"
      by (rule rx_drop_returns [OF wf' B, of ?n])
    moreover from this(3) have "grew (\<lambda>_. True) (s\<lparr>trace := ?h4\<rparr>) t"
      by (simp add: grew_def list_all_iff)
    ultimately show ?thesis using None grew_trans [OF g(4)] by auto
  next
    case (Some p)
    have "?n \<le> pkt_frags E ?h4 * NET_BUF_DATA_SIZE E"
      using fits Some unfolding rx_room_def alloc_log_def by (simp split del: if_split)
    then obtain r t where st: "rx_store_frame E p ?n (s\<lparr>trace := ?h4\<rparr>) = Some (r, t)"
      using rx_store_fits [OF E(2) n, of "s\<lparr>trace := ?h4\<rparr>" p] by auto
    moreover obtain new where "wf t" "trace t = new @ trace (s\<lparr>trace := ?h4\<rparr>)"
      by (rule rx_store_outcome [OF E wf' st])
    moreover from this(2) have "grew (\<lambda>_. True) (s\<lparr>trace := ?h4\<rparr>) t"
      by (simp add: grew_def list_all_iff)
    ultimately show ?thesis using Some grew_trans [OF g(4)] by auto
  qed
  have "\<exists>r t. lan9250_rx E s = Some (r, t) \<and> wf t \<and> grew (\<lambda>_. True) s t"
    unfolding rx_paths using tail g(1-3) wf' by simp
  then show thesis using that by blast
qed

lemma read_tally:
  assumes "byte_order E"
  shows "fifo_read (spi_read E LAN9250_RX_DATA_FIFO) = 4" "sem_step (spi_read E a) = 0"
    "uncounted (spi_read E LAN9250_RX_FIFO_INF)" "uncounted (spi_read E LAN9250_RX_STATUS_FIFO)"
    "added p (spi_read E a) = 0" "fifo_written (spi_read E a) = []"
  using assms spi_read_uncounted
  by (auto simp: spi_read_def byte_order_def dev_eval uncounted_def)

section \<open>Properties\<close>

text \<open>With a packet to store it in or without, the frame is clocked out whole.\<close>

lemma rx_body_in_step:
  assumes "byte_order E" "reads_be16 E" "\<forall>h. 0 \<le> spi_ret E h" "0 < NET_BUF_DATA_SIZE E" "wf s"
    and "0 < n" "p \<noteq> None \<Longrightarrow> n \<le> pkt_frags E (trace s) * NET_BUF_DATA_SIZE E"
  shows "\<exists>t new. (case p of None \<Rightarrow> rx_drop_frame E n s | Some pkt \<Rightarrow> rx_store_frame E pkt n s) = Some (0, t) \<and>
    wf t \<and> trace t = new @ trace s \<and> fifo_bytes new = n + end_pad n"
proof (cases p)
  case None
  then show ?thesis using rx_drop_returns [OF assms(5,4), of n] assms(3) by fastforce
next
  case (Some pkt)
  then obtain r t where st: "rx_store_frame E pkt n s = Some (r, t)"
    using rx_store_fits [OF assms(2,6)] assms(7) by blast
  from rx_store_outcome [OF assms(1,2,5) st] assms(3) show ?thesis using st Some by fastforce
qed

text \<open>With a packet and too few buffers, the code runs off the end of their chain.\<close>

lemma rx_overrun:
  assumes "\<forall>h. 0 \<le> spi_ret E h" "rx_room E s < next_frame E s"
  shows "lan9250_rx E s = None"
proof -
  let ?s4 = "s\<lparr>trace := alloc_log E s\<rparr>"
  have ok: "\<not> spi_ret E h < 0" for h using assms(1) by (simp add: not_less)
  obtain pkt where p: "net_pkt_alloc E (alloc_log E s) = Some pkt"
    "pkt_frags E (alloc_log E s) * NET_BUF_DATA_SIZE E < next_frame E s"
    using assms(2) by (auto simp: rx_room_def split: option.splits)
  have "fill_loop E pkt (pkt_frags E (trace ?s4)) (next_frame E s) ?s4 = None"
    using fill_loop_overrun [OF assms(1)] p(2) by simp
  then have "rx_store_frame E pkt (next_frame E s) ?s4 = None"
    by (simp add: rx_store_frame_def then_ok_def)
  moreover have "lan9250_rx E s = rx_store_frame E pkt (next_frame E s) ?s4"
    using assms(2) unfolding rx_paths alloc_log_def [symmetric] by (simp add: p(1) ok)
  ultimately show ?thesis by simp
qed

text \<open>
  C20: The receive FIFO stays in step while frames fit their buffers. If transfers work and the buffers
  allocated for the next frame hold it, \<open>lan9250_rx\<close> returns, and for a frame of \<open>n\<close> bytes it clocks out
  exactly the four bytes of the start offset, the \<open>n\<close> bytes and the padding, together a whole number of
  the FIFO's words, no matter whether a packet could be allocated for the frame, how its bytes are split
  into buffers, or what the timestamp check does; if there is no frame it reads nothing. If they do not
  hold it, as for a frame so much over \<open>NET_ETH_MAX_FRAME_SIZE\<close> that the clipped allocation is too short,
  the loop runs off the end of the chain of buffers.
\<close>

theorem rx_keeps_fifo_in_step:
  assumes "byte_order E" "reads_be16 E" "\<forall>h. 0 \<le> spi_ret E h" "0 < NET_BUF_DATA_SIZE E" "wf s"
  shows "if next_frame E s \<le> rx_room E s
    then \<exists>t. lan9250_rx E s = Some (0, t) \<and> wf t \<and> (\<exists>new. trace t = new @ trace s \<and>
      fifo_bytes new = (let n = next_frame E s in if n = 0 then 0 else 4 + (n + end_pad n)) \<and>
      fifo_bytes new mod 4 = 0)
    else lan9250_rx E s = None"
proof -
  let ?n = "next_frame E s"
  let ?h2 = "spi_read E LAN9250_RX_STATUS_FIFO # spi_read E LAN9250_RX_FIFO_INF # trace s"
  let ?err = "if NET_ETH_MAX_FRAME E < ?n then [Rx_error] else []"
  let ?h4 = "Pkt_alloc ?n # ?err @ spi_read E LAN9250_RX_DATA_FIFO # ?h2"
  let ?s4 = "s\<lparr>trace := ?h4\<rparr>"
  have pad: "(4 + (?n + end_pad ?n)) mod 4 = 0" using padded by (simp only: mod_add_self1)
  have front: "fifo_bytes (Pkt_alloc ?n # ?err @ [spi_read E LAN9250_RX_DATA_FIFO,
      spi_read E LAN9250_RX_STATUS_FIFO, spi_read E LAN9250_RX_FIFO_INF]) = 4"
    using read_tally(1,3,4) [OF assms(1)] by (simp add: uncounted_def)
  have wf4: "wf ?s4" using assms(5) by (simp add: wf_def)
  have ok: "\<not> spi_ret E h < 0" for h using assms(3) by (simp add: not_less)
  have "\<exists>t. lan9250_rx E s = Some (0, t) \<and> wf t \<and> (\<exists>new. trace t = new @ trace s \<and>
      fifo_bytes new = (let n = next_frame E s in if n = 0 then 0 else 4 + (n + end_pad n)) \<and>
      fifo_bytes new mod 4 = 0)" if fits: "?n \<le> rx_room E s"
  proof (cases "?n = 0")
    case True
    then have "lan9250_rx E s = Some (0, s\<lparr>trace := ?h2\<rparr>)" by (simp add: rx_paths ok)
    moreover have "wf (s\<lparr>trace := ?h2\<rparr>)" using assms(5) by (simp add: wf_def)
    moreover have "fifo_bytes [spi_read E LAN9250_RX_STATUS_FIFO, spi_read E LAN9250_RX_FIFO_INF] = 0"
      using read_tally(3,4) [OF assms(1)] by (simp add: uncounted_def)
    ultimately show ?thesis using True pad
      by (intro exI [of _ "s\<lparr>trace := ?h2\<rparr>"] conjI
          exI [of _ "[spi_read E LAN9250_RX_STATUS_FIFO, spi_read E LAN9250_RX_FIFO_INF]"]) simp_all
  next
    case False
    have hold: "?n \<le> pkt_frags E (trace ?s4) * NET_BUF_DATA_SIZE E" if "net_pkt_alloc E ?h4 \<noteq> None"
      using fits that unfolding rx_room_def alloc_log_def by (auto split del: if_split)
    obtain t new where t: "(case net_pkt_alloc E ?h4 of None \<Rightarrow> rx_drop_frame E ?n ?s4
        | Some pkt \<Rightarrow> rx_store_frame E pkt ?n ?s4) = Some (0, t)" "wf t" "trace t = new @ ?h4"
        "fifo_bytes new = ?n + end_pad ?n"
      using rx_body_in_step [OF assms(1-4) wf4, where p = "net_pkt_alloc E ?h4" and n = ?n] False hold by auto
    then have "lan9250_rx E s = Some (0, t)" using False by (simp add: rx_paths ok)
    moreover have "trace t = (new @ Pkt_alloc ?n # ?err @ [spi_read E LAN9250_RX_DATA_FIFO,
        spi_read E LAN9250_RX_STATUS_FIFO, spi_read E LAN9250_RX_FIFO_INF]) @ trace s"
      using t(3) by simp
    moreover have "fifo_bytes (new @ Pkt_alloc ?n # ?err @ [spi_read E LAN9250_RX_DATA_FIFO,
        spi_read E LAN9250_RX_STATUS_FIFO, spi_read E LAN9250_RX_FIFO_INF]) = 4 + (?n + end_pad ?n)"
      using front t(4) by (simp only: tally_append)
    ultimately show ?thesis using t(2) pad False unfolding Let_def by auto
  qed
  then show ?thesis using rx_overrun [OF assms(3)] by auto
qed

text \<open>A chip with a Sync frame of 58 bytes in its receive FIFO.\<close>

definition rx_chip :: lan_env where
  "rx_chip = calm\<lparr>spi_rx := \<lambda>h. (case h of
     Spi [i, a, b] n # _ \<Rightarrow>
       (if b = 0x7C then [0, 0, 1, 0] else if b = 0x40 then [0, 0, 58, 0] else [0, 0, 0, 0])
   | _ \<Rightarrow> [0, 0, 0, 0]), net_pkt_read := \<lambda>h. (0, sync_frame)\<rparr>"

lemma rx_chip_ok: "byte_order rx_chip" "reads_be16 rx_chip" "\<forall>h. 0 \<le> spi_ret rx_chip h"
  "0 < NET_BUF_DATA_SIZE rx_chip" "\<forall>h. net_pkt_alloc rx_chip h = Some 1"
  using calm_reads calm_byte_order
  by (simp_all add: rx_chip_def reads_be16_def byte_order_def calm_def)

lemma rx_chip_frame: "next_frame rx_chip s = 58"
  by (simp add: next_frame_def rx_chip_def calm_def spi_read_def LAN9250_RX_FIFO_INF_def
      LAN9250_RX_STATUS_FIFO_def le32_def Let_def reg_bits)

lemma rx_chip_room: "buffers_for rx_chip" "rx_room rx_chip s = 1536"
proof -
  have chip: "pkt_frags rx_chip h = 12" "NET_BUF_DATA_SIZE rx_chip = 128" "NET_ETH_MAX_FRAME rx_chip = 1514"
    "net_pkt_alloc rx_chip h = Some 1" for h
    by (simp_all add: rx_chip_def calm_def)
  then show "buffers_for rx_chip" by (simp add: buffers_for_def)
  show "rx_room rx_chip s = 1536" using chip by (simp add: rx_room_def)
qed

text \<open>And the chip with a frame of two thousand bytes.\<close>

definition jumbo_chip :: lan_env where
  "jumbo_chip = rx_chip\<lparr>spi_rx := \<lambda>h. (case h of
     Spi [i, a, b] n # _ \<Rightarrow>
       (if b = 0x7C then [0, 0, 1, 0] else if b = 0x40 then [0, 0, 0xD0, 7] else [0, 0, 0, 0])
   | _ \<Rightarrow> [0, 0, 0, 0])\<rparr>"

lemma jumbo_chip_ok: "byte_order jumbo_chip" "reads_be16 jumbo_chip" "\<forall>h. 0 \<le> spi_ret jumbo_chip h"
  "0 < NET_BUF_DATA_SIZE jumbo_chip" "next_frame jumbo_chip s = 2000" "rx_room jumbo_chip s = 1536"
proof -
  show "next_frame jumbo_chip s = 2000"
    by (simp add: next_frame_def jumbo_chip_def rx_chip_def calm_def spi_read_def LAN9250_RX_FIFO_INF_def
        LAN9250_RX_STATUS_FIFO_def le32_def Let_def reg_bits)
  show "rx_room jumbo_chip s = 1536" by (simp add: rx_room_def jumbo_chip_def rx_chip_def calm_def)
qed (use rx_chip_ok in \<open>simp_all add: jumbo_chip_def byte_order_def reads_be16_def\<close>)

lemma rx_keeps_fifo_in_step_witness:
  "(\<exists>t. lan9250_rx rx_chip lan0 = Some (0, t) \<and> fifo_bytes (trace t) = 64) \<and>
   lan9250_rx jumbo_chip lan0 = None"
proof
  show "\<exists>t. lan9250_rx rx_chip lan0 = Some (0, t) \<and> fifo_bytes (trace t) = 64"
    using rx_keeps_fifo_in_step [OF rx_chip_ok(1-4) wf_lan0]
    by (auto simp: rx_chip_frame rx_chip_room trace_lan0 Let_def end_pad_def)
  show "lan9250_rx jumbo_chip lan0 = None"
    using rx_keeps_fifo_in_step [OF jumbo_chip_ok(1-4) wf_lan0] by (simp add: jumbo_chip_ok)
qed

text \<open>
  C35: A failing bus leaks packets. When \<open>lan9250_rx\<close> reports an error after it has allocated a
  packet, the packet has been neither handed to the network stack nor released, and nobody else
  knows it.
\<close>

theorem rx_error_leaks_packet:
  assumes "byte_order E" "reads_be16 E" "0 < NET_BUF_DATA_SIZE E" "wf s"
    and "lan9250_rx E s = Some (r, t)" "r < 0"
  shows "\<exists>new. trace t = new @ trace s \<and>
    (\<forall>p. Pkt_unref p \<notin> set new \<and> Net_recv p \<notin> set new \<and> Pkt_ref p \<notin> set new)"
proof -
  let ?n = "next_frame E s"
  let ?reads = "[spi_read E LAN9250_RX_STATUS_FIFO, spi_read E LAN9250_RX_FIFO_INF]"
  let ?err = "if NET_ETH_MAX_FRAME E < ?n then [Rx_error] else []"
  let ?h4 = "Pkt_alloc ?n # ?err @ spi_read E LAN9250_RX_DATA_FIFO # ?reads @ trace s"
  let ?s4 = "s\<lparr>trace := ?h4\<rparr>"
  have wf4: "wf ?s4" using assms(4) by (simp add: wf_def)
  define keeps where "keeps e \<longleftrightarrow> (\<forall>p. e \<noteq> Pkt_unref p \<and> e \<noteq> Net_recv p \<and> e \<noteq> Pkt_ref p)" for e
  have front: "list_all keeps (Pkt_alloc ?n # ?err @ spi_read E LAN9250_RX_DATA_FIFO # ?reads)"
    by (simp add: keeps_def spi_read_def)
  have "\<exists>new. trace t = new @ trace s \<and> list_all keeps new"
  proof (cases "\<exists>pkt. rx_store_frame E pkt ?n ?s4 = Some (r, t)")
    case True
    then obtain pkt where store: "rx_store_frame E pkt ?n ?s4 = Some (r, t)" by blast
    obtain new where new: "trace t = new @ trace ?s4" and
      "r < 0 \<longrightarrow> list_all (\<lambda>e. chunk_ev E (Some pkt) e \<or> e = read_buf_ev (end_pad ?n)) new"
      by (rule rx_store_outcome [OF assms(1,2) wf4 store])
    then have new: "trace t = new @ ?h4"
      "list_all (\<lambda>e. chunk_ev E (Some pkt) e \<or> e = read_buf_ev (end_pad ?n)) new"
      using assms(6) by simp_all
    have "list_all keeps new"
      using new(2) by (auto simp: list_all_iff keeps_def chunk_ev_def read_buf_ev_def)
    with new(1) front show ?thesis
      by (intro exI [of _ "new @ Pkt_alloc ?n # ?err @ spi_read E LAN9250_RX_DATA_FIFO # ?reads"]) simp
  next
    case False
    have "rx_drop_frame E ?n ?s4 \<noteq> Some (r, t)"
      using rx_drop_returns [OF wf4 assms(3), of ?n] assms(6) by force
    with False assms(5,6) have "t = s\<lparr>trace := spi_read E LAN9250_RX_FIFO_INF # trace s\<rparr> \<or>
        t = s\<lparr>trace := ?reads @ trace s\<rparr> \<or>
        t = s\<lparr>trace := spi_read E LAN9250_RX_DATA_FIFO # ?reads @ trace s\<rparr>"
      unfolding rx_paths by (auto split: if_splits option.splits)
    then show ?thesis
      by (elim disjE) (auto simp: keeps_def spi_read_def)
  qed
  then show ?thesis unfolding keeps_def list_all_iff by blast
qed

text \<open>The same chip on a bus that fails from the fifth transfer on.\<close>

lemma rx_error_leaks_packet_witness:
  "\<exists>r t new. lan9250_rx (rx_chip\<lparr>spi_ret := \<lambda>h. if length h < 5 then 0 else - EIO\<rparr>) lan0 = Some (r, t) \<and>
     r < 0 \<and> trace t = new \<and> Pkt_alloc 58 \<in> set new \<and> Pkt_unref 1 \<notin> set new \<and> Net_recv 1 \<notin> set new"
proof -
  let ?E = "rx_chip\<lparr>spi_ret := \<lambda>h. if length h < 5 then 0 else - EIO\<rparr>"
  have E: "byte_order ?E" "reads_be16 ?E" "0 < NET_BUF_DATA_SIZE ?E"
    using rx_chip_ok by (simp_all add: byte_order_def reads_be16_def)
  have n: "next_frame ?E lan0 = 58"
    by (simp add: next_frame_def rx_chip_def calm_def spi_read_def LAN9250_RX_FIFO_INF_def
        LAN9250_RX_STATUS_FIFO_def le32_def Let_def reg_bits)
  have max: "NET_ETH_MAX_FRAME rx_chip = 1514" "NET_BUF_DATA_SIZE rx_chip = 128"
    "net_pkt_alloc rx_chip h = Some 1" "pkt_frags rx_chip h = 12" for h
    by (simp_all add: rx_chip_def calm_def)
  define t where "t = lan0\<lparr>trace := read_buf_ev 58 # Pkt_alloc 58 # spi_read ?E LAN9250_RX_DATA_FIFO #
    [spi_read ?E LAN9250_RX_STATUS_FIFO, spi_read ?E LAN9250_RX_FIFO_INF]\<rparr>"
  have run: "lan9250_rx ?E lan0 = Some (- EIO, t)"
    by (simp add: rx_paths n max trace_lan0 rx_store_frame_def then_ok_def fill_loop_pos
        lan9250_read_buf_def act_def EIO_def t_def Let_def)
  have "- EIO < 0" by (simp add: EIO_def)
  from rx_error_leaks_packet [OF E wf_lan0 run this] run this show ?thesis
    by (auto simp: trace_lan0 t_def)
qed

text \<open>
  Every received frame raises the transmit semaphore. The semaphore \<open>tx_rx_sem\<close> starts at one
  and is taken only by \<open>lan9250_tx\<close>; yet each frame that \<open>lan9250_rx\<close> stores gives it once more. So
  after the first received frame it no longer keeps two senders apart.
\<close>

lemma rx_raises_semaphore:
  assumes "byte_order E" "reads_be16 E" "\<forall>h. 0 \<le> spi_ret E h" "0 < NET_BUF_DATA_SIZE E" "wf s"
    and "\<forall>h. net_pkt_alloc E h = Some pkt" "next_frame E s \<noteq> 0" "next_frame E s \<le> rx_room E s"
  shows "\<exists>t new. lan9250_rx E s = Some (0, t) \<and> trace t = new @ trace s \<and> sem_net new = 1 \<and>
    Sem_take Tx_rx_sem \<notin> set new \<and> fifo_output new = []"
proof -
  let ?n = "next_frame E s"
  let ?h4 = "Pkt_alloc ?n # (if NET_ETH_MAX_FRAME E < ?n then [Rx_error] else []) @
    [spi_read E LAN9250_RX_DATA_FIFO, spi_read E LAN9250_RX_STATUS_FIFO,
     spi_read E LAN9250_RX_FIFO_INF] @ trace s"
  let ?s4 = "s\<lparr>trace := ?h4\<rparr>"
  have wf4: "wf ?s4" using assms(5) by (simp add: wf_def)
  have "?n \<le> pkt_frags E ?h4 * NET_BUF_DATA_SIZE E"
    using assms(6,8) unfolding rx_room_def alloc_log_def by (simp split del: if_split)
  then obtain r t where r: "rx_store_frame E pkt ?n ?s4 = Some (r, t)"
    using rx_store_fits [OF assms(2), of ?n ?s4 pkt] assms(7) by (auto split del: if_split)
  obtain new where "trace t = new @ trace ?s4"
    "sem_net new = (if r < 0 then 0 else 1)" "(\<forall>h. 0 \<le> spi_ret E h) \<longrightarrow> r = 0"
    "Sem_take Tx_rx_sem \<notin> set new" "fifo_output new = []"
    by (rule rx_store_outcome [OF assms(1,2) wf4 r])
  with r have t: "rx_store_frame E pkt ?n ?s4 = Some (0, t)" "trace t = new @ ?h4" "sem_net new = 1"
    "Sem_take Tx_rx_sem \<notin> set new" "fifo_output new = []"
    using assms(3) by simp_all
  have "lan9250_rx E s = Some (0, t)"
    using t(1) assms(3,6,7) by (simp add: rx_paths not_less)
  moreover have "sem_step (spi_read E a) = 0" "fifo_written (spi_read E a) = []" "Sem_take Tx_rx_sem \<noteq> spi_read E a" for a
    using read_tally(2,6) [OF assms(1)] by (simp_all add: spi_read_def)
  ultimately show ?thesis using t(2-5)
    by (intro exI [of _ t] exI [of _ "new @ Pkt_alloc ?n # (if NET_ETH_MAX_FRAME E < ?n then [Rx_error] else []) @
      [spi_read E LAN9250_RX_DATA_FIFO, spi_read E LAN9250_RX_STATUS_FIFO, spi_read E LAN9250_RX_FIFO_INF]"]) simp
qed

lemma rx_raises_semaphore_example: "\<exists>t. lan9250_rx rx_chip lan0 = Some (0, t) \<and> sem_net (trace t) = 1"
  using rx_raises_semaphore [OF rx_chip_ok(1-4) wf_lan0 rx_chip_ok(5)]
  by (auto simp: rx_chip_frame rx_chip_room trace_lan0)

section \<open>Sending a frame\<close>

lemma drain_status_returns:
  assumes "byte_order E"
  shows "\<exists>r new. drain_status E n s = Some (r, s\<lparr>trace := new @ trace s\<rparr>) \<and> list_all uncounted new \<and> r \<le> 0"
proof (induction n arbitrary: s)
  case 0
  show ?case by (intro exI [of _ 0] exI [of _ "[]"]) simp
next
  case (Suc n)
  let ?e = "spi_read E LAN9250_TX_STATUS_FIFO" let ?s1 = "act ?e s"
  have e: "uncounted ?e" using spi_read_uncounted [OF assms] by (simp add: dev_eval)
  show ?case
  proof (cases "spi_ret E (trace ?s1) < 0")
    case True
    with e show ?thesis
      by (intro exI [of _ "spi_ret E (trace ?s1)"] exI [of _ "[?e]"])
        (simp add: query_ok_def lan9250_read_sys_reg_def Let_def act_def)
  next
    case False
    obtain r new where IH: "drain_status E n ?s1 = Some (r, ?s1\<lparr>trace := new @ trace ?s1\<rparr>)"
      "list_all uncounted new" "r \<le> 0" using Suc by blast
    with e False show ?thesis
      by (intro exI [of _ r] exI [of _ "new @ [?e]"])
        (simp add: query_ok_def lan9250_read_sys_reg_def Let_def act_def)
  qed
qed

text \<open>Little-endian bytes of a word, as \<open>sys_put_le32\<close> writes them.\<close>

definition le_bytes :: "u32 \<Rightarrow> u8 list" where
  "le_bytes w = [ucast w, ucast (drop_bit 8 w), ucast (drop_bit 16 w), ucast (drop_bit 24 w)]"

lemma write_tally:
  assumes "byte_order E"
  shows "fifo_written (spi_write E LAN9250_TX_DATA_FIFO d) = le_bytes d"
    "sem_step (spi_write E a d) = 0"
  using assms by (simp_all add: spi_write_def byte_order_def le_bytes_def LAN9250_TX_DATA_FIFO_def)

text \<open>Zephyr's \<open>net_pkt_read\<close>, when it succeeds, fills the buffer.\<close>

definition reads_whole :: "lan_env \<Rightarrow> pkt \<Rightarrow> bool" where
  "reads_whole E pkt \<longleftrightarrow> (\<forall>h. fst (net_pkt_read E h) = 0 \<longrightarrow>
     length (snd (net_pkt_read E h)) = net_pkt_len E pkt)"

text \<open>What the network stack answers when a send reads its packet: after the look at the free space, the
  take of the semaphore and the two command words.\<close>

definition frame_read :: "lan_env \<Rightarrow> pkt \<Rightarrow> lan \<Rightarrow> u8 list" where
  "frame_read E pkt s = (let len = net_pkt_len E pkt in snd (net_pkt_read E (Pkt_read pkt len #
     spi_write E LAN9250_TX_DATA_FIFO (LAN9250_TX_CMD_B_PACKET_TAG OR of_nat len) #
     spi_write E LAN9250_TX_DATA_FIFO (LAN9250_TX_CMD_A OR of_nat len) # Sem_take Tx_rx_sem #
     spi_read E LAN9250_TX_FIFO_INF # trace s)))"

text \<open>What a send has added when it returns: a failure before the semaphore, a failure while
  holding it, or success.\<close>

lemma tx_outcome:
  assumes E: "byte_order E" "reads_be16 E"
    and data: "reads_whole E pkt"
  obtains r t new where "lan9250_tx E pkt s = Some (r, t)" "trace t = new @ trace s" "r < 0"
    "sem_net new = (if Sem_take Tx_rx_sem \<in> set new then - 1 else 0)"
  | t new where "lan9250_tx E pkt s = Some (0, t)" "trace t = new @ trace s" "sem_net new = 0"
    "length (frame_read E pkt s) = net_pkt_len E pkt"
    "fifo_output new = le_bytes (LAN9250_TX_CMD_A OR of_nat (net_pkt_len E pkt)) @
       le_bytes (LAN9250_TX_CMD_B_PACKET_TAG OR of_nat (net_pkt_len E pkt)) @
       take (LAN9250_ALIGN (net_pkt_len E pkt))
         (frame_read E pkt s @ drop (net_pkt_len E pkt) (txbuf s) @ after_txbuf E)"
proof -
  let ?len = "net_pkt_len E pkt"
  define e1 where "e1 = spi_read E LAN9250_TX_FIFO_INF"
  define e3 where "e3 = spi_write E LAN9250_TX_DATA_FIFO (LAN9250_TX_CMD_A OR of_nat ?len)"
  define e4 where "e4 = spi_write E LAN9250_TX_DATA_FIFO (LAN9250_TX_CMD_B_PACKET_TAG OR of_nat ?len)"
  define s1 where "s1 = act e1 s"
  define s2 where "s2 = act (Sem_take Tx_rx_sem) s1"
  define s3 where "s3 = act e3 s2"
  define s4 where "s4 = act e4 s3"
  define s5 where "s5 = act (Pkt_read pkt ?len) s4"
  obtain ret bytes where rd: "net_pkt_read E (trace s5) = (ret, bytes)" by fastforce
  have bytes: "frame_read E pkt s = bytes"
    using rd by (simp add: frame_read_def Let_def s5_def s4_def s3_def s2_def s1_def e1_def e3_def e4_def act_def)
  define buf where "buf = take ?len bytes @ drop ?len (txbuf s)"
  define u5 where "u5 = s5\<lparr>txbuf := buf\<rparr>"
  define e6 where "e6 = Spi ([LAN9250_SPI_INSTR_WRITE] @ fifo_instr LAN9250_TX_DATA_FIFO @
    take (LAN9250_ALIGN ?len) (buf @ after_txbuf E)) 0"
  define s6 where "s6 = act e6 u5"
  define n where "n = unat (drop_bit 16 (le32 (spi_rx E (trace s1)) AND LAN9250_TX_FIFO_INF_TXSUSED))"
  note ss = s1_def s2_def s3_def s4_def s5_def
  have bufs: "txbuf s5 = txbuf s" "txbuf s6 = buf" by (simp_all add: ss s6_def u5_def act_def)
  have un1: "uncounted e1" unfolding e1_def using spi_read_uncounted [OF E(1)] by (simp add: dev_eval)
  obtain rs st where st: "drain_status E n s6 = Some (rs, s6\<lparr>trace := st @ trace s6\<rparr>)"
    "list_all uncounted st" "rs \<le> 0"
    using drain_status_returns [OF E(1)] by blast
  let ?s7 = "s6\<lparr>trace := st @ trace s6\<rparr>"
  obtain c where c: "lan9250_1588_tx_timestamp_check E pkt buf ?len ?s7 = Some c"
    using tx_check_runs [OF E(2)] by blast
  obtain ck where ck: "trace c = ck @ trace ?s7" "list_all uncounted ck"
    using tx_check_uncounted [OF E(1) c] by (auto simp: grew_def)
  have tally: "sem_step e1 = 0" "sem_step e3 = 0" "sem_step e4 = 0" "sem_step e6 = 0"
    "fifo_written e1 = []" "fifo_written e3 = le_bytes (LAN9250_TX_CMD_A OR of_nat ?len)"
    "fifo_written e4 = le_bytes (LAN9250_TX_CMD_B_PACKET_TAG OR of_nat ?len)"
    "fifo_written e6 = take (LAN9250_ALIGN ?len) (buf @ after_txbuf E)"
    using un1 write_tally [OF E(1)] unfolding e3_def e4_def e6_def uncounted_def
    by (simp_all add: fifo_instr_def LAN9250_TX_DATA_FIFO_def)
  have take_in: "Sem_take Tx_rx_sem \<noteq> e1" by (simp add: e1_def spi_read_def)
  have steps: "lan9250_read_sys_reg E LAN9250_TX_FIFO_INF s = Some (spi_ret E (trace s1), le32 (spi_rx E (trace s1)), s1)"
    "act_cmd (Sem_take Tx_rx_sem) s1 = Some (0, s2)"
    "lan9250_write_sys_reg E LAN9250_TX_DATA_FIFO (LAN9250_TX_CMD_A OR of_nat ?len) s2
       = Some (spi_ret E (trace s3), s3)"
    "lan9250_write_sys_reg E LAN9250_TX_DATA_FIFO (LAN9250_TX_CMD_B_PACKET_TAG OR of_nat ?len) s3
       = Some (spi_ret E (trace s4), s4)"
    "read_packet E pkt ?len s4 = Some (if ret \<noteq> 0 then (- EIO, s5) else (0, u5))"
    "lan9250_write_buf E (txbuf u5 @ after_txbuf E) (LAN9250_ALIGN ?len) u5 = Some (spi_ret E (trace s6), s6)"
    using rd bufs(1) unfolding read_packet_def Let_def s5_def [symmetric]
    by (simp_all add: lan9250_read_sys_reg_def lan9250_write_sys_reg_def act_cmd_def
        lan9250_write_buf_def Let_def s1_def s2_def s3_def s4_def e1_def e3_def e4_def s6_def e6_def
        u5_def buf_def)
  have run: "lan9250_tx E pkt s =
    (if spi_ret E (trace s1) < 0 then Some (spi_ret E (trace s1), s1)
     else if spi_ret E (trace s3) < 0 then Some (spi_ret E (trace s3), s3)
     else if spi_ret E (trace s4) < 0 then Some (spi_ret E (trace s4), s4)
     else if ret \<noteq> 0 then Some (- EIO, s5)
     else if spi_ret E (trace s6) < 0 then Some (spi_ret E (trace s6), s6)
     else if rs < 0 then Some (rs, ?s7)
     else Some (0, act (Sem_give Tx_rx_sem) c))"
    unfolding lan9250_tx_def Let_def query_ok_def
    using st(1) c by (simp add: steps then_ok_def EIO_def n_def bufs(2))
  let ?pre = "[e6, Pkt_read pkt ?len, e4, e3, Sem_take Tx_rx_sem, e1]"
  have pre: "trace s6 = ?pre @ trace s" by (simp add: s6_def u5_def ss act_def)
  show thesis
  proof (cases "spi_ret E (trace s1) < 0 \<or> spi_ret E (trace s3) < 0 \<or> spi_ret E (trace s4) < 0 \<or> ret \<noteq> 0 \<or>
      spi_ret E (trace s6) < 0 \<or> rs < 0")
    case True
    have held: "\<exists>new. trace h = new @ trace s \<and> Sem_take Tx_rx_sem \<in> set new \<and> sem_net new = - 1"
      if mem: "h \<in> {s3, s4, s5, s6, ?s7}" for h
    proof -
      consider "h = s3" | "h = s4" | "h = s5" | "h = s6" | "h = ?s7" using mem by blast
      then show ?thesis
      proof cases
        case 5
        then show ?thesis using tally(1-4) tally_uncounted(4) [OF st(2)] pre
          by (intro exI [of _ "st @ ?pre"]) simp
      qed (use tally(1-4) pre in \<open>auto simp: ss act_def intro: exI [of _ ?pre] exI [of _ "tl ?pre"]
        exI [of _ "tl (tl ?pre)"] exI [of _ "tl (tl (tl ?pre))"]\<close>)
    qed
    have eio: "- EIO < 0" by (simp add: EIO_def)
    show thesis
    proof (cases "spi_ret E (trace s1) < 0")
      case True
      then show thesis using run take_in tally(1)
        by (intro that(1) [of "spi_ret E (trace s1)" s1 "[e1]"]) (auto simp: s1_def act_def)
    next
      case False
      with True run eio obtain r h where "lan9250_tx E pkt s = Some (r, h)" "r < 0"
        "h \<in> {s3, s4, s5, s6, ?s7}"
        by (auto split: if_splits)
      then show thesis using held that(1) by metis
    qed
  next
    case False
    let ?new = "Sem_give Tx_rx_sem # ck @ st @ ?pre"
    have "length bytes = ?len" using data rd False unfolding reads_whole_def by (metis fst_conv snd_conv)
    moreover have "trace (act (Sem_give Tx_rx_sem) c) = ?new @ trace s"
      using ck(1) pre by (simp add: act_def)
    moreover have "sem_net ?new = 0"
      using tally(1-4) tally_uncounted(4) [OF st(2)] tally_uncounted(4) [OF ck(2)] by simp
    moreover have "fifo_output ?new = le_bytes (LAN9250_TX_CMD_A OR of_nat ?len) @
       le_bytes (LAN9250_TX_CMD_B_PACKET_TAG OR of_nat ?len) @
       take (LAN9250_ALIGN ?len) (bytes @ drop ?len (txbuf s) @ after_txbuf E)"
      using tally(5-8) tally_uncounted(3) [OF st(2)] tally_uncounted(3) [OF ck(2)] \<open>length bytes = ?len\<close>
      by (simp add: buf_def)
    ultimately show thesis using that(2) run False by (simp add: bytes)
  qed
qed

text \<open>
  C36: A failed send keeps the semaphore. When \<open>lan9250_tx\<close> reports an error, it has either not
  reached the semaphore or taken it for good: no error exit gives it back, and unless a received
  frame raises it, the next send waits forever. Only a successful send leaves it as it was.
\<close>

theorem tx_error_keeps_semaphore:
  assumes "byte_order E" "reads_be16 E"
    and "reads_whole E pkt"
  shows "\<exists>r t new. lan9250_tx E pkt s = Some (r, t) \<and> trace t = new @ trace s \<and> r \<le> 0 \<and>
    sem_net new = (if r < 0 \<and> Sem_take Tx_rx_sem \<in> set new then - 1 else 0)"
proof (cases rule: tx_outcome [OF assms, of s])
  case (1 r t new)
  then show ?thesis by (intro exI [of _ r] exI [of _ t] exI [of _ new]) simp
next
  case (2 t new)
  then show ?thesis by (intro exI [of _ 0] exI [of _ t] exI [of _ new]) simp
qed

lemma chip_lengths: "reads_whole calm p"
  by (simp add: reads_whole_def calm_def)

text \<open>A bus that fails on the first write.\<close>

lemma tx_error_keeps_semaphore_witness:
  "\<exists>r t. lan9250_tx (calm\<lparr>spi_ret := \<lambda>h. if length h < 3 then 0 else - EIO\<rparr>) 1 lan0 = Some (r, t) \<and>
     r < 0 \<and> sem_net (trace t) = - 1"
proof -
  let ?E = "calm\<lparr>spi_ret := \<lambda>h. if length h < 3 then 0 else - EIO\<rparr>"
  have E: "byte_order ?E" "reads_be16 ?E"
    using calm_byte_order calm_reads by (simp_all add: byte_order_def reads_be16_def)
  have len: "reads_whole ?E 1" by (simp add: reads_whole_def calm_def)
  have run: "\<exists>t. lan9250_tx ?E 1 lan0 = Some (- EIO, t) \<and> Sem_take Tx_rx_sem \<in> set (trace t)"
    by (simp add: lan9250_tx_def query_ok_def lan9250_read_sys_reg_def act_cmd_def act_def then_ok_def
        lan9250_write_sys_reg_def trace_lan0 EIO_def Let_def)
  from tx_error_keeps_semaphore [OF E len, of lan0] run show ?thesis
    by (auto simp: trace_lan0 EIO_def)
qed

text \<open>
  C30: A successful send queues exactly the frame. When \<open>lan9250_tx\<close> succeeds, the transmit FIFO has
  been given the two command words with the frame's length, then the bytes that \<open>net_pkt_read\<close> delivered
  for the packet, and then up to
  three more to fill the last word, which come from behind the frame: from an older frame, or, for a
  frame that ends less than a word before the end of the buffer, from memory behind the buffer.
\<close>

theorem tx_queues_frame:
  assumes "byte_order E" "reads_be16 E"
    and "reads_whole E pkt"
    and "lan9250_tx E pkt s = Some (0, t)"
  shows "length (frame_read E pkt s) = net_pkt_len E pkt \<and>
    fifo_output (trace t) = fifo_output (trace s) @
      le_bytes (LAN9250_TX_CMD_A OR of_nat (net_pkt_len E pkt)) @
      le_bytes (LAN9250_TX_CMD_B_PACKET_TAG OR of_nat (net_pkt_len E pkt)) @ frame_read E pkt s @
      take (LAN9250_ALIGN (net_pkt_len E pkt) - net_pkt_len E pkt)
        (drop (net_pkt_len E pkt) (txbuf s) @ after_txbuf E)"
proof (cases rule: tx_outcome [OF assms(1-3), of s])
  case (1 r u new)
  with assms(4) show ?thesis by simp
next
  case (2 u new)
  have "net_pkt_len E pkt \<le> LAN9250_ALIGN (net_pkt_len E pkt)"
    unfolding LAN9250_ALIGN_def by linarith
  with 2 assms(4) show ?thesis by simp
qed

text \<open>A calm chip, and a packet of the sixty bytes from 0 to 59.\<close>

definition tx_chip :: lan_env where
  "tx_chip = calm\<lparr>net_pkt_read := \<lambda>h. (0, map of_nat [0..<60])\<rparr>"

lemma tx_chip_ok: "byte_order tx_chip" "reads_be16 tx_chip" "reads_whole tx_chip 1"
  using calm_byte_order calm_reads
  by (simp_all add: tx_chip_def byte_order_def reads_be16_def) (simp add: reads_whole_def calm_def)

lemma tx_chip_sends: "\<exists>t. lan9250_tx tx_chip 1 lan0 = Some (0, t)"
proof -
  have c: "\<exists>c. lan9250_1588_tx_timestamp_check tx_chip 1 f n s = Some c" for f n s
    using tx_check_runs [OF tx_chip_ok(2), of 1 f n s] by blast
  have ret: "spi_ret tx_chip h = 0" "le32 (spi_rx tx_chip h) = 0" "net_pkt_read tx_chip h = (0, map of_nat [0..<60])" for h
    by (simp_all add: tx_chip_def calm_def le32_def)
  show ?thesis
    by (simp add: lan9250_tx_def query_ok_def lan9250_read_sys_reg_def lan9250_write_sys_reg_def
        act_cmd_def then_ok_def read_packet_def lan9250_write_buf_def ret c [simplified] Let_def
        bind_eq_Some_conv del: upt_Suc)
qed

lemma tx_queues_frame_witness:
  "\<exists>t. lan9250_tx tx_chip 1 lan0 = Some (0, t) \<and>
     fifo_output (trace t) = [60, 0x30, 0, 0x80, 60, 0, 0xFF, 0xFF] @ map of_nat [0..<60]"
proof -
  obtain t where t: "lan9250_tx tx_chip 1 lan0 = Some (0, t)" using tx_chip_sends by blast
  have len: "net_pkt_len tx_chip 1 = 60" "LAN9250_ALIGN 60 = 60"
    by (simp_all add: tx_chip_def calm_def LAN9250_ALIGN_def)
  have words: "le_bytes (LAN9250_TX_CMD_A OR of_nat 60) = [60, 0x30, 0, 0x80]"
    "le_bytes (LAN9250_TX_CMD_B_PACKET_TAG OR of_nat 60) = [60, 0, 0xFF, 0xFF]"
    by (simp_all add: le_bytes_def dev_eval)
  have "frame_read tx_chip 1 lan0 = map of_nat [0..<60]"
    by (simp add: frame_read_def tx_chip_def Let_def del: upt_Suc)
  then have "fifo_output (trace t) = fifo_output (trace lan0) @
      le_bytes (LAN9250_TX_CMD_A OR of_nat 60) @ le_bytes (LAN9250_TX_CMD_B_PACKET_TAG OR of_nat 60) @
      map of_nat [0..<60] @ take (60 - 60) (drop 60 (txbuf lan0) @ after_txbuf tx_chip)"
    using tx_queues_frame [OF tx_chip_ok t] unfolding len by (simp only:)
  then show ?thesis using t unfolding words by (simp add: trace_lan0 del: upt_Suc)
qed

section \<open>The thread\<close>

lemma link_event_returns:
  assumes "clock_runs E" "byte_order E" "wf s"
  obtains v t where "link_event E tmp s = Some (v, t)" "wf t" "grew (\<lambda>_. True) s t"
proof -
  have read: "\<exists>r v t. lan9250_read_phy_reg E a s = Some (r, v, t) \<and> extends (\<lambda>_. True) s t" for a s
    using returns_read_phy [OF assms(1), of a] emits_read_phy [of E "\<lambda>_. True" a]
    unfolding returns_q_def emits_q_def indirect_ok_def by blast
  obtain r v s1 where 1: "lan9250_read_phy_reg E LAN9250_PHY_INTERRUPT_SOURCE s = Some (r, v, s1)"
    "extends (\<lambda>_. True) s s1" using read by blast
  obtain r2 v2 s2 where 2: "lan9250_read_phy_reg E LAN9250_PHY_SPECIAL_CONTROL_STATUS s1 = Some (r2, v2, s2)"
    "extends (\<lambda>_. True) s1 s2" using read by blast
  obtain r3 v3 s3 where 3: "lan9250_read_phy_reg E LAN9250_PHY_SPECIAL_CONTROL_STAT_IND s2 = Some (r3, v3, s3)"
    "extends (\<lambda>_. True) s2 s3" using read by blast
  let ?tmp = "if r < 0 then tmp else v"
  let ?t = "if ?tmp AND LAN9250_PHY_INTERRUPT_SOURCE_LINK_UP \<noteq> 0 then act (Carrier True) s3
      else if ?tmp AND LAN9250_PHY_INTERRUPT_SOURCE_LINK_DOWN \<noteq> 0 then act (Carrier False) s1 else s1"
  have run: "link_event E tmp s = Some (?tmp, ?t)"
    using 1(1) 2(1) 3(1) by (simp add: link_event_def Let_def)
  have ext: "extends (\<lambda>_. True) s s1" "extends (\<lambda>_. True) s s3"
    by (rule 1(2), rule extends_trans [OF 1(2) extends_trans [OF 2(2) 3(2)]])
  have "extends (\<lambda>_. True) s (act e s1)" "extends (\<lambda>_. True) s (act e s3)" for e
    by (rule extends_trans [OF ext(1) extends_act], simp, rule extends_trans [OF ext(2) extends_act], simp)
  with ext have "extends (\<lambda>_. True) s ?t" by simp
  then show thesis using that [OF run] wf_extends assms(3) grew_extends by blast
qed

lemma thread_turn_runs:
  assumes "clock_runs E" "byte_order E" "reads_be16 E" "0 < NET_BUF_DATA_SIZE E" "wf s"
    and fits: "\<And>u. next_frame E u \<le> rx_room E u"
  shows "\<exists>v t mid. lan9250_thread_turn E vars s = Some (v, t) \<and> wf t \<and>
    (let h = spi_read E LAN9250_INT_EN # Sem_take Int_sem # trace s;
         ier = (if spi_ret E h < 0 then var_ier vars else le32 (spi_rx E h))
     in var_ier v = ier \<and>
        trace t = spi_write E LAN9250_INT_EN ier # mid @ spi_write E LAN9250_INT_EN 0 # h)"
proof -
  let ?tmp = "var_tmp vars"
  let ?h = "spi_read E LAN9250_INT_EN # Sem_take Int_sem # trace s"
  let ?s3 = "s\<lparr>trace := spi_write E LAN9250_INT_EN 0 # ?h\<rparr>"
  let ?s4 = "act (spi_read E LAN9250_INT_STS) ?s3"
  let ?sts = "if spi_ret E (trace ?s4) < 0 then var_int_sts vars else le32 (spi_rx E (trace ?s4))"
  let ?ier = "if spi_ret E ?h < 0 then var_ier vars else le32 (spi_rx E ?h)"
  have wf4: "wf ?s4" using assms(5) by (simp add: wf_def act_def)
  have "\<exists>v t. (if ?sts AND LAN9250_INT_STS_PHY_INT \<noteq> 0 then link_event E ?tmp ?s4 else Some (?tmp, ?s4)) = Some (v, t) \<and>
      wf t \<and> grew (\<lambda>_. True) ?s4 t"
  proof (cases "?sts AND LAN9250_INT_STS_PHY_INT \<noteq> 0")
    case True
    then show ?thesis using link_event_returns [OF assms(1,2) wf4, of ?tmp] by (simp only: if_True) metis
  next
    case False
    then show ?thesis using wf4 by (auto intro: grew_same)
  qed
  then obtain v s5 where
    5: "(if ?sts AND LAN9250_INT_STS_PHY_INT \<noteq> 0 then link_event E ?tmp ?s4 else Some (?tmp, ?s4)) = Some (v, s5)"
      "wf s5" "grew (\<lambda>_. True) ?s4 s5" by blast
  let ?a = "act (spi_write E LAN9250_INT_STS LAN9250_INT_STS_RSFL) s5"
  have wfa: "wf ?a" using 5(2) by simp
  obtain r b where b: "lan9250_rx E ?a = Some (r, b)" "wf b" "grew (\<lambda>_. True) ?a b"
    by (rule rx_returns [OF assms(2,3) wfa assms(4) fits])
  let ?s6 = "if ?sts AND LAN9250_INT_STS_RSFL \<noteq> 0 then b else s5"
  have "grew (\<lambda>_. True) s5 ?a" by (auto simp: grew_def act_def)
  then have "grew (\<lambda>_. True) s5 b" using b(3) by (rule grew_trans)
  with 5(3) have "grew (\<lambda>_. True) ?s4 b" by (rule grew_trans)
  with 5(3) have "grew (\<lambda>_. True) ?s4 ?s6" by simp
  then obtain new where new: "trace ?s6 = new @ trace ?s4" by (auto simp: grew_def)
  let ?t = "act (spi_write E LAN9250_INT_EN ?ier) ?s6"
  have "lan9250_thread_turn E vars s = Some (\<lparr>var_int_sts = ?sts, var_tmp = v, var_ier = ?ier\<rparr>, ?t)"
    using 5(1) b(1)
    by (cases "?sts AND LAN9250_INT_STS_RSFL = 0") (simp_all add: lan9250_thread_turn_def lan9250_read_sys_reg_def
        lan9250_write_sys_reg_def Let_def act_def split del: if_split cong: if_cong)
  moreover have "wf ?t" using 5(2) b(2) by simp
  moreover have "trace ?t = spi_write E LAN9250_INT_EN ?ier #
      (new @ [spi_read E LAN9250_INT_STS]) @ spi_write E LAN9250_INT_EN 0 # ?h"
    using new by (simp add: act_def split del: if_split)
  ultimately show ?thesis unfolding Let_def
    by (intro exI [of _ "\<lparr>var_int_sts = ?sts, var_tmp = v, var_ier = ?ier\<rparr>"] exI [of _ ?t]
      exI [of _ "new @ [spi_read E LAN9250_INT_STS]"]) (simp split del: if_split)
qed

text \<open>
  C21: The thread always opens the interrupts again. If the clock runs, the chip announces no frame
  longer than \<open>NET_ETH_MAX_FRAME_SIZE\<close> and the packets allocated for frames up to that length have the
  buffers for them, then every turn of \<open>lan9250_thread\<close> that is woken ends, whichever transfers fail;
  interrupts are shut before anything is looked at, and the last thing a turn does is to write back the
  interrupt enables it read first. If that read fails, which the code does not look at, it writes back
  what it read in an earlier turn, or in the first turn an uninitialised variable.
\<close>

theorem thread_reopens_interrupts:
  assumes "clock_runs E" "byte_order E" "reads_be16 E" "0 < NET_BUF_DATA_SIZE E" "wf s"
    and "buffers_for E" "\<forall>u. next_frame E u \<le> NET_ETH_MAX_FRAME E"
  shows "\<exists>v t mid. lan9250_thread_turn E vars s = Some (v, t) \<and> wf t \<and>
    (let h = spi_read E LAN9250_INT_EN # Sem_take Int_sem # trace s;
         ier = (if spi_ret E h < 0 then var_ier vars else le32 (spi_rx E h))
     in var_ier v = ier \<and>
        trace t = spi_write E LAN9250_INT_EN ier # mid @ spi_write E LAN9250_INT_EN 0 # h)"
  using assms by (intro thread_turn_runs buffers_room) simp_all

definition first_locals :: thread_locals where
  "first_locals = \<lparr>var_int_sts = 0, var_tmp = 0, var_ier = 0\<rparr>"

lemma thread_reopens_interrupts_witness:
  "\<exists>v t mid. lan9250_thread_turn rx_chip first_locals lan0 = Some (v, t) \<and>
     trace t = spi_write rx_chip LAN9250_INT_EN 0 # mid"
proof -
  have "clock_runs rx_chip" by (simp add: rx_chip_def calm_def clock_runs_def)
  moreover have "\<forall>u. next_frame rx_chip u \<le> NET_ETH_MAX_FRAME rx_chip" "\<not> spi_ret rx_chip h < 0" for h
    by (simp_all add: rx_chip_frame) (simp_all add: rx_chip_def calm_def)
  ultimately obtain v t mid where t: "lan9250_thread_turn rx_chip first_locals lan0 = Some (v, t)"
    "trace t = spi_write rx_chip LAN9250_INT_EN
      (le32 (spi_rx rx_chip (spi_read rx_chip LAN9250_INT_EN # Sem_take Int_sem # trace lan0))) # mid"
    using thread_reopens_interrupts [OF _ rx_chip_ok(1,2,4) wf_lan0 rx_chip_room(1), of first_locals]
    by (auto simp: Let_def)
  moreover have "le32 (spi_rx rx_chip (spi_read rx_chip LAN9250_INT_EN # h)) = 0" for h
    by (simp add: rx_chip_def calm_def spi_read_def LAN9250_INT_EN_def le32_def)
  ultimately show ?thesis by auto
qed

end
