(* ===== verification/Lan_Filter.thy ===== *)
theory Lan_Filter
  imports Lan_Config "HOL-Library.Multiset"
begin

text \<open>
  Run-time configuration of the LAN9250 (\<open>lan9250_set_config\<close> in
  \<open>drivers/eth_lan9250/eth_lan9250.c\<close>): the station address, promiscuous mode, and the multicast
  hash filter with its reference count per bit. The abstract state of the filter is the multiset
  of joined groups.
\<close>

section \<open>The hash\<close>

fun crc_bits :: "nat \<Rightarrow> u8 \<Rightarrow> u32 \<Rightarrow> u32" where
  "crc_bits 0 data crc = crc"
| "crc_bits (Suc n) data crc = crc_bits n (drop_bit 1 data)
     (drop_bit 1 crc XOR (if (crc XOR ucast data) AND 1 \<noteq> 0 then 0xEDB88320 else 0))"

definition lan9250_ether_crc :: "u8 list \<Rightarrow> u32" where
  "lan9250_ether_crc addr = fold (crc_bits 8) (take 6 addr) 0xFFFFFFFF"

definition lan9250_mcast_hash_bit :: "u8 list \<Rightarrow> u8" where
  "lan9250_mcast_hash_bit addr = ucast (drop_bit 26 (lan9250_ether_crc addr))"

section \<open>The hash registers\<close>

definition hash_step :: "u8 list \<Rightarrow> nat \<Rightarrow> u32 \<times> u32 \<Rightarrow> u32 \<times> u32" where
  "hash_step refcount b = (\<lambda>(hashh, hashl).
     if refcount ! b = 0 then (hashh, hashl)
     else if b < 32 then (hashh, hashl OR BIT b)
     else (hashh OR BIT (b - 32), hashl))"

definition mcast_hash_words :: "u8 list \<Rightarrow> u32 \<times> u32" where
  "mcast_hash_words refcount = fold (hash_step refcount) [0..<64] (0, 0)"

definition lan9250_mcast_hash_write :: "lan_env \<Rightarrow> lan cmd" where
  "lan9250_mcast_hash_write E s =
    (let (hashh, hashl) = mcast_hash_words (mcast_hash_refcount s)
     in run_cmds
       [lan9250_write_mac_reg E LAN9250_HMAC_HASHL hashl,
        lan9250_write_mac_reg E LAN9250_HMAC_HASHH hashh] s)"

section \<open>lan9250_set_config\<close>

datatype ethernet_config =
    Mac_address "u8 list"
  | Promisc_mode bool
  | Filter bool "u8 list" bool          \<comment> \<open>on the destination? the address, and set or clear\<close>
  | Other_config

definition LAN9250_HMAC_CR_MCPAS :: u32 where [dev_eval]: "LAN9250_HMAC_CR_MCPAS = BIT 19"
definition LAN9250_HMAC_CR_PRMS :: u32 where [dev_eval]: "LAN9250_HMAC_CR_PRMS = BIT 18"
definition LAN9250_HMAC_CR_HO :: u32 where [dev_eval]: "LAN9250_HMAC_CR_HO = BIT 15"

definition promisc_on :: "u32 \<Rightarrow> u32" where
  "promisc_on reg = ((reg AND NOT LAN9250_HMAC_CR_MCPAS) OR LAN9250_HMAC_CR_PRMS)
     AND NOT LAN9250_HMAC_CR_HO"

definition promisc_off :: "u32 \<Rightarrow> u32" where
  "promisc_off reg = (((reg AND NOT LAN9250_HMAC_CR_MCPAS) OR LAN9250_HMAC_CR_HPFILT)
     AND NOT LAN9250_HMAC_CR_PRMS) AND NOT LAN9250_HMAC_CR_HO"

definition set_promisc :: "lan_env \<Rightarrow> bool \<Rightarrow> lan cmd" where
  "set_promisc E on = query_ok (lan9250_read_mac_reg E LAN9250_HMAC_CR) (\<lambda>reg s.
     if on
     then if reg AND LAN9250_HMAC_CR_PRMS \<noteq> 0 then Some (- EALREADY, s)
          else lan9250_write_mac_reg E LAN9250_HMAC_CR (promisc_on reg) s
     else if reg AND LAN9250_HMAC_CR_PRMS = 0 then Some (- EALREADY, s)
          else lan9250_write_mac_reg E LAN9250_HMAC_CR (promisc_off reg) s)"

definition count_group :: "u8 list \<Rightarrow> bool \<Rightarrow> lan \<Rightarrow> lan" where
  "count_group addr on s =
    (let b = unat (lan9250_mcast_hash_bit addr); n = mcast_hash_refcount s ! b
     in s\<lparr>mcast_hash_refcount := store (mcast_hash_refcount s) b
       (if on then n + 1 else if 0 < n then n - 1 else n)\<rparr>)"

fun lan9250_set_config :: "lan_env \<Rightarrow> ethernet_config \<Rightarrow> lan cmd" where
  "lan9250_set_config E (Mac_address addr) s =
     do { (ret, s1) \<leftarrow> lan9250_set_macaddr E (s\<lparr>mac_address := take 6 addr\<rparr>);
          Some (if ret < 0 then ret else 0, s1) }"
| "lan9250_set_config E (Promisc_mode on) s =
     (if PROMISCUOUS_MODE E then set_promisc E on s else Some (- ENOTSUP, s))"
| "lan9250_set_config E (Filter dst addr on) s =
     (if \<not> dst then Some (- ENOTSUP, s)
      else if addr ! 0 AND 1 = 0 then Some (- ENOTSUP, s)
      else locked Hash_lock (\<lambda>s. lan9250_mcast_hash_write E (count_group addr on s)) s)"
| "lan9250_set_config E Other_config s = Some (- ENOTSUP, s)"

datatype hw_cap = LINK_10BASE | LINK_100BASE | PTP | HW_FILTERING | PROMISC_MODE

definition lan9250_get_capabilities :: "lan_env \<Rightarrow> hw_cap set" where
  "lan9250_get_capabilities E = {LINK_10BASE, LINK_100BASE, PTP, HW_FILTERING} \<union>
     (if PROMISCUOUS_MODE E then {PROMISC_MODE} else {})"

section \<open>The registers show which counts are not zero\<close>

lemma fold_hash_step:
  assumes "k \<le> 64"
  shows "case fold (hash_step refs) [0..<k] (0, 0) of (hashh, hashl) \<Rightarrow>
    (\<forall>n. bit hashl n \<longleftrightarrow> n < 32 \<and> n < k \<and> refs ! n \<noteq> 0) \<and>
    (\<forall>n. bit hashh n \<longleftrightarrow> n < 32 \<and> n + 32 < k \<and> refs ! (n + 32) \<noteq> 0)"
  using assms
proof (induction k)
  case (Suc k)
  obtain hashh hashl where f: "fold (hash_step refs) [0..<k] (0, 0) = (hashh, hashl)"
    by fastforce
  with Suc have b: "bit hashl n \<longleftrightarrow> n < 32 \<and> n < k \<and> refs ! n \<noteq> 0"
    "bit hashh n \<longleftrightarrow> n < 32 \<and> n + 32 < k \<and> refs ! (n + 32) \<noteq> 0" for n by auto
  have k: "n + 32 < Suc k \<longleftrightarrow> n + 32 < k \<or> 32 \<le> k \<and> n = k - 32" for n by auto
  have step: "fold (hash_step refs) [0..<Suc k] (0, 0) = hash_step refs k (hashh, hashl)"
    by (simp add: f)
  show ?case
    unfolding step using Suc.prems
    by (auto simp: hash_step_def bit_or_iff bit_BIT b k less_Suc_eq)
qed simp

lemma mcast_hash_words_bits:
  assumes "mcast_hash_words refs = (hashh, hashl)"
  shows "bit hashl n \<longleftrightarrow> n < 32 \<and> refs ! n \<noteq> 0"
    "bit hashh n \<longleftrightarrow> n < 32 \<and> refs ! (n + 32) \<noteq> 0"
proof -
  have f: "fold (hash_step refs) [0..<64] (0, 0) = (hashh, hashl)"
    using assms unfolding mcast_hash_words_def .
  have b: "(\<forall>n. bit hashl n \<longleftrightarrow> n < 32 \<and> n < 64 \<and> refs ! n \<noteq> 0) \<and>
      (\<forall>n. bit hashh n \<longleftrightarrow> n < 32 \<and> n + 32 < 64 \<and> refs ! (n + 32) \<noteq> 0)"
    using fold_hash_step [of 64 refs, OF order.refl] unfolding f prod.case .
  have lt: "n < 64" "n + 32 < 64" if "n < 32" using that by simp_all
  show "bit hashl n \<longleftrightarrow> n < 32 \<and> refs ! n \<noteq> 0" using conjunct1 [OF b] lt by blast
  show "bit hashh n \<longleftrightarrow> n < 32 \<and> refs ! (n + 32) \<noteq> 0" using conjunct2 [OF b] lt by blast
qed

lemma hash_bit_less: "unat (lan9250_mcast_hash_bit addr) < 64"
proof -
  let ?c = "lan9250_ether_crc addr"
  have "unat (drop_bit 26 ?c) = unat ?c div 2 ^ 26" by (simp add: unat_drop_bit_eq) (simp add: drop_bit_eq_div)
  moreover have "unat ?c < 2 ^ 32" using unsigned_less [of ?c] by simp
  ultimately have "unat (drop_bit 26 ?c) < 64" by simp
  then have "take_bit 8 (unat (drop_bit 26 ?c)) < 64"
    using take_bit_nat_less_eq_self le_less_trans by blast
  then show ?thesis by (simp add: lan9250_mcast_hash_bit_def unsigned_ucast_eq)
qed

section \<open>The table tracks the joined groups\<close>

abbreviation hash :: "u8 list \<Rightarrow> nat" where
  "hash g \<equiv> unat (lan9250_mcast_hash_bit g)"

text \<open>The number of joined groups that share a bit of the table.\<close>

definition sharing :: "u8 list multiset \<Rightarrow> nat \<Rightarrow> nat" where
  "sharing J b = size (filter_mset (\<lambda>g. hash g = b) J)"

definition tracks :: "u8 list multiset \<Rightarrow> lan \<Rightarrow> bool" where
  "tracks J s \<longleftrightarrow> length (mcast_hash_refcount s) = 64 \<and>
     (\<forall>b<64. unat (mcast_hash_refcount s ! b) = sharing J b)"

fun joined :: "bool \<Rightarrow> u8 list \<Rightarrow> u8 list multiset \<Rightarrow> u8 list multiset" where
  "joined True g J = add_mset g J"
| "joined False g J = J - {#g#}"

lemma sharing_pos: "0 < sharing J b \<longleftrightarrow> (\<exists>g. g \<in># J \<and> hash g = b)"
  by (auto simp: sharing_def nonempty_has_size [symmetric])

lemma sharing_joined:
  "sharing (add_mset g J) b = (if b = hash g then sharing J b + 1 else sharing J b)"
  "g \<in># J \<Longrightarrow> sharing (J - {#g#}) b = (if b = hash g then sharing J b - 1 else sharing J b)"
proof -
  show "sharing (add_mset g J) b = (if b = hash g then sharing J b + 1 else sharing J b)"
    by (simp add: sharing_def)
  assume "g \<in># J"
  then obtain K where "J = add_mset g K" by (rule mset_add)
  then show "sharing (J - {#g#}) b = (if b = hash g then sharing J b - 1 else sharing J b)"
    by (simp add: sharing_def)
qed

lemma count_group_tracks:
  assumes J: "tracks J s" and room: "\<And>b. sharing J b < 255" and known: "on \<or> g \<in># J"
  shows "tracks (joined on g J) (count_group g on s)"
proof -
  let ?b = "hash g" and ?refs = "mcast_hash_refcount s"
  have l: "length ?refs = 64" and n: "unat (?refs ! b) = sharing J b" if "b < 64" for b
    using J that by (auto simp: tracks_def)
  have b: "?b < 64" by (rule hash_bit_less)
  have up: "unat (?refs ! ?b + 1) = sharing J ?b + 1"
    using n [OF b] room [of ?b] by (simp add: unat_plus_if_size word_size)
  show ?thesis
  proof (cases on)
    case True
    then show ?thesis using n [OF b] b n up l [OF b]
      by (auto simp: tracks_def count_group_def Let_def sharing_joined(1) nth_list_update)
  next
    case False
    with known have g: "g \<in># J" by simp
    then have pos: "0 < sharing J ?b" by (auto simp: sharing_pos)
    then have nz: "0 < ?refs ! ?b" using n [OF b] by (simp add: word_less_nat_alt)
    then have "unat (?refs ! ?b - 1) = sharing J ?b - 1"
      using n [OF b] pos by (simp add: unat_minus_one)
    then show ?thesis using False b n nz l [OF b]
      by (auto simp: tracks_def count_group_def Let_def sharing_joined(2) [OF g] nth_list_update)
  qed
qed

text \<open>The driver, called for a sequence of joins and leaves; results of all but the last call
  are ignored, as the network stack does.\<close>

fun filter_calls :: "lan_env \<Rightarrow> (bool \<times> u8 list) list \<Rightarrow> lan \<Rightarrow> (int \<times> lan) option" where
  "filter_calls E [] s = Some (0, s)"
| "filter_calls E [(on, g)] s = lan9250_set_config E (Filter True g on) s"
| "filter_calls E ((on, g) # c # calls) s =
     do { (ret, s1) \<leftarrow> lan9250_set_config E (Filter True g on) s; filter_calls E (c # calls) s1 }"

fun groups :: "(bool \<times> u8 list) list \<Rightarrow> u8 list multiset \<Rightarrow> u8 list multiset" where
  "groups [] J = J"
| "groups ((on, g) # calls) J = groups calls (joined on g J)"

text \<open>Multicast addresses only, no leave without its join, and fewer than 256 joined groups to a
  bit of the table.\<close>

fun orderly :: "u8 list multiset \<Rightarrow> (bool \<times> u8 list) list \<Rightarrow> bool" where
  "orderly J [] \<longleftrightarrow> True"
| "orderly J ((on, g) # calls) \<longleftrightarrow> g ! 0 AND 1 \<noteq> 0 \<and> (on \<or> g \<in># J) \<and> size J < 255 \<and>
     orderly (joined on g J) calls"

lemma sharing_size: "sharing J b \<le> size J"
  by (simp add: sharing_def size_filter_mset_lesseq)

text \<open>Whether the bit the driver assigns to a group is set in the words it writes. This says what the
  driver has listed, not what the chip lets through: the chip takes its index from its own CRC.\<close>

definition bit_listed :: "u32 \<Rightarrow> u32 \<Rightarrow> u8 list \<Rightarrow> bool" where
  "bit_listed hashh hashl g \<longleftrightarrow>
     (if hash g < 32 then bit hashl (hash g) else bit hashh (hash g - 32))"

lemma adds_set_macs:
  "byte_order E \<Longrightarrow> puts (run_cmds [lan9250_write_mac_reg E a c, lan9250_write_mac_reg E b d])
     (mac_writes a c @ mac_writes b d)"
  using puts_run [of "[lan9250_write_mac_reg E a c, lan9250_write_mac_reg E b d]"
      "[mac_writes a c, mac_writes b d]"] puts_write_mac by simp

lemma hash_write_keeps:
  assumes "lan9250_mcast_hash_write E s = Some (r, t)"
  shows "mcast_hash_refcount t = mcast_hash_refcount s"
proof -
  have "emits (\<lambda>_. True) (lan9250_write_mac_reg E a d)" for a d
    by (rule emits_write_mac) (simp add: indirect_ok_def)
  then have "emits (\<lambda>_. True) (run_cmds [lan9250_write_mac_reg E a c, lan9250_write_mac_reg E b d])"
    for a b c d by (intro emits_run) simp
  then have "extends (\<lambda>_. True) s t"
    using assms unfolding emits_def lan9250_mcast_hash_write_def by (auto split: prod.splits)
  then show ?thesis by (rule extends_fields)
qed

lemma filter_call:
  assumes E: "byte_order E" and J: "tracks J s" and ok: "orderly J [(on, g)]"
    and call: "lan9250_set_config E (Filter True g on) s = Some (r, t)"
  shows "tracks (joined on g J) t"
    "0 \<le> r \<Longrightarrow> \<exists>hashh hashl. mcast_hash_words (mcast_hash_refcount t) = (hashh, hashl) \<and>
       writes (trace t) = writes (trace s) @
         mac_writes LAN9250_HMAC_HASHL hashl @ mac_writes LAN9250_HMAC_HASHH hashh"
proof -
  let ?s = "count_group g on (act (Lock Hash_lock) s)"
  obtain u where u: "lan9250_mcast_hash_write E ?s = Some (r, u)" "t = act (Unlock Hash_lock) u"
    using call ok by (auto simp: locked_def bind_eq_Some_conv)
  have "tracks J (act (Lock Hash_lock) s)" using J by (simp add: tracks_def act_def)
  moreover have "sharing J b < 255" for b
    using sharing_size [of J b] ok by simp
  ultimately have "tracks (joined on g J) ?s" using ok by (intro count_group_tracks) auto
  with u hash_write_keeps [OF u(1)] show "tracks (joined on g J) t"
    by (simp add: tracks_def act_def)
  obtain hashh hashl where w: "mcast_hash_words (mcast_hash_refcount ?s) = (hashh, hashl)"
    by fastforce
  assume "0 \<le> r"
  have t: "trace t = Unlock Hash_lock # trace u" "mcast_hash_refcount t = mcast_hash_refcount ?s"
    using u(2) hash_write_keeps [OF u(1)] by (simp_all add: act_def)
  have "writes (trace u) = writes (trace ?s) @
      mac_writes LAN9250_HMAC_HASHL hashl @ mac_writes LAN9250_HMAC_HASHH hashh"
    using adds_set_macs [OF E] u(1) \<open>0 \<le> r\<close>
    unfolding puts_def lan9250_mcast_hash_write_def w by auto
  then show "\<exists>hashh hashl. mcast_hash_words (mcast_hash_refcount t) = (hashh, hashl) \<and>
       writes (trace t) = writes (trace s) @
         mac_writes LAN9250_HMAC_HASHL hashl @ mac_writes LAN9250_HMAC_HASHH hashh"
    unfolding t(2) w t(1) by (simp add: writes_Cons listed_def count_group_def act_def Let_def)
qed

lemma filter_calls_track:
  assumes "byte_order E" "tracks J s" "orderly J calls" "filter_calls E calls s = Some (r, t)"
    "calls \<noteq> []"
  shows "tracks (groups calls J) t \<and> (0 \<le> r \<longrightarrow>
    (\<exists>before hashh hashl. mcast_hash_words (mcast_hash_refcount t) = (hashh, hashl) \<and>
       writes (trace t) = before @
         mac_writes LAN9250_HMAC_HASHL hashl @ mac_writes LAN9250_HMAC_HASHH hashh))"
  using assms
proof (induction E calls s arbitrary: J rule: filter_calls.induct)
  case (2 E on g s)
  have "orderly J [(on, g)]" "lan9250_set_config E (Filter True g on) s = Some (r, t)"
    using 2 by (simp_all del: lan9250_set_config.simps)
  from filter_call [OF 2(1,2) this] show ?case by fastforce
next
  case (3 E on g c calls s)
  obtain q u where q: "lan9250_set_config E (Filter True g on) s = Some (q, u)"
    "filter_calls E (c # calls) u = Some (r, t)"
    using 3(5) by (auto simp: bind_eq_Some_conv simp del: lan9250_set_config.simps)
  have o: "orderly J [(on, g)]" "orderly (joined on g J) (c # calls)"
    using 3(4) by simp_all
  have "tracks (joined on g J) u" using filter_call(1) [OF 3(2,3) o(1) q(1)] .
  with 3(1) [OF q(1) refl 3(2) this o(2) q(2)] show ?case by simp
qed simp

section \<open>The CRC and its bit order\<close>

text \<open>The CRC as Ethernet states it, most significant bit first: this is the register an
  Ethernet MAC has, and the value of Linux's \<open>ether_crc\<close>.\<close>

fun msb_bits :: "nat \<Rightarrow> u8 \<Rightarrow> u32 \<Rightarrow> u32" where
  "msb_bits 0 data crc = crc"
| "msb_bits (Suc n) data crc = msb_bits n (drop_bit 1 data)
     (push_bit 1 crc XOR (if bit crc 31 \<noteq> bit data 0 then 0x04C11DB7 else 0))"

definition msb_crc :: "u8 list \<Rightarrow> u32" where
  "msb_crc addr = fold (msb_bits 8) (take 6 addr) 0xFFFFFFFF"

definition mirrors :: "u32 \<Rightarrow> u32 \<Rightarrow> bool" where
  "mirrors c d \<longleftrightarrow> (\<forall>n<32. bit c n = bit d (31 - n))"

lemma all_less32: "(\<forall>n<32. P n) \<longleftrightarrow> (\<forall>n\<in>set [0..<32]. P n)"
  by auto

lemma poly_mirrors: "mirrors 0xEDB88320 0x04C11DB7"
  unfolding mirrors_def all_less32 by (simp add: upt_rec bit_numeral_rec bit_simps)

lemma mirrors_shift: "mirrors c d \<Longrightarrow> mirrors (drop_bit 1 c) (push_bit 1 d)"
proof -
  assume m: "mirrors c d"
  have "bit (drop_bit 1 c) n = bit (push_bit 1 d) (31 - n)" if "n < 32" for n
  proof (cases "n = 31")
    case True
    have "\<not> bit c 32" using bit_imp_le_length [of c 32] by auto
    moreover have "\<not> bit (push_bit 1 d) 0" by (simp only: bit_push_bit_iff) simp
    ultimately show ?thesis using True by (simp add: bit_drop_bit_eq del: push_bit_of_1 push_bit_eq_mult)
  next
    case False
    with that have n: "Suc n < 32" "31 - n - 1 = 31 - Suc n" "1 \<le> 31 - n" "31 - n < 32" by auto
    then have "bit c (Suc n) = bit d (31 - Suc n)" using m unfolding mirrors_def by blast
    then show ?thesis using n by (simp only: bit_drop_bit_eq bit_push_bit_iff comp_def) simp
  qed
  then show ?thesis unfolding mirrors_def by blast
qed

lemma mirrors_xor: "mirrors c d \<Longrightarrow> mirrors e f \<Longrightarrow> mirrors (c XOR e) (d XOR f)"
  unfolding mirrors_def by (simp add: bit_xor_iff)

lemma and_one_neq: "w AND 1 \<noteq> (0 :: u32) \<longleftrightarrow> bit w 0"
  by (simp add: and_one_eq odd_iff_mod_2_eq_one bit_0)

lemma crc_bits_mirrors: "mirrors c d \<Longrightarrow> mirrors (crc_bits n data c) (msb_bits n data d)"
proof (induction n arbitrary: data c d)
  case (Suc n)
  have "bit c 0 = bit d 31" using Suc.prems unfolding mirrors_def by fastforce
  moreover have "(c XOR ucast data) AND 1 \<noteq> 0 \<longleftrightarrow> bit c 0 \<noteq> bit data 0"
    by (subst and_one_neq) (simp add: bit_xor_iff bit_ucast_iff)
  ultimately have "mirrors (if (c XOR ucast data) AND 1 \<noteq> 0 then 0xEDB88320 else 0)
      (if bit d 31 \<noteq> bit data 0 then 0x04C11DB7 else 0)"
    using poly_mirrors by (simp add: mirrors_def)
  from Suc.IH [OF mirrors_xor [OF mirrors_shift [OF Suc.prems] this]] show ?case by simp
qed simp

lemma ether_crc_mirrors: "mirrors (lan9250_ether_crc addr) (msb_crc addr)"
proof -
  have "mirrors c d \<Longrightarrow> mirrors (fold (crc_bits 8) as c) (fold (msb_bits 8) as d)" for c d as
    by (induction as arbitrary: c d) (auto intro: crc_bits_mirrors)
  moreover have "mirrors 0xFFFFFFFF 0xFFFFFFFF"
    unfolding mirrors_def all_less32 by (simp add: upt_rec bit_numeral_rec bit_simps)
  ultimately show ?thesis unfolding lan9250_ether_crc_def msb_crc_def by blast
qed

section \<open>Properties\<close>

text \<open>
  C22: The hash registers follow the joined groups. Start with an empty table and let the network
  stack join and leave multicast groups, no group left that is not joined, and no call made with 255
  or more joined (\<open>orderly\<close>: the counts are bytes, and a leave too many lowers another group's count);
  the driver may report some of the calls as failed. When the last call succeeds, the last writes of
  the driver are the two hash registers, and the bits set in them are exactly those the driver assigns
  to the groups still joined; leaving one of two groups with the same bit keeps it. Which bit the
  driver assigns is its own hash: the chip's index is another (\<open>hash_index_reversed\<close>).
\<close>

theorem multicast_filter_tracks:
  assumes "byte_order E" "mcast_hash_refcount s = replicate 64 0" "calls \<noteq> []"
    "orderly {#} calls" "filter_calls E calls s = Some (r, t)" "0 \<le> r"
  shows "\<exists>before hashh hashl. writes (trace t) = before @
      mac_writes LAN9250_HMAC_HASHL hashl @ mac_writes LAN9250_HMAC_HASHH hashh \<and>
    (\<forall>g. bit_listed hashh hashl g \<longleftrightarrow> (\<exists>h. h \<in># groups calls {#} \<and> hash h = hash g))"
proof -
  let ?J = "groups calls {#}"
  have "tracks {#} s" using assms(2) by (simp add: tracks_def sharing_def)
  from filter_calls_track [OF assms(1) this assms(4,5,3)] assms(6) obtain before hashh hashl where
    J: "tracks ?J t" and w: "mcast_hash_words (mcast_hash_refcount t) = (hashh, hashl)"
    "writes (trace t) = before @
      mac_writes LAN9250_HMAC_HASHL hashl @ mac_writes LAN9250_HMAC_HASHH hashh"
    by blast
  have "bit_listed hashh hashl g \<longleftrightarrow> (\<exists>h. h \<in># ?J \<and> hash h = hash g)" for g
  proof -
    have b: "hash g < 64" by (rule hash_bit_less)
    have "bit_listed hashh hashl g \<longleftrightarrow> mcast_hash_refcount t ! hash g \<noteq> 0"
      unfolding bit_listed_def mcast_hash_words_bits [OF w(1)] using b by auto
    also have "\<dots> \<longleftrightarrow> 0 < sharing ?J (hash g)"
      using J b unfolding tracks_def by (metis gr0I unat_eq_zero unat_0 order_less_irrefl)
    finally show ?thesis by (simp add: sharing_pos)
  qed
  with w(2) show ?thesis by blast
qed

text \<open>The gPTP and PTP-over-IPv4 groups.\<close>

definition gptp_group :: "u8 list" where "gptp_group = [0x01, 0x80, 0xC2, 0, 0, 0x0E]"
definition ptp_group :: "u8 list" where "ptp_group = [0x01, 0, 0x5E, 0, 1, 0x81]"

lemma good_chip_filter:
  "\<exists>t. lan9250_set_config good_chip (Filter True ptp_group on) s = Some (0, t)"
proof -
  have "succeeds (run_cmds [lan9250_write_mac_reg good_chip a c, lan9250_write_mac_reg good_chip b d])"
    for a b c d by (rule succeeds_run) (simp add: good_chip_write_mac)
  then have "\<exists>t. lan9250_mcast_hash_write good_chip u = Some (0, t)" for u
    unfolding succeeds_def lan9250_mcast_hash_write_def by (auto split: prod.splits)
  then obtain t where "lan9250_mcast_hash_write good_chip
      (count_group ptp_group on (act (Lock Hash_lock) s)) = Some (0, t)" by blast
  then show ?thesis by (simp add: locked_def ptp_group_def)
qed

lemma good_chip_byte_order: "byte_order good_chip"
  by (simp add: good_chip_def byte_order_def calm_def)

lemma multicast_filter_tracks_witness:
  "\<exists>t hashh hashl. filter_calls good_chip [(True, ptp_group), (True, ptp_group), (False, ptp_group)]
     lan0 = Some (0, t) \<and> bit_listed hashh hashl ptp_group"
proof -
  let ?calls = "[(True, ptp_group), (True, ptp_group), (False, ptp_group)]"
  obtain t u v where f:
    "lan9250_set_config good_chip (Filter True ptp_group True) lan0 = Some (0, t)"
    "lan9250_set_config good_chip (Filter True ptp_group True) t = Some (0, u)"
    "lan9250_set_config good_chip (Filter True ptp_group False) u = Some (0, v)"
    using good_chip_filter by blast
  then have calls: "filter_calls good_chip ?calls lan0 = Some (0, v)"
    by (simp del: lan9250_set_config.simps)
  have "orderly {#} ?calls" "mcast_hash_refcount lan0 = replicate 64 0"
    by (simp_all add: ptp_group_def lan0_def)
  from multicast_filter_tracks [OF good_chip_byte_order this(2) _ this(1) calls]
  obtain hashh hashl where "bit_listed hashh hashl ptp_group" by auto
  with calls show ?thesis by blast
qed

text \<open>
  C31: The driver does not use the hash of Ethernet's CRC register. Its CRC is the mirror image of the
  register (and of Linux's \<open>ether_crc\<close>), so its six-bit table index is not the upper six bits of the
  register but the lower six in reverse order; for the gPTP group address the two indices differ.
\<close>

theorem hash_index_reversed:
  "(bit (lan9250_mcast_hash_bit addr) k \<longleftrightarrow> k < 6 \<and> bit (msb_crc addr) (5 - k)) \<and>
   drop_bit 26 (msb_crc gptp_group) \<noteq> ucast (lan9250_mcast_hash_bit gptp_group)"
proof
  have top: "\<not> bit (lan9250_ether_crc addr) (k + 26)" if "6 \<le> k"
    using bit_imp_le_length [of "lan9250_ether_crc addr" "k + 26"] that by auto
  have "bit (lan9250_ether_crc addr) (k + 26) = bit (msb_crc addr) (5 - k)" if "k < 6"
  proof -
    from that have "k + 26 < 32" "31 - (k + 26) = 5 - k" by simp_all
    then show ?thesis using ether_crc_mirrors [of addr] unfolding mirrors_def by metis
  qed
  with top show "bit (lan9250_mcast_hash_bit addr) k \<longleftrightarrow> k < 6 \<and> bit (msb_crc addr) (5 - k)"
    unfolding lan9250_mcast_hash_bit_def
    by (cases "k < 6") (auto simp: bit_ucast_iff bit_drop_bit_eq comp_def add.commute)
  show "drop_bit 26 (msb_crc gptp_group) \<noteq> ucast (lan9250_mcast_hash_bit gptp_group)"
    by code_simp
qed

text \<open>
  Promiscuous mode is switched and nothing else. If the MAC's control register can be read, a
  request for the mode the chip is already in yields \<open>- EALREADY\<close> without a write; any other
  successful request writes the register once, with the mode bit as asked, the pass-all-multicast
  and hash-only bits cleared, hash-perfect filtering set when the mode is left, and every other bit
  as it was.
\<close>

lemma promisc_mode_switches:
  assumes "byte_order E" "PROMISCUOUS_MODE E"
    and "lan9250_read_mac_reg E LAN9250_HMAC_CR s = Some (q, reg, u)" "0 \<le> q"
    and "lan9250_set_config E (Promisc_mode on) s = Some (r, t)"
  shows "if bit reg 18 = on then r = - EALREADY \<and> t = u
    else 0 \<le> r \<longrightarrow> (\<exists>cr. writes (trace t) = writes (trace s) @ mac_writes LAN9250_HMAC_CR cr \<and>
      (\<forall>n<32. bit cr n \<longleftrightarrow> (if n = 18 then on else n \<notin> {15, 19} \<and> (bit reg n \<or> n = 13 \<and> \<not> on))))"
proof -
  have and_BIT: "(reg AND BIT k = 0) = (\<not> bit reg k)" if "k < 32" for k
  proof -
    have "bit (reg AND BIT k) n \<longleftrightarrow> n = k \<and> bit reg k" for n
      using that by (auto simp: bit_and_iff bit_BIT)
    then show ?thesis by (metis bit_0_eq bot_apply bot_bool_def bit_eqI)
  qed
  have u: "writes (trace u) = writes (trace s)"
    using emits_read_mac_unlisted [OF assms(1)] assms(3) puts_none
    unfolding emits_q_def extends_def
    by (fastforce simp: writes_append writes_def unlisted_def list_all_iff)
  have w: "puts (lan9250_write_mac_reg E LAN9250_HMAC_CR cr) (mac_writes LAN9250_HMAC_CR cr)" for cr
    by (rule puts_write_mac [OF assms(1)])
  have bits: "bit (promisc_on reg) n \<longleftrightarrow> n = 18 \<or> n \<notin> {15, 19} \<and> bit reg n"
    "bit (promisc_off reg) n \<longleftrightarrow> n \<noteq> 18 \<and> n \<notin> {15, 19} \<and> (bit reg n \<or> n = 13)" if "n < 32" for n
    using that unfolding promisc_on_def promisc_off_def LAN9250_HMAC_CR_MCPAS_def
      LAN9250_HMAC_CR_PRMS_def LAN9250_HMAC_CR_HO_def LAN9250_HMAC_CR_HPFILT_def
    by (auto simp: bit_and_iff bit_or_iff bit_not_iff bit_BIT)
  show ?thesis
  proof (cases "bit reg 18 = on")
    case True
    then show ?thesis using assms(2-)
      by (auto simp: set_promisc_def query_ok_def LAN9250_HMAC_CR_PRMS_def and_BIT)
  next
    case False
    define cr where "cr = (if on then promisc_on reg else promisc_off reg)"
    have "lan9250_write_mac_reg E LAN9250_HMAC_CR cr u = Some (r, t)"
      using False assms(2-)
      by (auto simp: set_promisc_def query_ok_def LAN9250_HMAC_CR_PRMS_def and_BIT cr_def
          split: if_splits)
    then have "0 \<le> r \<longrightarrow> writes (trace t) = writes (trace s) @ mac_writes LAN9250_HMAC_CR cr"
      using w u unfolding puts_def by metis
    moreover have "bit cr n \<longleftrightarrow> (if n = 18 then on else n \<notin> {15, 19} \<and> (bit reg n \<or> n = 13 \<and> \<not> on))"
      if "n < 32" for n
      using bits [OF that] by (auto simp: cr_def)
    ultimately show ?thesis using False by auto
  qed
qed

lemma good_chip_promisc: "PROMISCUOUS_MODE good_chip"
  by (simp add: good_chip_def)

lemma promisc_mode_switches_example:
  "\<exists>t cr. lan9250_set_config good_chip (Promisc_mode True) lan0 = Some (0, t) \<and>
     writes (trace t) = mac_writes LAN9250_HMAC_CR cr \<and> bit cr 18"
proof -
  obtain u where u: "lan9250_read_mac_reg good_chip LAN9250_HMAC_CR lan0 = Some (0, 0, u)"
    using good_chip_read_mac by blast
  obtain t where "lan9250_write_mac_reg good_chip LAN9250_HMAC_CR (promisc_on 0) u = Some (0, t)"
    using good_chip_write_mac unfolding succeeds_def by blast
  then have c: "lan9250_set_config good_chip (Promisc_mode True) lan0 = Some (0, t)"
    by (simp add: set_promisc_def query_ok_def u good_chip_promisc)
  from promisc_mode_switches [OF good_chip_byte_order good_chip_promisc u _ c] c show ?thesis
    by (fastforce simp: writes_def lan0_def)
qed

end
