(* ===== verification/Ptp_Clock.thy ===== *)
theory Ptp_Clock
  imports Lan_Config C_Float "HOL-Library.Signed_Division"
begin

text \<open>
  The clock of the 1588 unit: reading, setting, stepping and trimming it, and the pulse-per-second
  output (\<open>lan9250_ptp_clock_*\<close> and \<open>lan9250_1588_pps_enable\<close> in
  \<open>drivers/eth_lan9250/eth_lan9250.c\<close>), and the device that offers it to the kernel
  (\<open>drivers/eth_lan9250/ptp_clock_lan9250.c\<close>). The clock the chip keeps is a function of the trace;
  what the driver relies on of it is stated as \<open>reads_clock\<close> and \<open>loads_clock\<close>.
\<close>

section \<open>Registers\<close>

definition LAN9250_RX_DROP :: u16 where [dev_eval]: "LAN9250_RX_DROP = 0x00A0"
definition LAN9250_LED_CFG :: u16 where [dev_eval]: "LAN9250_LED_CFG = 0x01BC"
definition LAN9250_GPIO_CFG :: u16 where [dev_eval]: "LAN9250_GPIO_CFG = 0x01E0"
definition LAN9250_1588_CLOCK_SUBNS :: u16 where [dev_eval]: "LAN9250_1588_CLOCK_SUBNS = 0x0118"
definition LAN9250_1588_CLOCK_RATE_ADJ :: u16 where [dev_eval]: "LAN9250_1588_CLOCK_RATE_ADJ = 0x011C"

definition LAN9250_1588_CLOCK_TARGET_SEC :: "u16 \<Rightarrow> u16" where
  [dev_eval]: "LAN9250_1588_CLOCK_TARGET_SEC x = 0x012C + 0x10 * x"
definition LAN9250_1588_CLOCK_TARGET_NS :: "u16 \<Rightarrow> u16" where
  [dev_eval]: "LAN9250_1588_CLOCK_TARGET_NS x = 0x0130 + 0x10 * x"
definition LAN9250_1588_CLOCK_TARGET_RELOAD_SEC :: "u16 \<Rightarrow> u16" where
  [dev_eval]: "LAN9250_1588_CLOCK_TARGET_RELOAD_SEC x = 0x0134 + 0x10 * x"
definition LAN9250_1588_CLOCK_TARGET_RELOAD_NS :: "u16 \<Rightarrow> u16" where
  [dev_eval]: "LAN9250_1588_CLOCK_TARGET_RELOAD_NS x = 0x0138 + 0x10 * x"

definition LAN9250_1588_CLOCK_RATE_ADJ_DIR :: u32 where
  [dev_eval]: "LAN9250_1588_CLOCK_RATE_ADJ_DIR = 0x80000000"
definition LAN9250_1588_CLOCK_RATE_ADJ_VALUE_MASK :: nat where
  "LAN9250_1588_CLOCK_RATE_ADJ_VALUE_MASK = 0x3FFFFFFF"

definition LAN9250_LED_CFG_LED_EN :: "nat \<Rightarrow> u32" where "LAN9250_LED_CFG_LED_EN x = BIT x"
definition LAN9250_GPIO_CFG_1588_GPIO_CH_SEL :: "nat \<Rightarrow> u32" where
  "LAN9250_GPIO_CFG_1588_GPIO_CH_SEL x = BIT (24 + x)"
definition LAN9250_GPIO_CFG_GPIO_POL :: "nat \<Rightarrow> u32" where "LAN9250_GPIO_CFG_GPIO_POL x = BIT (16 + x)"
definition LAN9250_GPIO_CFG_1588_GPIO_OE :: "nat \<Rightarrow> u32" where
  "LAN9250_GPIO_CFG_1588_GPIO_OE x = BIT (8 + x)"
definition LAN9250_GPIO_CFG_GPIOBUF :: "nat \<Rightarrow> u32" where "LAN9250_GPIO_CFG_GPIOBUF x = BIT x"

definition LAN9250_1588_GENERAL_CONFIG_RELOAD_ADD_A :: u32 where
  "LAN9250_1588_GENERAL_CONFIG_RELOAD_ADD_A = 1"
definition LAN9250_1588_GENERAL_CONFIG_CLOCK_EVENT_A_MASK :: u32 where
  "LAN9250_1588_GENERAL_CONFIG_CLOCK_EVENT_A_MASK = 0xC"
definition LAN9250_1588_GENERAL_CONFIG_CLOCK_EVENT_A_SHIFT :: nat where
  "LAN9250_1588_GENERAL_CONFIG_CLOCK_EVENT_A_SHIFT = 2"
definition LAN9250_1588_CLOCK_EVENT_MODE_100NS_PULSE :: u32 where
  "LAN9250_1588_CLOCK_EVENT_MODE_100NS_PULSE = 0"

section \<open>Reading, setting and stepping the clock\<close>

definition lan9250_rx_drop_get :: "lan_env \<Rightarrow> u32 query" where
  "lan9250_rx_drop_get E = lan9250_read_sys_reg E LAN9250_RX_DROP"

text \<open>Seconds, nanoseconds and, if asked for, the fraction of a nanosecond.\<close>

definition lan9250_ptp_clock_read :: "lan_env \<Rightarrow> bool \<Rightarrow> (u32 \<times> u32 \<times> u32) query" where
  "lan9250_ptp_clock_read E want_subns s = do {
     (ret, s1) \<leftarrow> lan9250_write_sys_reg E LAN9250_1588_CMD_CTL LAN9250_1588_CMD_CTL_CLOCK_READ s;
     if ret < 0 then Some (ret, (0, 0, 0), s1)
     else do {
       (ret, sec, s2) \<leftarrow> lan9250_read_sys_reg E LAN9250_1588_CLOCK_SEC s1;
       if ret < 0 then Some (ret, (sec, 0, 0), s2)
       else do {
         (ret, ns, s3) \<leftarrow> lan9250_read_sys_reg E LAN9250_1588_CLOCK_NS s2;
         if ret < 0 then Some (ret, (sec, ns, 0), s3)
         else if \<not> want_subns then Some (0, (sec, ns, 0), s3)
         else do {
           (ret, subns, s4) \<leftarrow> lan9250_read_sys_reg E LAN9250_1588_CLOCK_SUBNS s3;
           Some (if ret < 0 then ret else 0, (sec, ns, subns), s4)
         }
       }
     }
   }"

definition lan9250_ptp_clock_set :: "lan_env \<Rightarrow> u32 \<Rightarrow> u32 \<Rightarrow> lan cmd" where
  "lan9250_ptp_clock_set E sec ns = run_cmds
    [lan9250_write_sys_reg E LAN9250_1588_CLOCK_SEC sec,
     lan9250_write_sys_reg E LAN9250_1588_CLOCK_NS ns,
     lan9250_write_sys_reg E LAN9250_1588_CMD_CTL LAN9250_1588_CMD_CTL_CLOCK_LOAD]"

text \<open>The new time: division and remainder of C round towards zero; the sum fits its 64 bits.\<close>

definition stepped :: "u32 \<Rightarrow> u32 \<Rightarrow> u32 \<Rightarrow> u32 \<times> u32" where
  "stepped sec ns increment_ns =
    (let total_ns = uint ns + sint increment_ns;
         sec = sec + word_of_int (total_ns sdiv 1000000000);
         total_ns = total_ns smod 1000000000
     in if total_ns < 0 then (sec - 1, word_of_int (total_ns + 1000000000))
        else (sec, word_of_int total_ns))"

definition lan9250_ptp_clock_adjust :: "lan_env \<Rightarrow> u32 \<Rightarrow> lan cmd" where
  "lan9250_ptp_clock_adjust E increment_ns =
    query_ok (lan9250_ptp_clock_read E False) (\<lambda>(sec, ns, _).
      let (sec, ns) = stepped sec ns increment_ns in lan9250_ptp_clock_set E sec ns)"

section \<open>Trimming the rate\<close>

text \<open>A \<open>double\<close> is its sign and the rest of its bit pattern. \<open>llround\<close> of a number that no
  64-bit integer is near is left open by C: the parameter \<open>far\<close>.\<close>

type_synonym f64 = fpn

definition f64_lit :: "nat \<Rightarrow> nat \<Rightarrow> f64" where
  [dev_eval]: "f64_lit a b = fp_lit 52 11 a b"

definition f64_llround :: "(f64 \<Rightarrow> int) \<Rightarrow> f64 \<Rightarrow> int" where
  [dev_eval]: "f64_llround far x =
    (let n = fp_lround 52 11 x
     in if snd x < inf_ix 52 11 \<and> - (2 ^ 63) \<le> n \<and> n < 2 ^ 63 then n else far x)"

definition rate_ppb :: "f64 \<Rightarrow> f64" where
  [dev_eval]: "rate_ppb ratio = fp_mul 52 11 (fp_sub 52 11 ratio (f64_lit 1 1)) (f64_lit 1000000000 1)"

definition rate_magnitude :: "(f64 \<Rightarrow> int) \<Rightarrow> f64 \<Rightarrow> u64" where
  [dev_eval]: "rate_magnitude far ppb = word_of_int (f64_llround far
     (fp_mul 52 11 (if fp_lt 52 11 ppb (False, 0) then fp_neg ppb else ppb)
       (f64_lit 4294967296 100000000)))"

definition lan9250_ptp_clock_rate_adjust :: "lan_env \<Rightarrow> (f64 \<Rightarrow> int) \<Rightarrow> f64 \<Rightarrow> lan cmd" where
  "lan9250_ptp_clock_rate_adjust E far ratio s =
    (let ppb = rate_ppb ratio; magnitude = rate_magnitude far ppb
     in if LAN9250_1588_CLOCK_RATE_ADJ_VALUE_MASK < unat magnitude then Some (- ERANGE, s)
        else let rate_adj = (if fp_le 52 11 (False, 0) ppb
               then ucast magnitude OR LAN9250_1588_CLOCK_RATE_ADJ_DIR else ucast magnitude)
          in lan9250_write_sys_reg E LAN9250_1588_CLOCK_RATE_ADJ rate_adj s)"

section \<open>The pulse-per-second output\<close>

definition pps_gpio_cfg :: "u32 \<Rightarrow> u32" where
  "pps_gpio_cfg gpio_cfg =
    ((gpio_cfg OR LAN9250_GPIO_CFG_GPIOBUF 1 OR LAN9250_GPIO_CFG_GPIO_POL 1)
       AND NOT (LAN9250_GPIO_CFG_1588_GPIO_CH_SEL 1)) OR LAN9250_GPIO_CFG_1588_GPIO_OE 1"

definition pps_general_config :: "u32 \<Rightarrow> u32" where
  "pps_general_config general_config =
    ((general_config AND NOT LAN9250_1588_GENERAL_CONFIG_CLOCK_EVENT_A_MASK)
       OR push_bit LAN9250_1588_GENERAL_CONFIG_CLOCK_EVENT_A_SHIFT LAN9250_1588_CLOCK_EVENT_MODE_100NS_PULSE)
     AND NOT LAN9250_1588_GENERAL_CONFIG_RELOAD_ADD_A"

definition lan9250_1588_pps_enable :: "lan_env \<Rightarrow> lan cmd" where
  "lan9250_1588_pps_enable E = run_cmds
    [query_ok (lan9250_read_sys_reg E LAN9250_LED_CFG) (\<lambda>led_cfg.
       lan9250_write_sys_reg E LAN9250_LED_CFG (led_cfg AND NOT (LAN9250_LED_CFG_LED_EN 1))),
     query_ok (lan9250_read_sys_reg E LAN9250_GPIO_CFG) (\<lambda>gpio_cfg.
       lan9250_write_sys_reg E LAN9250_GPIO_CFG (pps_gpio_cfg gpio_cfg)),
     query_ok (lan9250_read_sys_reg E LAN9250_1588_GENERAL_CONFIG) (\<lambda>general_config.
       lan9250_write_sys_reg E LAN9250_1588_GENERAL_CONFIG (pps_general_config general_config)),
     lan9250_write_sys_reg E (LAN9250_1588_CLOCK_TARGET_RELOAD_SEC 0) 1,
     lan9250_write_sys_reg E (LAN9250_1588_CLOCK_TARGET_RELOAD_NS 0) 0,
     query_ok (lan9250_ptp_clock_read E False) (\<lambda>(sec, ns, _). run_cmds
       [lan9250_write_sys_reg E (LAN9250_1588_CLOCK_TARGET_SEC 0) (sec + 2),
        lan9250_write_sys_reg E (LAN9250_1588_CLOCK_TARGET_NS 0) 0,
        run_cmds []])]"

section \<open>The clock device\<close>

record net_ptp_time =
  second :: u64
  nanosecond :: u32

definition lan9250_ptp_clock_api_set :: "lan_env \<Rightarrow> net_ptp_time \<Rightarrow> lan cmd" where
  "lan9250_ptp_clock_api_set E tm = lan9250_ptp_clock_set E (ucast (second tm)) (nanosecond tm)"

text \<open>\<open>tm\<close> is the caller's object, left as it was on an error.\<close>

definition lan9250_ptp_clock_api_get :: "lan_env \<Rightarrow> net_ptp_time \<Rightarrow> net_ptp_time query" where
  "lan9250_ptp_clock_api_get E tm s = do {
     (ret, (sec, ns, _), s1) \<leftarrow> lan9250_ptp_clock_read E False s;
     if ret < 0 then Some (ret, tm, s1)
     else Some (0, tm\<lparr>second := ucast sec, nanosecond := ns\<rparr>, s1)
   }"

definition lan9250_ptp_clock_api_adjust :: "lan_env \<Rightarrow> u32 \<Rightarrow> lan cmd" where
  "lan9250_ptp_clock_api_adjust E increment = lan9250_ptp_clock_adjust E increment"

definition lan9250_ptp_clock_api_rate_adjust :: "lan_env \<Rightarrow> (f64 \<Rightarrow> int) \<Rightarrow> f64 \<Rightarrow> lan cmd" where
  "lan9250_ptp_clock_api_rate_adjust E far ratio = lan9250_ptp_clock_rate_adjust E far ratio"

text \<open>The device makes itself known to the Ethernet driver, which hands it to the kernel.\<close>

definition lan9250_ptp_clock_init :: "bool \<Rightarrow> nat \<Rightarrow> lan cmd" where
  "lan9250_ptp_clock_init ready port s =
    (if \<not> ready then Some (- ENODEV, s) else Some (0, s\<lparr>ptp_clock := Some port\<rparr>))"

definition lan9250_get_ptp_clock :: "lan \<Rightarrow> nat option" where
  "lan9250_get_ptp_clock s = ptp_clock s"


section \<open>Stepping is addition\<close>

abbreviation ns_per_s :: int where
  "ns_per_s \<equiv> 1000000000"

text \<open>The correction after C's division makes it the division that rounds down.\<close>

lemma stepped_floor:
  "stepped sec ns inc =
    (sec + word_of_int ((uint ns + sint inc) div ns_per_s), word_of_int ((uint ns + sint inc) mod ns_per_s))"
proof -
  define z where "z = uint ns + sint inc"
  have z: "z = ns_per_s * (z sdiv ns_per_s) + z smod ns_per_s"
    using mult_sdiv_smod_eq [of ns_per_s z] by simp
  have m: "- ns_per_s < z smod ns_per_s" "z smod ns_per_s < ns_per_s"
    using pos_mod_bound [of ns_per_s z] pos_mod_sign [of ns_per_s z]
      pos_mod_bound [of ns_per_s "- z"] pos_mod_sign [of ns_per_s "- z"]
    unfolding signed_modulo_int_def sgn_if by (auto simp del: pos_mod_bound pos_mod_sign)
  show ?thesis
  proof (cases "z smod ns_per_s < 0")
    case True
    have z1: "z = ns_per_s * (z sdiv ns_per_s - 1) + (z smod ns_per_s + ns_per_s)" using z by simp
    have "z div ns_per_s = z sdiv ns_per_s - 1" "z mod ns_per_s = z smod ns_per_s + ns_per_s"
      using True m by (intro int_div_pos_eq [OF z1] int_mod_pos_eq [OF z1]; simp)+
    then show ?thesis using True by (simp add: stepped_def z_def Let_def)
  next
    case False
    then have "z div ns_per_s = z sdiv ns_per_s" "z mod ns_per_s = z smod ns_per_s"
      using False m by (intro int_div_pos_eq [OF z] int_mod_pos_eq [OF z]; simp)+
    then show ?thesis using False by (simp add: stepped_def z_def Let_def)
  qed
qed

text \<open>Time in nanoseconds, as far as 32 bits of seconds go.\<close>

definition clock_ns :: "u32 \<Rightarrow> u32 \<Rightarrow> int" where
  "clock_ns sec ns = uint sec * ns_per_s + uint ns"

abbreviation clock_period :: int where
  "clock_period \<equiv> 2 ^ 32 * ns_per_s"

lemma mod_of_product:
  fixes k n c m :: int
  assumes "0 \<le> n" "n < c" "0 < m"
  shows "(k * c + n) mod (m * c) = (k mod m) * c + n"
proof -
  have "(k * c + n) mod (c * m) = c * ((k * c + n) div c mod m) + (k * c + n) mod c"
    using assms by (intro zmod_zmult2_eq) simp
  moreover have "(k * c + n) div c = k" "(k * c + n) mod c = n" using assms by simp_all
  ultimately show ?thesis by (simp add: mult.commute)
qed

lemma clock_ns_of_int:
  "0 \<le> n \<Longrightarrow> n < ns_per_s \<Longrightarrow>
     clock_ns (word_of_int k) (word_of_int n) = (k * ns_per_s + n) mod clock_period"
proof -
  assume n: "0 \<le> n" "n < ns_per_s"
  have "(k * ns_per_s + n) mod (2 ^ 32 * ns_per_s) = (k mod 2 ^ 32) * ns_per_s + n"
    using n by (intro mod_of_product) simp_all
  with n show ?thesis by (simp add: clock_ns_def uint_word_of_int take_bit_eq_mod)
qed

lemma clock_ns_split: "clock_ns (word_of_int (z div ns_per_s)) (word_of_int (z mod ns_per_s)) = z mod clock_period"
  by (subst clock_ns_of_int) simp_all

lemma stepped_adds:
  assumes "stepped sec ns inc = (sec', ns')"
  shows "clock_ns sec' ns' = (clock_ns sec ns + sint inc) mod clock_period" "uint ns' < ns_per_s"
proof -
  let ?z = "uint ns + sint inc"
  have "sec' = word_of_int (uint sec + ?z div ns_per_s)" "ns' = word_of_int (?z mod ns_per_s)"
    using assms by (simp_all add: stepped_floor)
  then have "clock_ns sec' ns' = ((uint sec + ?z div ns_per_s) * ns_per_s + ?z mod ns_per_s) mod clock_period"
    by (simp only:) (rule clock_ns_of_int; simp)
  also have "(uint sec + ?z div ns_per_s) * ns_per_s + ?z mod ns_per_s = clock_ns sec ns + sint inc"
    using div_mult_mod_eq [of ?z ns_per_s] by (simp add: clock_ns_def algebra_simps)
  finally show "clock_ns sec' ns' = (clock_ns sec ns + sint inc) mod clock_period" .
  show "uint ns' < ns_per_s"
    using \<open>ns' = _\<close> by (simp add: uint_word_of_int take_bit_eq_mod)
qed

section \<open>The chip's clock\<close>

text \<open>What the chip does by its data sheet. The clock \<open>now h\<close> counts nanoseconds; a snapshot can be
  read back from the clock registers, and a load makes their contents the time.\<close>

definition reads_clock :: "lan_env \<Rightarrow> (ev list \<Rightarrow> int) \<Rightarrow> bool" where
  "reads_clock E now \<longleftrightarrow> (\<forall>h.
     let h1 = spi_write E LAN9250_1588_CMD_CTL LAN9250_1588_CMD_CTL_CLOCK_READ # h;
         h2 = spi_read E LAN9250_1588_CLOCK_SEC # h1;
         h3 = spi_read E LAN9250_1588_CLOCK_NS # h2
     in le32 (spi_rx E h2) = word_of_int (now h1 div ns_per_s) \<and>
        le32 (spi_rx E h3) = word_of_int (now h1 mod ns_per_s))"

definition loads_clock :: "lan_env \<Rightarrow> (ev list \<Rightarrow> int) \<Rightarrow> bool" where
  "loads_clock E now \<longleftrightarrow> (\<forall>h sec ns.
     now (spi_write E LAN9250_1588_CMD_CTL LAN9250_1588_CMD_CTL_CLOCK_LOAD #
          spi_write E LAN9250_1588_CLOCK_NS ns # spi_write E LAN9250_1588_CLOCK_SEC sec # h)
       = clock_ns sec ns)"

definition bus_works :: "lan_env \<Rightarrow> bool" where
  "bus_works E \<longleftrightarrow> (\<forall>h. 0 \<le> spi_ret E h)"

lemma bus_works_not [simp]: "bus_works E \<Longrightarrow> \<not> spi_ret E h < 0" "bus_works E \<Longrightarrow> 0 \<le> spi_ret E h"
  by (auto simp: bus_works_def not_less)

lemma clock_read_runs:
  fixes s
  assumes "bus_works E" "reads_clock E now"
  defines "snap \<equiv> spi_write E LAN9250_1588_CMD_CTL LAN9250_1588_CMD_CTL_CLOCK_READ # trace s"
  shows "lan9250_ptp_clock_read E False s =
    Some (0, (word_of_int (now snap div ns_per_s), word_of_int (now snap mod ns_per_s), 0),
      s\<lparr>trace := spi_read E LAN9250_1588_CLOCK_NS # spi_read E LAN9250_1588_CLOCK_SEC # snap\<rparr>)"
  using assms(1,2) unfolding reads_clock_def snap_def Let_def
  by (simp add: lan9250_ptp_clock_read_def lan9250_write_sys_reg_def lan9250_read_sys_reg_def act_def Let_def)

lemma clock_set_runs:
  assumes "bus_works E" "loads_clock E now"
  shows "\<exists>r t. lan9250_ptp_clock_set E sec ns s = Some (r, t) \<and> 0 \<le> r \<and> now (trace t) = clock_ns sec ns \<and>
    t = s\<lparr>trace := trace t\<rparr>"
  using assms unfolding loads_clock_def
  by (simp add: lan9250_ptp_clock_set_def then_ok_def lan9250_write_sys_reg_def act_def Let_def)

text \<open>
  C23: Stepping the clock adds the increment. On a working bus \<open>lan9250_ptp_clock_adjust\<close> succeeds for
  every signed 32-bit increment, and the time it loads is the time of its snapshot plus the
  increment, modulo the \<open>2 ^ 32\<close> seconds of the clock, with fewer than \<open>10 ^ 9\<close> nanoseconds in the
  nanoseconds register: carries and borrows of the seconds included.
\<close>

theorem clock_adjust_adds:
  assumes "bus_works E" "reads_clock E now" "loads_clock E now"
  shows "\<exists>r t sec' ns'. lan9250_ptp_clock_adjust E inc s = Some (r, t) \<and> 0 \<le> r \<and>
    now (trace t) = clock_ns sec' ns' \<and> uint ns' < ns_per_s \<and>
    clock_ns sec' ns' = (now (spi_write E LAN9250_1588_CMD_CTL LAN9250_1588_CMD_CTL_CLOCK_READ # trace s)
      + sint inc) mod clock_period"
proof -
  let ?snap = "spi_write E LAN9250_1588_CMD_CTL LAN9250_1588_CMD_CTL_CLOCK_READ # trace s"
  let ?sec = "word_of_int (now ?snap div ns_per_s) :: u32" and ?ns = "word_of_int (now ?snap mod ns_per_s) :: u32"
  obtain sec' ns' where st: "stepped ?sec ?ns inc = (sec', ns')" by fastforce
  have "clock_ns sec' ns' = (now ?snap + sint inc) mod clock_period" "uint ns' < ns_per_s"
    using stepped_adds [OF st] unfolding clock_ns_split by (simp_all only: mod_add_left_eq)
  moreover obtain u where "lan9250_ptp_clock_read E False s = Some (0, (?sec, ?ns, 0), u)"
    using clock_read_runs [OF assms(1,2), of s] by blast
  moreover obtain r t where "lan9250_ptp_clock_set E sec' ns' u = Some (r, t)" "0 \<le> r"
    "now (trace t) = clock_ns sec' ns'"
    using clock_set_runs [OF assms(1,3), of sec' ns' u] by blast
  moreover from calculation st have "lan9250_ptp_clock_adjust E inc s = Some (r, t)"
    by (simp add: lan9250_ptp_clock_adjust_def query_ok_def)
  ultimately show ?thesis by blast
qed


section \<open>The trim in numbers\<close>

abbreviation dv :: "f64 \<Rightarrow> real" where
  "dv \<equiv> rval 52 11"

abbreviation dfin :: "f64 \<Rightarrow> bool" where
  "dfin x \<equiv> snd x < inf_ix 52 11"

abbreviation rd :: "real \<Rightarrow> real" where
  "rd \<equiv> rr 52 11"

lemma dv_pow: "dv (False, 1123 * 2 ^ 52) = 2 ^ 100"
  by (simp add: double.rval_pair mag_numeral ux_def)

lemma dv_one: "dv (False, 1023 * 2 ^ 52) = 1"
  by (simp add: double.rval_pair mag_numeral ux_def)

lemma dv_giga: "dv (False, 1051 * 2 ^ 52 + 1000000000 * 2 ^ 23) = 1000000000"
  by (simp add: double.rval_pair mag_numeral ux_def)

lemma inf_double: "inf_ix 52 11 = 2047 * 2 ^ 52"
  by (simp add: inf_ix_def)

lemma dv_top: "2 ^ 101 \<le> dv (False, inf_ix 52 11)"
proof -
  have "dv (False, 1124 * 2 ^ 52) \<le> dv (False, inf_ix 52 11)"
    by (simp add: double.rval_pair inf_double divide_right_mono double.grid_le_iff)
  moreover have "dv (False, 1124 * 2 ^ 52) = 2 ^ 101"
    by (simp add: double.rval_pair mag_numeral ux_def)
  ultimately show ?thesis by simp
qed

lemma dfin_le: "\<bar>dv x\<bar> \<le> 2 ^ 100 \<Longrightarrow> dfin x"
  using dv_top by (simp add: double.finite_iff)

lemma rd_abs_le: "\<bar>x\<bar> \<le> 2 ^ 100 \<Longrightarrow> \<bar>rd x\<bar> \<le> 2 ^ 100"
  using double.rr_le [of "(False, 1123 * 2 ^ 52)" x] double.rr_le [of "(False, 1123 * 2 ^ 52)" "- x"]
  by (simp only: dv_pow inf_double double.rr_neg) (simp add: abs_le_iff)

text \<open>One rounding costs a relative error of \<open>2 ^ - 53\<close>, and never more than a tiny amount else.\<close>

lemma rd_error: "\<bar>x\<bar> \<le> 2 ^ 100 \<Longrightarrow> \<bar>rd x - x\<bar> \<le> \<bar>x\<bar> / 2 ^ 53 + 1 / 2 ^ 100"
proof -
  assume x: "\<bar>x\<bar> \<le> 2 ^ 100"
  let ?u = "2 ^ ux 52 11 :: real"
  have u: "0 < ?u" "2 ^ 100 \<le> 2 * ?u" by (simp_all add: ux_def)
  have "\<bar>x\<bar> * ?u \<le> 2 ^ 100 * ?u" using x u(1) by (intro mult_right_mono) simp_all
  also have "\<dots> < 2 ^ 101 * ?u" using u(1) by (intro mult_strict_right_mono) simp_all
  also have "\<dots> \<le> real (mag 52 (inf_ix 52 11))"
    using dv_top u(1) by (simp only: double.rval_pair pos_le_divide_eq if_False mult_1 simp_thms)
  finally have "\<bar>x\<bar> * ?u < real (mag 52 (inf_ix 52 11))" .
  then have "\<bar>rd \<bar>x\<bar> - \<bar>x\<bar>\<bar> \<le> \<bar>x\<bar> / 2 ^ 53 + 1 / (2 * ?u)"
    using double.rr_error [of "\<bar>x\<bar>"] by (simp add: inf_double)
  moreover have "1 / (2 * ?u) \<le> 1 / 2 ^ 100" using u by (intro divide_left_mono) simp_all
  moreover have "\<bar>rd x - x\<bar> = \<bar>rd \<bar>x\<bar> - \<bar>x\<bar>\<bar>" by (cases "0 \<le> x") (simp_all add: double.rr_neg)
  ultimately show ?thesis by linarith
qed

lemma d_mul:
  "dfin a \<Longrightarrow> dfin b \<Longrightarrow> \<bar>dv a * dv b\<bar> \<le> 2 ^ 100 \<Longrightarrow>
     dv (fp_mul 52 11 a b) = rd (dv a * dv b) \<and> dfin (fp_mul 52 11 a b)"
  using double.rval_mul rd_abs_le by (intro conjI dfin_le) simp_all

lemma d_sub:
  "dfin a \<Longrightarrow> dfin b \<Longrightarrow> \<bar>dv a - dv b\<bar> \<le> 2 ^ 100 \<Longrightarrow>
     dv (fp_sub 52 11 a b) = rd (dv a - dv b) \<and> dfin (fp_sub 52 11 a b)"
  using double.rval_sub rd_abs_le by (intro conjI dfin_le) simp_all

lemma d_lit:
  "0 < b \<Longrightarrow> real a / real b \<le> 2 ^ 100 \<Longrightarrow> dv (f64_lit a b) = rd (real a / real b) \<and> dfin (f64_lit a b)"
  using double.rval_lit [of b a] rd_abs_le [of "real a / real b"]
  by (intro conjI dfin_le) (simp_all add: f64_lit_def)

lemma d_one: "dv (f64_lit 1 1) = 1" "dfin (f64_lit 1 1)"
  using d_lit [of 1 1] double.rr_rval [of "(False, 1023 * 2 ^ 52)"] by (simp_all only: dv_one inf_double) simp_all

lemma d_giga: "dv (f64_lit 1000000000 1) = 1000000000" "dfin (f64_lit 1000000000 1)"
  using d_lit [of 1 1000000000] double.rr_rval [of "(False, 1051 * 2 ^ 52 + 1000000000 * 2 ^ 23)"]
  by (simp_all only: dv_giga inf_double) simp_all

lemma d_scale: "\<bar>dv (f64_lit 4294967296 100000000) - 42.94967296\<bar> \<le> 1 / 2 ^ 47" "dfin (f64_lit 4294967296 100000000)"
  using d_lit [of 100000000 4294967296] rd_error [of "42.94967296"] by simp_all


text \<open>Parts per billion of the wanted trim, and its direction.\<close>

lemma rate_ppb_value:
  assumes "dfin ratio" "\<bar>dv ratio - 1\<bar> \<le> 2 ^ 25"
  shows "dfin (rate_ppb ratio)"
    "\<bar>dv (rate_ppb ratio) - 1000000000 * (dv ratio - 1)\<bar> \<le> 1000000000 * \<bar>dv ratio - 1\<bar> / 2 ^ 51 + 1 / 2 ^ 60"
    "0 \<le> dv (rate_ppb ratio) \<longleftrightarrow> 1 \<le> dv ratio"
proof -
  define x where "x = dv ratio - 1"
  have x: "\<bar>x\<bar> \<le> 2 ^ 25" using assms(2) by (simp add: x_def)
  let ?s = "fp_sub 52 11 ratio (f64_lit 1 1)"
  have s: "dv ?s = rd x" "dfin ?s" using d_sub [OF assms(1) d_one(2), unfolded d_one(1)] x by (simp_all add: x_def)
  have se: "\<bar>rd x - x\<bar> \<le> \<bar>x\<bar> / 2 ^ 53 + 1 / 2 ^ 100" using x by (intro rd_error) simp
  have big: "\<bar>rd x * 1000000000\<bar> \<le> 2 ^ 100" using se x by (simp add: abs_mult)
  have p: "dv (rate_ppb ratio) = rd (rd x * 1000000000)" "dfin (rate_ppb ratio)"
    using d_mul [OF s(2) d_giga(2), unfolded s(1) d_giga(1)] big by (simp_all add: rate_ppb_def)
  then show "dfin (rate_ppb ratio)" by simp
  have "\<bar>rd (rd x * 1000000000) - rd x * 1000000000\<bar> \<le> \<bar>rd x * 1000000000\<bar> / 2 ^ 53 + 1 / 2 ^ 100"
    using big by (rule rd_error)
  also have "\<bar>rd x * 1000000000\<bar> = \<bar>rd x\<bar> * 1000000000" by (simp add: abs_mult)
  finally show "\<bar>dv (rate_ppb ratio) - 1000000000 * (dv ratio - 1)\<bar>
      \<le> 1000000000 * \<bar>dv ratio - 1\<bar> / 2 ^ 51 + 1 / 2 ^ 60"
    unfolding p x_def [symmetric] using se by simp
  show "0 \<le> dv (rate_ppb ratio) \<longleftrightarrow> 1 \<le> dv ratio"
  proof (cases "0 \<le> x")
    case True
    then have "0 \<le> rd (rd x * 1000000000)"
      by (intro double.rr_ge_zero mult_nonneg_nonneg) simp_all
    with True p show ?thesis by (simp add: x_def)
  next
    case False
    let ?u = "2 ^ ux 52 11"
    have tiny: "dv (True, 1) = - 1 / ?u" "snd (True, 1 :: nat) \<le> inf_ix 52 11"
      by (simp_all add: double.rval_pair mag_def inf_double)
    have "x = real_of_int (ival 52 ratio - 2 ^ ux 52 11) / ?u"
      by (simp add: x_def rval_def diff_divide_distrib)
    moreover from this False have "ival 52 ratio - 2 ^ ux 52 11 \<le> - 1"
      by (simp add: not_le divide_less_0_iff)
    then have "real_of_int (ival 52 ratio - 2 ^ ux 52 11) \<le> - 1" by linarith
    ultimately have "x \<le> - 1 / ?u"
      using divide_right_mono [of "real_of_int (ival 52 ratio - 2 ^ ux 52 11)" "- 1" ?u] by simp
    then have "x \<le> dv (True, 1)" by (simp only: tiny(1))
    then have r: "rd x \<le> dv (True, 1)" using tiny(2) by (intro double.rr_le) simp
    moreover have neg: "dv (True, 1) < 0" unfolding tiny(1) by simp
    ultimately have "rd x * 1000000000 \<le> dv (True, 1)" by linarith
    then have "rd (rd x * 1000000000) \<le> dv (True, 1)" using tiny(2) by (intro double.rr_le) simp
    with neg False p show ?thesis by (simp add: x_def)
  qed
qed

text \<open>The register value of so many parts per billion, rounded to the nearest.\<close>

lemma rate_magnitude_value:
  assumes "dfin ppb" "\<bar>dv ppb\<bar> \<le> 2 ^ 56"
  shows "\<bar>real (unat (rate_magnitude far ppb)) - \<bar>dv ppb\<bar> * 42.94967296\<bar> \<le> 1 / 2 + \<bar>dv ppb\<bar> / 2 ^ 46 + 1 / 2 ^ 100"
proof -
  define a where "a = (if fp_lt 52 11 ppb (False, 0) then fp_neg ppb else ppb)"
  let ?k = "f64_lit 4294967296 100000000"
  let ?y = "fp_mul 52 11 a ?k"
  define p where "p = \<bar>dv ppb\<bar>"
  have lt: "fp_lt 52 11 ppb (False, 0) \<longleftrightarrow> dv ppb < 0"
    using assms(1) double.fkey_less [of ppb "(False, 0)"]
    by (simp add: fp_lt_def fp_nan_def double.rval_pair mag_zero inf_double)
  have a: "dv a = p" "dfin a"
    using assms(1) by (simp_all add: lt a_def p_def double.rval_neg double.snd_neg)
  have p: "0 \<le> p" "p \<le> 2 ^ 56" using assms(2) by (simp_all add: p_def)
  have "\<bar>p * dv ?k - p * 42.94967296\<bar> = p * \<bar>dv ?k - 42.94967296\<bar>"
    using p(1) by (simp only: right_diff_distrib [symmetric] abs_mult abs_of_nonneg)
  also have "\<dots> \<le> p * (1 / 2 ^ 47)" using d_scale(1) p(1) by (rule mult_left_mono)
  finally have pk: "\<bar>p * dv ?k - p * 42.94967296\<bar> \<le> p / 2 ^ 47" by simp
  have "0 \<le> dv ?k" using abs_le_D2 [OF d_scale(1)] by simp
  with p(1) have nonneg: "0 \<le> p * dv ?k" by simp
  have big: "\<bar>p * dv ?k\<bar> \<le> 2 ^ 100" using abs_le_D1 [OF pk] nonneg p(2) by simp
  have y: "dv ?y = rd (p * dv ?k)" "dfin ?y"
    using d_mul [OF a(2) d_scale(2), unfolded a(1), OF big] by simp_all
  have "\<bar>rd (p * dv ?k) - p * dv ?k\<bar> \<le> \<bar>p * dv ?k\<bar> / 2 ^ 53 + 1 / 2 ^ 100"
    using big by (rule rd_error)
  then have yk: "\<bar>dv ?y - p * 42.94967296\<bar> \<le> p / 2 ^ 46 + 1 / 2 ^ 100"
    using abs_le_D1 [OF pk] abs_le_D2 [OF pk] p nonneg by (simp add: y abs_le_iff)
  have y0: "0 \<le> dv ?y" using nonneg by (simp add: y double.rr_ge_zero)
  define n where "n = fp_lround 52 11 ?y"
  have n: "\<bar>real_of_int n - dv ?y\<bar> \<le> 1 / 2" unfolding n_def by (rule double.fp_lround_error)
  then have "- 1 < real_of_int n" using y0 by linarith
  then have n0: "0 \<le> n" by linarith
  have "real_of_int n \<le> dv ?y + 1 / 2" using abs_le_D1 [OF n] by linarith
  also have "\<dots> < 2 ^ 63" using abs_le_D1 [OF yk] p by simp
  finally have "real_of_int n < real_of_int (2 ^ 63)" by simp
  then have n1: "n < 2 ^ 63" by (simp only: of_int_less_iff)
  have "rate_magnitude far ppb = word_of_int n"
    unfolding rate_magnitude_def f64_llround_def a_def [symmetric] using n0 n1 y(2) by (simp add: Let_def n_def)
  then have "unat (rate_magnitude far ppb) = nat n"
    using n0 n1 by (simp add: unat_eq_nat_uint uint_word_of_int take_bit_int_eq_self)
  then show ?thesis
    using abs_le_D1 [OF n] abs_le_D2 [OF n] abs_le_D1 [OF yk] abs_le_D2 [OF yk] n0
    by (simp add: p_def abs_le_iff)
qed

lemma rate_adj_word:
  fixes m :: u64 and up :: bool
  assumes "unat m < 2 ^ 30"
  defines "v \<equiv> (if up then ucast m OR LAN9250_1588_CLOCK_RATE_ADJ_DIR else ucast m)"
  shows "unat (v AND 0x3FFFFFFF) = unat m" "bit v 31 \<longleftrightarrow> up"
proof -
  have m: "unat (ucast m :: u32) = unat m"
    using assms(1) by (simp add: unsigned_ucast_eq take_bit_nat_eq_self)
  have "take_bit 30 m = m"
    using assms(1) by (simp add: word_unat_eq_iff unsigned_take_bit_eq take_bit_nat_eq_self)
  then have bits: "bit m n \<Longrightarrow> n < 30" for n by (metis bit_take_bit_iff)
  have d: "LAN9250_1588_CLOCK_RATE_ADJ_DIR = push_bit 31 1"
    by (simp add: LAN9250_1588_CLOCK_RATE_ADJ_DIR_def)
  have dir: "bit LAN9250_1588_CLOCK_RATE_ADJ_DIR n \<longleftrightarrow> n = 31" for n
    unfolding d bit_push_bit_iff bit_1_iff by auto
  have ones: "(0x3FFFFFFF :: u32) = mask 30" by (simp add: mask_eq_exp_minus_1)
  show "bit v 31 \<longleftrightarrow> up" using bits [of 31] by (auto simp: v_def dir bit_simps)
  have "v AND 0x3FFFFFFF = (ucast m :: u32)"
    unfolding ones v_def using bits by (intro bit_word_eqI) (auto simp: dir bit_simps)
  with m show "unat (v AND 0x3FFFFFFF) = unat m" by simp
qed

text \<open>The magnitude is near the wanted one, and the sign of the deviation survives the rounding.\<close>

lemma trim_near:
  assumes "dfin ratio" "x = \<bar>dv ratio - 1\<bar>" "x \<le> 2 ^ 25"
  shows "\<bar>real (unat (rate_magnitude far (rate_ppb ratio))) - 42949672960 * x\<bar> \<le>
      1 / 2 + 42949672960 * x / 2 ^ 49 + 1 / 2 ^ 50"
    and "fp_le 52 11 (False, 0) (rate_ppb ratio) \<longleftrightarrow> 1 \<le> dv ratio"
proof -
  define ppb where "ppb = rate_ppb ratio"
  have x: "0 \<le> x" using assms(2) by simp
  note p = rate_ppb_value [OF assms(1), folded assms(2) ppb_def, OF assms(3)]
  have "\<bar>\<bar>dv ppb\<bar> - 1000000000 * x\<bar> \<le> 1000000000 * x / 2 ^ 51 + 1 / 2 ^ 60"
    using p(2) by (simp add: assms(2) abs_if split: if_splits)
  moreover from this x assms(3) have "\<bar>dv ppb\<bar> \<le> 2 ^ 56" by simp
  with p(1) have "\<bar>real (unat (rate_magnitude far ppb)) - \<bar>dv ppb\<bar> * 42.94967296\<bar> \<le>
      1 / 2 + \<bar>dv ppb\<bar> / 2 ^ 46 + 1 / 2 ^ 100"
    by (rule rate_magnitude_value)
  ultimately show "\<bar>real (unat (rate_magnitude far (rate_ppb ratio))) - 42949672960 * x\<bar> \<le>
      1 / 2 + 42949672960 * x / 2 ^ 49 + 1 / 2 ^ 50"
    using x unfolding ppb_def [symmetric] by (simp add: abs_le_iff)
  show "fp_le 52 11 (False, 0) (rate_ppb ratio) \<longleftrightarrow> 1 \<le> dv ratio"
    using p double.fkey_le [of "(False, 0)" ppb] unfolding ppb_def [symmetric]
    by (simp add: fp_le_def fp_nan_def double.rval_pair mag_zero inf_double)
qed

text \<open>
  C24: A rate trim is as accurate as its register. For a finite ratio, the value written is within
  half a unit of the register (one part in \<open>10 * 2 ^ 32\<close>) and \<open>2 ^ - 19\<close> of the wanted deviation
  from one, all the rounding of the \<open>double\<close> arithmetic included, and its direction bit says whether
  the clock is to run faster; a deviation of a fortieth or more, which the register cannot hold,
  is refused with \<open>- ERANGE\<close> and nothing is written.
\<close>

theorem rate_trim_accurate:
  assumes "dfin ratio"
  shows "let wanted = \<bar>dv ratio - 1\<bar> * (10 * 2 ^ 32) in
    (wanted \<le> 2 ^ 30 - 1 \<longrightarrow>
      (\<exists>v. lan9250_ptp_clock_rate_adjust E far ratio s =
           lan9250_write_sys_reg E LAN9250_1588_CLOCK_RATE_ADJ v s \<and>
         \<bar>real (unat (v AND 0x3FFFFFFF)) - wanted\<bar> \<le> 1 / 2 + 1 / 2 ^ 19 \<and>
         (bit v 31 \<longleftrightarrow> 1 \<le> dv ratio))) \<and>
    (2 ^ 30 \<le> wanted \<and> wanted \<le> 2 ^ 60 \<longrightarrow>
      lan9250_ptp_clock_rate_adjust E far ratio s = Some (- ERANGE, s))"
proof -
  define wanted where "wanted = \<bar>dv ratio - 1\<bar> * (10 * 2 ^ 32)"
  define ppb where "ppb = rate_ppb ratio"
  define m where "m = rate_magnitude far ppb"
  have near: "\<bar>real (unat m) - wanted\<bar> \<le> 1 / 2 + wanted / 2 ^ 49 + 1 / 2 ^ 50"
    and dir: "fp_le 52 11 (False, 0) ppb \<longleftrightarrow> 1 \<le> dv ratio" if "wanted \<le> 2 ^ 60"
    using trim_near(1) [OF assms refl, of far] trim_near(2) [OF assms refl] that by (simp_all add: wanted_def m_def ppb_def mult.commute)
  have run: "lan9250_ptp_clock_rate_adjust E far ratio s =
    (if 2 ^ 30 \<le> unat m then Some (- ERANGE, s)
     else lan9250_write_sys_reg E LAN9250_1588_CLOCK_RATE_ADJ (if fp_le 52 11 (False, 0) ppb
       then ucast m OR LAN9250_1588_CLOCK_RATE_ADJ_DIR else ucast m) s)"
    by (auto simp: lan9250_ptp_clock_rate_adjust_def ppb_def m_def LAN9250_1588_CLOCK_RATE_ADJ_VALUE_MASK_def
        Let_def)
  have "\<exists>v. lan9250_ptp_clock_rate_adjust E far ratio s =
      lan9250_write_sys_reg E LAN9250_1588_CLOCK_RATE_ADJ v s \<and>
    \<bar>real (unat (v AND 0x3FFFFFFF)) - wanted\<bar> \<le> 1 / 2 + 1 / 2 ^ 19 \<and> (bit v 31 \<longleftrightarrow> 1 \<le> dv ratio)"
    if w: "wanted \<le> 2 ^ 30 - 1"
  proof -
    have w60: "wanted \<le> 2 ^ 60" using w by simp
    have "real (unat m) < real (2 ^ 30)" using near [OF w60] w by (simp add: abs_le_iff)
    then have m: "unat m < 2 ^ 30" by (simp only: of_nat_less_iff)
    note word = rate_adj_word [OF m, of "fp_le 52 11 (False, 0) ppb"]
    show ?thesis
      using near [OF w60] w m dir [OF w60] word unfolding run
      by (intro exI [of _ "if fp_le 52 11 (False, 0) ppb
         then ucast m OR LAN9250_1588_CLOCK_RATE_ADJ_DIR else ucast m"]) (simp split del: if_split)
  qed
  moreover have "lan9250_ptp_clock_rate_adjust E far ratio s = Some (- ERANGE, s)"
    if "2 ^ 30 \<le> wanted" "wanted \<le> 2 ^ 60"
  proof -
    have "wanted - 1 / 2 - wanted / 2 ^ 49 - 1 / 2 ^ 50 \<le> real (unat m)"
      using near [OF that(2)] by (simp add: abs_le_iff)
    with that(1) have "real (2 ^ 30 - 1) < real (unat m)" by simp
    then have "2 ^ 30 - 1 < unat m" by (simp only: of_nat_less_iff)
    then show ?thesis unfolding run by simp
  qed
  ultimately show ?thesis unfolding Let_def wanted_def [symmetric] by blast
qed

lemma rate_trim_accurate_witness:
  "\<exists>v. lan9250_ptp_clock_rate_adjust calm (\<lambda>_. 0) (False, 1023 * 2 ^ 52 + 2 ^ 42) lan0 =
      lan9250_write_sys_reg calm LAN9250_1588_CLOCK_RATE_ADJ v lan0 \<and>
    \<bar>real (unat (v AND 0x3FFFFFFF)) - 41943040\<bar> \<le> 1 / 2 + 1 / 2 ^ 19 \<and> bit v 31"
proof -
  have v: "dv (False, 1023 * 2 ^ 52 + 2 ^ 42) = 1 + 1 / 2 ^ 10"
    by (simp add: double.rval_pair mag_numeral ux_def)
  have "dfin (False, 1023 * 2 ^ 52 + 2 ^ 42)" by (simp add: inf_double)
  from rate_trim_accurate [OF this, of calm "\<lambda>_. 0" lan0] show ?thesis
    unfolding v Let_def by simp
qed


section \<open>Setting, then reading\<close>

definition tm_ns :: "net_ptp_time \<Rightarrow> int" where
  "tm_ns tm = uint (second tm) * ns_per_s + uint (nanosecond tm)"

lemma clock_ns_ucast: "clock_ns (ucast (second tm)) (nanosecond tm) mod clock_period = tm_ns tm mod clock_period"
proof -
  have "uint (ucast (second tm) :: u32) = uint (second tm) mod 2 ^ 32"
    by (simp add: unsigned_ucast_eq take_bit_eq_mod)
  moreover have "(a mod 2 ^ 32) * ns_per_s = (a * ns_per_s) mod clock_period" for a :: int
    by (simp add: mult_mod_left)
  ultimately show ?thesis
    unfolding clock_ns_def tm_ns_def by (simp only: mod_add_left_eq)
qed

text \<open>
  C25: What is set is read back. Through the clock device, on a working bus, a time that is set can be
  read, and the time read is the one that was set plus what the chip's clock has advanced since,
  modulo the \<open>2 ^ 32\<close> seconds the chip can count; seconds beyond these 32 bits are lost.
\<close>

theorem clock_set_get:
  assumes "bus_works E" "reads_clock E now" "loads_clock E now"
  shows "\<exists>r u tm' t. lan9250_ptp_clock_api_set E tm s = Some (r, u) \<and> 0 \<le> r \<and>
    lan9250_ptp_clock_api_get E tm0 u = Some (0, tm', t) \<and>
    (let snap = spi_write E LAN9250_1588_CMD_CTL LAN9250_1588_CMD_CTL_CLOCK_READ # trace u
     in tm_ns tm' = (tm_ns tm + (now snap - now (trace u))) mod clock_period)"
proof -
  obtain r u where set: "lan9250_ptp_clock_api_set E tm s = Some (r, u)" "0 \<le> r"
    "now (trace u) = clock_ns (ucast (second tm)) (nanosecond tm)"
    using clock_set_runs [OF assms(1,3)] unfolding lan9250_ptp_clock_api_set_def by blast
  define snap where "snap = spi_write E LAN9250_1588_CMD_CTL LAN9250_1588_CMD_CTL_CLOCK_READ # trace u"
  define sec ns where sn: "sec = (word_of_int (now snap div ns_per_s) :: u32)"
    "ns = (word_of_int (now snap mod ns_per_s) :: u32)"
  define tm' where "tm' = tm0\<lparr>second := ucast sec, nanosecond := ns\<rparr>"
  obtain t where get: "lan9250_ptp_clock_api_get E tm0 u = Some (0, tm', t)"
    using clock_read_runs [OF assms(1,2), of u]
    by (simp add: lan9250_ptp_clock_api_get_def tm'_def sn snap_def)
  have "uint sec < 2 ^ 64" using uint_bounded [of sec] by simp
  then have "tm_ns tm' = clock_ns sec ns"
    by (simp add: tm'_def tm_ns_def clock_ns_def unsigned_ucast_eq take_bit_int_eq_self)
  also have "\<dots> = now snap mod clock_period" unfolding sn by (rule clock_ns_split)
  also have "now snap = now (trace u) + (now snap - now (trace u))" by simp
  also have "\<dots> mod clock_period = (tm_ns tm + (now snap - now (trace u))) mod clock_period"
    unfolding set(3) using clock_ns_ucast [of tm] by (rule mod_add_cong) simp
  finally show ?thesis using set get unfolding snap_def Let_def by blast
qed

section \<open>Arming the pulse\<close>

definition reading :: "lan_env \<Rightarrow> u16 \<Rightarrow> ev list \<Rightarrow> u32" where
  "reading E a h = le32 (spi_rx E (spi_read E a # h))"

text \<open>A trace the run went through.\<close>

definition past :: "ev list \<Rightarrow> lan \<Rightarrow> bool" where
  "past h t \<longleftrightarrow> (\<exists>later. trace t = later @ h)"

lemma pps_words:
  assumes "n < 32"
  shows "bit (led AND NOT (LAN9250_LED_CFG_LED_EN 1)) n \<longleftrightarrow> bit led n \<and> n \<noteq> 1"
    "bit (pps_gpio_cfg w) n \<longleftrightarrow> n \<in> {1, 9, 17} \<or> bit w n \<and> n \<noteq> 25"
    "bit (pps_general_config w) n \<longleftrightarrow> bit w n \<and> n \<notin> {0, 2, 3}"
proof -
  have c: "bit LAN9250_1588_GENERAL_CONFIG_CLOCK_EVENT_A_MASK n \<longleftrightarrow> n = 2 \<or> n = 3"
    "bit LAN9250_1588_GENERAL_CONFIG_RELOAD_ADD_A n \<longleftrightarrow> n = 0"
  proof -
    have m: "LAN9250_1588_GENERAL_CONFIG_CLOCK_EVENT_A_MASK = push_bit 2 1 OR push_bit 3 1"
      by (simp add: LAN9250_1588_GENERAL_CONFIG_CLOCK_EVENT_A_MASK_def)
    show "bit LAN9250_1588_GENERAL_CONFIG_CLOCK_EVENT_A_MASK n \<longleftrightarrow> n = 2 \<or> n = 3"
      unfolding m bit_or_iff bit_push_bit_iff bit_1_iff using assms by auto
  qed (simp add: LAN9250_1588_GENERAL_CONFIG_RELOAD_ADD_A_def bit_1_iff)
  show "bit (led AND NOT (LAN9250_LED_CFG_LED_EN 1)) n \<longleftrightarrow> bit led n \<and> n \<noteq> 1"
    "bit (pps_gpio_cfg w) n \<longleftrightarrow> n \<in> {1, 9, 17} \<or> bit w n \<and> n \<noteq> 25"
    "bit (pps_general_config w) n \<longleftrightarrow> bit w n \<and> n \<notin> {0, 2, 3}"
    using assms
    by (auto simp: LAN9250_LED_CFG_LED_EN_def pps_gpio_cfg_def pps_general_config_def
        LAN9250_GPIO_CFG_GPIOBUF_def LAN9250_GPIO_CFG_GPIO_POL_def LAN9250_GPIO_CFG_1588_GPIO_CH_SEL_def
        LAN9250_GPIO_CFG_1588_GPIO_OE_def LAN9250_1588_CLOCK_EVENT_MODE_100NS_PULSE_def
        bit_and_iff bit_or_iff bit_not_iff bit_BIT c)
qed

text \<open>The run, step by step.\<close>

lemma pps_enable_runs:
  assumes "bus_works E" "reads_clock E now"
  obtains led gpio config h2 h3 h4 snap where
    "led = reading E LAN9250_LED_CFG (trace s) AND NOT (LAN9250_LED_CFG_LED_EN 1)"
    "h2 = spi_write E LAN9250_LED_CFG led # spi_read E LAN9250_LED_CFG # trace s"
    "gpio = pps_gpio_cfg (reading E LAN9250_GPIO_CFG h2)"
    "h3 = spi_write E LAN9250_GPIO_CFG gpio # spi_read E LAN9250_GPIO_CFG # h2"
    "config = pps_general_config (reading E LAN9250_1588_GENERAL_CONFIG h3)"
    "h4 = spi_write E (LAN9250_1588_CLOCK_TARGET_RELOAD_NS 0) 0 #
      spi_write E (LAN9250_1588_CLOCK_TARGET_RELOAD_SEC 0) 1 #
      spi_write E LAN9250_1588_GENERAL_CONFIG config # spi_read E LAN9250_1588_GENERAL_CONFIG # h3"
    "snap = spi_write E LAN9250_1588_CMD_CTL LAN9250_1588_CMD_CTL_CLOCK_READ # h4"
    "lan9250_1588_pps_enable E s = Some (0, s\<lparr>trace := spi_write E (LAN9250_1588_CLOCK_TARGET_NS 0) 0 #
      spi_write E (LAN9250_1588_CLOCK_TARGET_SEC 0) (word_of_int (now snap div ns_per_s + 2)) #
      spi_read E LAN9250_1588_CLOCK_NS # spi_read E LAN9250_1588_CLOCK_SEC # snap\<rparr>)"
proof -
  define led where "led = reading E LAN9250_LED_CFG (trace s) AND NOT (LAN9250_LED_CFG_LED_EN 1)"
  define h2 where "h2 = spi_write E LAN9250_LED_CFG led # spi_read E LAN9250_LED_CFG # trace s"
  define gpio where "gpio = pps_gpio_cfg (reading E LAN9250_GPIO_CFG h2)"
  define h3 where "h3 = spi_write E LAN9250_GPIO_CFG gpio # spi_read E LAN9250_GPIO_CFG # h2"
  define config where "config = pps_general_config (reading E LAN9250_1588_GENERAL_CONFIG h3)"
  define h4 where "h4 = spi_write E (LAN9250_1588_CLOCK_TARGET_RELOAD_NS 0) 0 #
    spi_write E (LAN9250_1588_CLOCK_TARGET_RELOAD_SEC 0) 1 #
    spi_write E LAN9250_1588_GENERAL_CONFIG config # spi_read E LAN9250_1588_GENERAL_CONFIG # h3"
  define snap where "snap = spi_write E LAN9250_1588_CMD_CTL LAN9250_1588_CMD_CTL_CLOCK_READ # h4"
  note step = then_ok_def query_ok_def lan9250_read_sys_reg_def lan9250_write_sys_reg_def act_def Let_def
  have "lan9250_1588_pps_enable E s =
    query_ok (lan9250_ptp_clock_read E False) (\<lambda>(sec, ns, _). run_cmds
       [lan9250_write_sys_reg E (LAN9250_1588_CLOCK_TARGET_SEC 0) (sec + 2),
        lan9250_write_sys_reg E (LAN9250_1588_CLOCK_TARGET_NS 0) 0, run_cmds []]) (s\<lparr>trace := h4\<rparr>)"
    using assms(1) unfolding lan9250_1588_pps_enable_def
    by (simp add: step h4_def config_def h3_def gpio_def h2_def led_def reading_def)
  then have "lan9250_1588_pps_enable E s = Some (0, s\<lparr>trace := spi_write E (LAN9250_1588_CLOCK_TARGET_NS 0) 0 #
      spi_write E (LAN9250_1588_CLOCK_TARGET_SEC 0) (word_of_int (now snap div ns_per_s + 2)) #
      spi_read E LAN9250_1588_CLOCK_NS # spi_read E LAN9250_1588_CLOCK_SEC # snap\<rparr>)"
    using assms(1) clock_read_runs [OF assms, of "s\<lparr>trace := h4\<rparr>"] by (simp add: step snap_def)
  with led_def h2_def gpio_def h3_def config_def h4_def snap_def show thesis by (rule that)
qed

text \<open>
  C26: The pulse is armed on a whole second that is yet to come. On a working bus
  \<open>lan9250_1588_pps_enable\<close> succeeds and writes, in this order: the LED register with the LED of pin 1
  off, the GPIO register with pin 1 push-pull, active high and driven by channel A, the general
  configuration with channel A giving 100 ns pulses and advancing its own target, every other bit
  of the three as it was read; a period of exactly one second; and a target on a whole second that
  is more than one and at most two seconds after the snapshot of the clock.
\<close>

theorem pps_armed:
  assumes "byte_order E" "bus_works E" "reads_clock E now"
  shows "\<exists>t h1 h2 h3 snap led gpio config target.
    lan9250_1588_pps_enable E s = Some (0, t) \<and>
    writes (trace t) = writes (trace s) @
      [(LAN9250_LED_CFG, led), (LAN9250_GPIO_CFG, gpio), (LAN9250_1588_GENERAL_CONFIG, config),
       (LAN9250_1588_CLOCK_TARGET_RELOAD_SEC 0, 1), (LAN9250_1588_CLOCK_TARGET_RELOAD_NS 0, 0),
       (LAN9250_1588_CMD_CTL, LAN9250_1588_CMD_CTL_CLOCK_READ),
       (LAN9250_1588_CLOCK_TARGET_SEC 0, word_of_int target), (LAN9250_1588_CLOCK_TARGET_NS 0, 0)] \<and>
    (\<forall>n<32. (bit led n \<longleftrightarrow> bit (reading E LAN9250_LED_CFG h1) n \<and> n \<noteq> 1) \<and>
       (bit gpio n \<longleftrightarrow> n \<in> {1, 9, 17} \<or> bit (reading E LAN9250_GPIO_CFG h2) n \<and> n \<noteq> 25) \<and>
       (bit config n \<longleftrightarrow> bit (reading E LAN9250_1588_GENERAL_CONFIG h3) n \<and> n \<notin> {0, 2, 3})) \<and>
    past (spi_read E LAN9250_LED_CFG # h1) t \<and> past (spi_read E LAN9250_GPIO_CFG # h2) t \<and>
    past (spi_read E LAN9250_1588_GENERAL_CONFIG # h3) t \<and> past snap t \<and>
    hd snap = spi_write E LAN9250_1588_CMD_CTL LAN9250_1588_CMD_CTL_CLOCK_READ \<and>
    now snap + ns_per_s < target * ns_per_s \<and> target * ns_per_s \<le> now snap + 2 * ns_per_s"
proof (rule pps_enable_runs [OF assms(2,3), of s])
  fix led gpio config h2 h3 h4 snap
  assume e: "led = reading E LAN9250_LED_CFG (trace s) AND NOT (LAN9250_LED_CFG_LED_EN 1)"
    "h2 = spi_write E LAN9250_LED_CFG led # spi_read E LAN9250_LED_CFG # trace s"
    "gpio = pps_gpio_cfg (reading E LAN9250_GPIO_CFG h2)"
    "h3 = spi_write E LAN9250_GPIO_CFG gpio # spi_read E LAN9250_GPIO_CFG # h2"
    "config = pps_general_config (reading E LAN9250_1588_GENERAL_CONFIG h3)"
    "h4 = spi_write E (LAN9250_1588_CLOCK_TARGET_RELOAD_NS 0) 0 #
      spi_write E (LAN9250_1588_CLOCK_TARGET_RELOAD_SEC 0) 1 #
      spi_write E LAN9250_1588_GENERAL_CONFIG config # spi_read E LAN9250_1588_GENERAL_CONFIG # h3"
    "snap = spi_write E LAN9250_1588_CMD_CTL LAN9250_1588_CMD_CTL_CLOCK_READ # h4"
  define target where "target = now snap div ns_per_s + 2"
  let ?t = "s\<lparr>trace := spi_write E (LAN9250_1588_CLOCK_TARGET_NS 0) 0 #
    spi_write E (LAN9250_1588_CLOCK_TARGET_SEC 0) (word_of_int target) #
    spi_read E LAN9250_1588_CLOCK_NS # spi_read E LAN9250_1588_CLOCK_SEC # snap\<rparr>"
  assume "lan9250_1588_pps_enable E s = Some (0, s\<lparr>trace := spi_write E (LAN9250_1588_CLOCK_TARGET_NS 0) 0 #
      spi_write E (LAN9250_1588_CLOCK_TARGET_SEC 0) (word_of_int (now snap div ns_per_s + 2)) #
      spi_read E LAN9250_1588_CLOCK_NS # spi_read E LAN9250_1588_CLOCK_SEC # snap\<rparr>)"
  then have "lan9250_1588_pps_enable E s = Some (0, ?t)" by (simp only: target_def)
  moreover have "writes (trace ?t) = writes (trace s) @
      [(LAN9250_LED_CFG, led), (LAN9250_GPIO_CFG, gpio), (LAN9250_1588_GENERAL_CONFIG, config),
       (LAN9250_1588_CLOCK_TARGET_RELOAD_SEC 0, 1), (LAN9250_1588_CLOCK_TARGET_RELOAD_NS 0, 0),
       (LAN9250_1588_CMD_CTL, LAN9250_1588_CMD_CTL_CLOCK_READ),
       (LAN9250_1588_CLOCK_TARGET_SEC 0, word_of_int target), (LAN9250_1588_CLOCK_TARGET_NS 0, 0)]"
    using assms(1) by (simp add: e(2,4,6,7) writes_Cons listed_def dev_eval)
  moreover have "past (spi_read E LAN9250_LED_CFG # trace s) ?t" "past (spi_read E LAN9250_GPIO_CFG # h2) ?t"
    "past (spi_read E LAN9250_1588_GENERAL_CONFIG # h3) ?t" "past snap ?t"
    unfolding past_def e(2,4,6,7) by simp_all
  moreover have "hd snap = spi_write E LAN9250_1588_CMD_CTL LAN9250_1588_CMD_CTL_CLOCK_READ" by (simp add: e(7))
  moreover have "now snap + ns_per_s < target * ns_per_s" "target * ns_per_s \<le> now snap + 2 * ns_per_s"
    using div_mult_mod_eq [of "now snap" ns_per_s] pos_mod_bound [of ns_per_s "now snap"]
      pos_mod_sign [of ns_per_s "now snap"] by (simp_all add: target_def algebra_simps)
  ultimately show ?thesis
    using pps_words
    by (intro exI [of _ ?t] exI [of _ "trace s"] exI [of _ h2] exI [of _ h3] exI [of _ snap]
        exI [of _ led] exI [of _ gpio] exI [of _ config] exI [of _ target])
      (simp add: e(1,3,5))
qed

section \<open>A chip for the examples\<close>

text \<open>Its clock registers and its clock, which counts ten nanoseconds per event.\<close>

fun chip :: "ev list \<Rightarrow> u32 \<times> u32 \<times> int" where
  "chip [] = (0, 0, 0)"
| "chip (e # h) = (let (sec, ns, clock) = chip h; t = clock + 10 in
     case written e of
       None \<Rightarrow> (sec, ns, t)
     | Some (a, d) \<Rightarrow>
         if a = LAN9250_1588_CLOCK_SEC then (d, ns, t)
         else if a = LAN9250_1588_CLOCK_NS then (sec, d, t)
         else if a = LAN9250_1588_CMD_CTL \<and> d = LAN9250_1588_CMD_CTL_CLOCK_READ
         then (word_of_int (t div ns_per_s), word_of_int (t mod ns_per_s), t)
         else if a = LAN9250_1588_CMD_CTL \<and> d = LAN9250_1588_CMD_CTL_CLOCK_LOAD
         then (sec, ns, clock_ns sec ns)
         else (sec, ns, t))"

definition chip_time :: "ev list \<Rightarrow> int" where
  "chip_time h = snd (snd (chip h))"

definition clock_chip :: lan_env where
  "clock_chip = calm\<lparr>spi_rx := \<lambda>h. sys_put_le32 calm
     (if h \<noteq> [] \<and> hd h = spi_read calm LAN9250_1588_CLOCK_SEC then fst (chip h)
      else if h \<noteq> [] \<and> hd h = spi_read calm LAN9250_1588_CLOCK_NS then fst (snd (chip h))
      else 0)\<rparr>"

lemma le32_put: "le32 (sys_put_le32 calm w) = w"
proof -
  have "le32 (sys_put_le32 calm w) = ucast (ucast w :: u8) OR push_bit 8 (ucast (ucast (drop_bit 8 w) :: u8)) OR
     push_bit 16 (ucast (ucast (drop_bit 16 w) :: u8)) OR
     push_bit 24 (ucast (ucast (drop_bit 24 w) :: u8))"
    by (rule bit_word_eqI) (auto simp: le32_def calm_def bit_simps)
  also have "\<dots> = w" by (rule le32_bytes)
  finally show ?thesis .
qed

lemma clock_chip_ok:
  "byte_order clock_chip" "bus_works clock_chip" "reads_clock clock_chip chip_time" "loads_clock clock_chip chip_time"
proof -
  have same: "spi_write clock_chip = spi_write calm" "spi_read clock_chip = spi_read calm"
    by (intro ext; simp add: spi_write_def spi_read_def clock_chip_def)+
  have ne: "spi_read calm LAN9250_1588_CLOCK_NS \<noteq> spi_read calm LAN9250_1588_CLOCK_SEC"
    by (simp add: spi_read_def calm_def dev_eval)
  note w = written_write [OF calm_byte_order] written_read [OF calm_byte_order]
  show "byte_order clock_chip" "bus_works clock_chip"
    using calm_byte_order by (simp_all add: byte_order_def clock_chip_def bus_works_def) (simp add: calm_def)
  show "loads_clock clock_chip chip_time"
    unfolding loads_clock_def same chip_time_def by (simp add: w Let_def split_beta dev_eval)
  show "reads_clock clock_chip chip_time"
  proof -
    have cmd: "LAN9250_1588_CMD_CTL \<noteq> LAN9250_1588_CLOCK_SEC" "LAN9250_1588_CMD_CTL \<noteq> LAN9250_1588_CLOCK_NS"
      by (simp_all add: dev_eval)
    have rd: "spi_rx clock_chip h = sys_put_le32 calm
      (if h \<noteq> [] \<and> hd h = spi_read calm LAN9250_1588_CLOCK_SEC then fst (chip h)
       else if h \<noteq> [] \<and> hd h = spi_read calm LAN9250_1588_CLOCK_NS then fst (snd (chip h)) else 0)" for h
      by (simp add: clock_chip_def)
    show ?thesis
      unfolding reads_clock_def same chip_time_def Let_def
      by (simp add: rd le32_put w ne cmd split_beta Let_def)
  qed
qed

lemma clock_adjust_adds_witness:
  "\<exists>r t. lan9250_ptp_clock_adjust clock_chip (- 1000000000) lan0 = Some (r, t) \<and> chip_time (trace t) = 2 ^ 32 * ns_per_s - 999999990"
proof -
  have "chip_time [spi_write clock_chip LAN9250_1588_CMD_CTL LAN9250_1588_CMD_CTL_CLOCK_READ] = 10"
    using clock_chip_ok(1) by (simp add: chip_time_def dev_eval)
  with clock_adjust_adds [OF clock_chip_ok(2-4), of "- 1000000000" lan0] show ?thesis
    by (auto simp: lan0_def)
qed

lemma clock_set_get_witness:
  "\<exists>r u tm' t. lan9250_ptp_clock_api_set clock_chip \<lparr>second = 7, nanosecond = 9\<rparr> lan0 = Some (r, u) \<and>
    lan9250_ptp_clock_api_get clock_chip \<lparr>second = 0, nanosecond = 0\<rparr> u = Some (0, tm', t) \<and>
    tm_ns tm' = 7000000019"
proof -
  have "chip_time (spi_write clock_chip LAN9250_1588_CMD_CTL LAN9250_1588_CMD_CTL_CLOCK_READ # h)
      = chip_time h + 10" for h
    using clock_chip_ok(1) by (simp add: chip_time_def split_beta Let_def dev_eval)
  with clock_set_get [OF clock_chip_ok(2-4), of "\<lparr>second = 7, nanosecond = 9\<rparr>" lan0
      "\<lparr>second = 0, nanosecond = 0\<rparr>"]
  show ?thesis by (auto simp: Let_def tm_ns_def)
qed

lemma pps_armed_witness: "\<exists>t. lan9250_1588_pps_enable clock_chip lan0 = Some (0, t)"
  using pps_armed [OF clock_chip_ok(1-3), of lan0] by blast

end
