(* ===== verification/Lan_Driver.thy ===== *)
theory Lan_Driver
  imports Lan_RxTx Lan_Filter Ptp_Clock
begin

text \<open>
  The driver as a whole: the operations the kernel may call (\<open>api_funcs\<close>, the clock device, the
  interrupt callback) and the turns of its thread, in any order and number. What a relation between
  the states before and after a step must satisfy to hold across all of them is a locale; the shape
  of the runtime struct, the packet references and, in \<open>Lan_Interleave\<close>, the register bank are its
  instances.
\<close>

section \<open>Registers in events\<close>

text \<open>The register a transfer addresses, the word it writes, and the window the bank select maps.\<close>

fun reg_of :: "ev \<Rightarrow> u16 option" where
  "reg_of (Spi (i # h # l # rest) n) = Some (push_bit 8 (ucast h) OR ucast l)"
| "reg_of e = None"

fun word_of :: "ev \<Rightarrow> u32" where
  "word_of (Spi (i # h # l # rest) n) = le32 rest"
| "word_of e = 0"

definition banked :: "u16 \<Rightarrow> bool" where
  "banked a \<longleftrightarrow> 0x158 \<le> a \<and> a \<le> 0x18C"

text \<open>Transfers outside the window and everything else that touches neither the bank lock nor a
  packet's references.\<close>

definition ordinary :: "ev \<Rightarrow> bool" where
  "ordinary e \<longleftrightarrow> (\<forall>a. reg_of e = Some a \<longrightarrow> a \<noteq> LAN9250_1588_BANK_PORT_GPIO_SEL \<and> \<not> banked a) \<and>
     e \<noteq> Lock Bank_lock \<and> e \<noteq> Unlock Bank_lock \<and>
     (\<forall>p. e \<noteq> Pkt_ref p \<and> e \<noteq> Pkt_unref p \<and> e \<noteq> Net_recv p)"

lemma reg_of_spi:
  assumes "byte_order E"
  shows "reg_of (spi_write E a d) = Some a" "reg_of (spi_read E a) = Some a"
    "word_of (spi_write E a d) = d"
  using assms le32_put [of d] by (simp_all add: spi_write_def spi_read_def byte_order_def be16_bytes calm_def)

lemma ordinary_spi:
  assumes "byte_order E"
  shows "ordinary (spi_write E a d) \<longleftrightarrow> a \<noteq> LAN9250_1588_BANK_PORT_GPIO_SEL \<and> \<not> banked a"
    "ordinary (spi_read E a) \<longleftrightarrow> a \<noteq> LAN9250_1588_BANK_PORT_GPIO_SEL \<and> \<not> banked a"
  using reg_of_spi [OF assms] by (auto simp: ordinary_def spi_write_def spi_read_def)

lemma ordinary_simps [simp]:
  "ordinary (Busy_wait n)" "ordinary (Sleep_ms n)" "ordinary (Sleep_us n)" "ordinary (Lock Hash_lock)"
  "ordinary (Unlock Hash_lock)" "ordinary (Sem_take m)" "ordinary (Sem_give m)" "ordinary (Pkt_alloc n)"
  "ordinary (Pkt_read p n)" "ordinary (Buf_add p n)" "ordinary (Set_timestamp p a b)"
  "ordinary (Tx_timestamp p)" "ordinary (Carrier up)" "ordinary Rx_error" "ordinary Mac_load"
  "ordinary Gpio_configure" "ordinary Gpio_callback" "ordinary Gpio_interrupt"
  "ordinary Reset_configure" "ordinary (Reset_set up)"
  by (simp_all add: ordinary_def)

lemma ordinary_indirect: "byte_order E \<Longrightarrow> indirect_ok E ordinary"
  by (simp add: indirect_ok_def ordinary_spi banked_def dev_eval)

section \<open>What every step keeps\<close>

text \<open>The arrays of the runtime struct have the sizes they are declared with.\<close>

definition shape :: "lan_env \<Rightarrow> lan \<Rightarrow> bool" where
  "shape E s \<longleftrightarrow> wf s \<and> length (mac_address s) = 6 \<and> length (txbuf s) = NET_ETH_MAX_FRAME E \<and>
     length (mcast_hash_refcount s) = 64"

text \<open>The surroundings behave: byte order, buffers that are not empty, packets that fit the transmit
  buffer and are read whole, a device id as long as it says, an address loader that keeps six bytes.\<close>

definition env_ok :: "lan_env \<Rightarrow> bool" where
  "env_ok E \<longleftrightarrow> byte_order E \<and> reads_be16 E \<and> 0 < NET_BUF_DATA_SIZE E \<and>
     (\<forall>p. reads_whole E p \<and> net_pkt_len E p \<le> NET_ETH_MAX_FRAME E) \<and>
     int (length (snd (hwinfo_device_id E))) = fst (hwinfo_device_id E) \<and>
     (\<forall>m. length (mac_load E m) = length m)"

locale step_relation =
  fixes E :: lan_env and R :: "lan \<Rightarrow> lan \<Rightarrow> bool"
  assumes env: "env_ok E"
    and refl: "R s s"
    and trans: "R s t \<Longrightarrow> R t u \<Longrightarrow> R s u"
    and keeps_shape: "R s t \<Longrightarrow> shape E s \<Longrightarrow> shape E t"
    and event: "ordinary e \<Longrightarrow> R s (act e s)"
begin

definition steps :: "lan cmd \<Rightarrow> bool" where
  "steps m \<longleftrightarrow> (\<forall>s r t. shape E s \<longrightarrow> m s = Some (r, t) \<longrightarrow> R s t)"

lemma stepsD: "steps m \<Longrightarrow> shape E s \<Longrightarrow> m s = Some (r, t) \<Longrightarrow> R s t"
  unfolding steps_def by blast

lemma bytes: "byte_order E"
  using env by (simp add: env_ok_def)

lemma events: "list_all ordinary new \<Longrightarrow> R s (s\<lparr>trace := new @ trace s\<rparr>)"
proof (induction new)
  case Nil
  then show ?case by (simp add: refl)
next
  case (Cons e new)
  then have "R s (act e (s\<lparr>trace := new @ trace s\<rparr>))" by (auto intro: trans event)
  then show ?case by (simp add: act_def)
qed

lemma extends_R: "extends ordinary s t \<Longrightarrow> R s t"
  using events by (auto simp: extends_def)

lemma steps_emits: "emits ordinary m \<Longrightarrow> steps m"
  unfolding steps_def emits_def using extends_R by blast

lemma steps_then: "steps m \<Longrightarrow> steps n \<Longrightarrow> steps (then_ok m n)"
  unfolding steps_def then_ok_def
  by (auto simp: bind_eq_Some_conv split: if_splits) (meson keeps_shape trans)

lemma steps_run: "list_all steps ms \<Longrightarrow> steps (run_cmds ms)"
proof (induction ms rule: induct_list012)
  case 1
  then show ?case by (simp add: steps_def refl)
next
  case (2 m)
  then show ?case by (simp add: steps_def)
next
  case (3 m n ms)
  have "run_cmds (m # n # ms) = then_ok m (run_cmds (n # ms))" by (rule run_cmds_fun)
  with 3 show ?case by (simp add: steps_then)
qed

lemma steps_query: "emits_q ordinary q \<Longrightarrow> (\<And>v. steps (k v)) \<Longrightarrow> steps (query_ok q k)"
  unfolding steps_def emits_q_def query_ok_def
  by (auto simp: bind_eq_Some_conv split: if_splits) (meson extends_R keeps_shape trans)+

lemma steps_ret: "steps (\<lambda>s. Some (r, s))"
  by (simp add: steps_def refl)

lemma steps_if: "steps m \<Longrightarrow> steps n \<Longrightarrow> steps (if c then m else n)"
  by simp

lemma steps_read: "a \<noteq> LAN9250_1588_BANK_PORT_GPIO_SEL \<Longrightarrow> \<not> banked a \<Longrightarrow>
    emits_q ordinary (lan9250_read_sys_reg E a)"
  using bytes by (intro emits_read) (simp add: ordinary_spi)

lemma steps_write: "a \<noteq> LAN9250_1588_BANK_PORT_GPIO_SEL \<Longrightarrow> \<not> banked a \<Longrightarrow>
    steps (lan9250_write_sys_reg E a d)"
  using bytes by (intro steps_emits emits_write) (simp add: ordinary_spi)

lemma query_R: "emits_q ordinary q \<Longrightarrow> q s = Some (r, v, t) \<Longrightarrow> R s t"
  unfolding emits_q_def using extends_R by blast

lemma cmd_R: "emits ordinary m \<Longrightarrow> m s = Some (r, t) \<Longrightarrow> R s t"
  unfolding emits_def using extends_R by blast

lemma emits_plain: "a \<noteq> LAN9250_1588_BANK_PORT_GPIO_SEL \<Longrightarrow> \<not> banked a \<Longrightarrow>
    emits ordinary (lan9250_write_sys_reg E a d)"
  using bytes by (intro emits_write) (simp add: ordinary_spi)

lemma steps_indirect: "steps (lan9250_write_mac_reg E x d)" "emits_q ordinary (lan9250_read_mac_reg E x)"
  "steps (lan9250_write_phy_reg E x v)" "emits_q ordinary (lan9250_read_phy_reg E x)"
  using ordinary_indirect [OF bytes]
  by (auto intro: steps_emits emits_write_mac emits_read_mac emits_write_phy emits_read_phy)

end

section \<open>The steps of the thread\<close>

text \<open>Beside ordinary steps: the timestamp check of a received frame, the sweep of the tables when a
  frame is dropped, and the delivery of a packet to the network stack.\<close>

definition sweep :: "lan_env \<Rightarrow> lan \<Rightarrow> lan" where
  "sweep E s = (let s1 = act (Lock Bank_lock) s
     in act (Unlock Bank_lock) (lan9250_1588_rx_pending_expire E (uptime E (trace s1)) s1))"

definition deliver :: "lan_env \<Rightarrow> pkt \<Rightarrow> lan \<Rightarrow> lan" where
  "deliver E p s = (let s1 = act (Net_recv p) s
     in if net_recv E (trace s1) < 0 then act (Pkt_unref p) s1 else s1)"

locale thread_relation = step_relation +
  assumes rx_check: "shape E s \<Longrightarrow> lan9250_1588_rx_timestamp_check E p n s = Some t \<Longrightarrow> R s t"
    and sweeps: "shape E s \<Longrightarrow> R s (sweep E s)"
    and delivers: "shape E s \<Longrightarrow> R s (deliver E p s)"
begin

lemma fifo_ordinary [simp]: "ordinary (read_buf_ev n)"
  by (simp add: ordinary_def read_buf_ev_def fifo_instr_def LAN9250_RX_DATA_FIFO_def banked_def dev_eval)

lemma chunks: "list_all (chunk_ev E dst) new \<Longrightarrow> list_all ordinary new"
  by (auto simp: list_all_iff chunk_ev_def)

lemma buffers: "0 < NET_BUF_DATA_SIZE E"
  using env by (simp add: env_ok_def)

lemma steps_drop: "steps (rx_drop_frame E n)"
  unfolding steps_def
proof (intro allI impI)
  fix s r t
  assume s: "shape E s" and run: "rx_drop_frame E n s = Some (r, t)"
  let ?s1 = "act Rx_error s"
  have s1: "R s ?s1" by (simp add: event)
  have s2: "R s (sweep E ?s1)" using sweeps [OF keeps_shape [OF s1 s]] s1 trans by blast
  obtain dr where dr: "drain_loop E n (sweep E ?s1) = Some (sweep E ?s1\<lparr>trace := dr @ trace (sweep E ?s1)\<rparr>)"
    "list_all (chunk_ev E None) dr"
    using drain_loop_returns [OF buffers] by blast
  have s3: "R s (sweep E ?s1\<lparr>trace := dr @ trace (sweep E ?s1)\<rparr>)"
    using trans [OF s2 events [OF chunks [OF dr(2)]]] .
  show "R s t"
    using run dr(1) s3 trans [OF s3 event [OF fifo_ordinary]]
    by (auto simp: rx_drop_frame_def sweep_def Let_def lan9250_read_buf_def split: if_splits)
qed

lemma steps_pad: "steps (if 0 < end_pad n then lan9250_read_buf E (end_pad n) else run_cmds [])"
  by (auto simp: steps_def lan9250_read_buf_def Let_def refl intro: event)

lemma steps_store: "steps (rx_store_frame E p n)"
proof -
  have fill: "steps (\<lambda>s. fill_loop E p (pkt_frags E (trace s)) n s)"
    unfolding steps_def
  proof (intro allI impI)
    fix s r t
    assume "fill_loop E p (pkt_frags E (trace s)) n s = Some (r, t)"
    then obtain new where "t = s\<lparr>trace := new @ trace s\<rparr>" "list_all (chunk_ev E (Some p)) new"
      using fill_loop_outcome by blast
    then show "R s t" using events [OF chunks] by auto
  qed
  have last: "steps (\<lambda>s. do {
        s1 \<leftarrow> lan9250_1588_rx_timestamp_check E p n s;
        let s2 = act (Net_recv p) s1;
        let s3 = (if net_recv E (trace s2) < 0 then act (Pkt_unref p) s2 else s2);
        Some (0, act (Sem_give Tx_rx_sem) s3)
      })"
    unfolding steps_def
  proof (intro allI impI)
    fix s r t
    assume s: "shape E s" and run: "do {
        s1 \<leftarrow> lan9250_1588_rx_timestamp_check E p n s;
        let s2 = act (Net_recv p) s1;
        let s3 = (if net_recv E (trace s2) < 0 then act (Pkt_unref p) s2 else s2);
        Some (0, act (Sem_give Tx_rx_sem) s3)
      } = Some (r, t)"
    then obtain c where c: "lan9250_1588_rx_timestamp_check E p n s = Some c"
      "t = act (Sem_give Tx_rx_sem) (deliver E p c)"
      by (auto simp: bind_eq_Some_conv deliver_def Let_def)
    have "R s c" using rx_check [OF s c(1)] .
    moreover from this have "R c (deliver E p c)" using delivers keeps_shape s by blast
    ultimately show "R s t" unfolding c(2) using trans event [of "Sem_give Tx_rx_sem"] by (metis ordinary_simps(7))
  qed
  show ?thesis unfolding rx_store_frame_def
    using fill steps_pad last by (intro steps_run) simp
qed

lemma steps_rx: "steps (lan9250_rx E)"
proof -
  have body: "steps (\<lambda>s. let s1 = (if NET_ETH_MAX_FRAME E < n then act Rx_error s else s);
               s2 = act (Pkt_alloc n) s1
           in case net_pkt_alloc E (trace s2) of
                None \<Rightarrow> rx_drop_frame E n s2 | Some pkt \<Rightarrow> rx_store_frame E pkt n s2)" for n
    unfolding steps_def
  proof (intro allI impI)
    fix s r t
    let ?s2 = "act (Pkt_alloc n) (if NET_ETH_MAX_FRAME E < n then act Rx_error s else s)"
    assume s: "shape E s" and run: "(let s1 = (if NET_ETH_MAX_FRAME E < n then act Rx_error s else s);
               s2 = act (Pkt_alloc n) s1
           in case net_pkt_alloc E (trace s2) of
                None \<Rightarrow> rx_drop_frame E n s2 | Some pkt \<Rightarrow> rx_store_frame E pkt n s2) = Some (r, t)"
    have "R s (if NET_ETH_MAX_FRAME E < n then act Rx_error s else s)" by (simp add: event refl)
    then have s2: "R s ?s2" by (rule trans) (simp add: event)
    have "R ?s2 t"
      using run stepsD [OF steps_drop keeps_shape [OF s2 s]] stepsD [OF steps_store keeps_shape [OF s2 s]]
      by (auto simp: Let_def split: option.splits)
    with s2 show "R s t" by (rule trans)
  qed
  show ?thesis
    unfolding lan9250_rx_def Let_def
    by (intro steps_query steps_read steps_if steps_ret body [unfolded Let_def])
      (simp_all add: banked_def dev_eval LAN9250_RX_FIFO_INF_def LAN9250_RX_STATUS_FIFO_def
        LAN9250_RX_DATA_FIFO_def)
qed

lemma link_event_R:
  assumes "link_event E tmp s = Some (v, t)"
  shows "R s t"
proof -
  note phy = query_R [OF steps_indirect(4)]
  from assms obtain r w s1 where 1: "lan9250_read_phy_reg E LAN9250_PHY_INTERRUPT_SOURCE s = Some (r, w, s1)"
    by (auto simp: link_event_def bind_eq_Some_conv)
  then have s1: "R s s1" by (rule phy)
  consider "t = s1" | "t = act (Carrier False) s1"
    | r2 w2 s2 r3 w3 s3 where "lan9250_read_phy_reg E LAN9250_PHY_SPECIAL_CONTROL_STATUS s1 = Some (r2, w2, s2)"
      "lan9250_read_phy_reg E LAN9250_PHY_SPECIAL_CONTROL_STAT_IND s2 = Some (r3, w3, s3)"
      "t = act (Carrier True) s3"
    using assms 1 by (auto simp: link_event_def bind_eq_Some_conv Let_def split: if_splits)
  then show ?thesis
  proof cases
    case 3
    have "R s s3" using s1 phy [OF 3(1)] phy [OF 3(2)] trans by blast
    then show ?thesis unfolding 3(3) by (rule trans) (simp add: event)
  qed (use s1 trans [OF s1 event] in auto)
qed

lemma thread_turn_R:
  assumes s: "shape E s" and run: "lan9250_thread_turn E vars s = Some (v, t)"
  shows "R s t"
proof -
  have plain: "LAN9250_INT_EN \<noteq> LAN9250_1588_BANK_PORT_GPIO_SEL" "\<not> banked LAN9250_INT_EN"
    "LAN9250_INT_STS \<noteq> LAN9250_1588_BANK_PORT_GPIO_SEL" "\<not> banked LAN9250_INT_STS"
    by (simp_all add: banked_def dev_eval)
  note wr = cmd_R [OF emits_plain]
  let ?s1 = "act (Sem_take Int_sem) s" let ?s2 = "act (spi_read E LAN9250_INT_EN) ?s1"
  let ?s3 = "act (spi_write E LAN9250_INT_EN 0) ?s2" let ?s4 = "act (spi_read E LAN9250_INT_STS) ?s3"
  let ?ier = "if spi_ret E (trace ?s2) < 0 then var_ier vars else le32 (spi_rx E (trace ?s2))"
  let ?sts = "if spi_ret E (trace ?s4) < 0 then var_int_sts vars else le32 (spi_rx E (trace ?s4))"
  define link where "link = (if ?sts AND LAN9250_INT_STS_PHY_INT \<noteq> 0 then link_event E (var_tmp vars) ?s4
    else Some (var_tmp vars, ?s4))"
  define rx where "rx s5 = (if ?sts AND LAN9250_INT_STS_RSFL \<noteq> 0
       then do {
         (_, a) \<leftarrow> lan9250_write_sys_reg E LAN9250_INT_STS LAN9250_INT_STS_RSFL s5;
         (_, b) \<leftarrow> lan9250_rx E a;
         Some b
       }
       else Some s5)" for s5
  have "do {
      (tmp1, s5) \<leftarrow> link;
      s6 \<leftarrow> rx s5;
      Some (\<lparr>var_int_sts = ?sts, var_tmp = tmp1, var_ier = ?ier\<rparr>, act (spi_write E LAN9250_INT_EN ?ier) s6)
    } = Some (v, t)"
    using run by (simp add: lan9250_thread_turn_def lan9250_read_sys_reg_def lan9250_write_sys_reg_def
        Let_def link_def rx_def split del: if_split)
  then obtain tmp1 s5 s6 where 5: "link = Some (tmp1, s5)" and 6: "rx s5 = Some s6"
    and 7: "t = act (spi_write E LAN9250_INT_EN ?ier) s6"
    by (auto simp: bind_eq_Some_conv)
  have o: "ordinary (spi_read E LAN9250_INT_EN)" "ordinary (spi_write E LAN9250_INT_EN w)"
    "ordinary (spi_read E LAN9250_INT_STS)" for w
    using plain by (simp_all add: ordinary_spi [OF bytes])
  have r4: "R s ?s4"
    by (rule trans [OF trans [OF trans [OF event event] event] event]) (simp_all add: o)
  have "R ?s4 s5" using 5 link_event_R refl by (auto simp: link_def split: if_splits)
  with r4 have r5: "R s s5" by (rule trans)
  have "R s5 s6"
  proof (cases "?sts AND LAN9250_INT_STS_RSFL = 0")
    case True
    with 6 show ?thesis by (simp add: refl rx_def)
  next
    case False
    with 6 obtain qa a qb where a: "lan9250_write_sys_reg E LAN9250_INT_STS LAN9250_INT_STS_RSFL s5 = Some (qa, a)"
      "lan9250_rx E a = Some (qb, s6)"
      by (auto simp: bind_eq_Some_conv rx_def)
    have "R s5 a" by (rule wr [OF plain(3,4) a(1)])
    moreover from this have "R a s6"
      using stepsD [OF steps_rx _ a(2)] keeps_shape [OF trans [OF r5] s] by blast
    ultimately show ?thesis by (rule trans)
  qed
  with r5 have "R s s6" by (rule trans)
  then show ?thesis unfolding 7 by (rule trans) (rule event [OF o(2)])
qed

end

section \<open>The steps of the kernel's other threads\<close>

text \<open>The calls of the network stack, the clock device and the start-up code.\<close>

locale api_relation = step_relation +
  assumes fields: "length m = length (mac_address s) \<Longrightarrow> R s (s\<lparr>mac_address := m\<rparr>)"
      "length b = length (txbuf s) \<Longrightarrow> R s (s\<lparr>txbuf := b\<rparr>)"
      "length c = length (mcast_hash_refcount s) \<Longrightarrow> R s (s\<lparr>mcast_hash_refcount := c\<rparr>)"
      "R s (s\<lparr>ptp_clock := d\<rparr>)"
    and tx_check: "shape E s \<Longrightarrow> lan9250_1588_tx_timestamp_check E p fr n s = Some t \<Longrightarrow> R s t"
    and ts_init: "lan9250_1588_timestamping_init E s = Some (r, t) \<Longrightarrow> R s t"
begin

lemma steps_locked_hash: "steps m \<Longrightarrow> steps (locked Hash_lock m)"
  unfolding steps_def
proof (intro allI impI)
  fix s r t
  assume m: "\<forall>s r t. shape E s \<longrightarrow> m s = Some (r, t) \<longrightarrow> R s t" and s: "shape E s"
    and run: "locked Hash_lock m s = Some (r, t)"
  then obtain u where u: "m (act (Lock Hash_lock) s) = Some (r, u)" "t = act (Unlock Hash_lock) u"
    by (auto simp: locked_def bind_eq_Some_conv)
  have l: "R s (act (Lock Hash_lock) s)" by (simp add: event)
  then have "R s u" using m u(1) keeps_shape [OF l s] trans by blast
  then show "R s t" unfolding u(2) by (rule trans) (simp add: event)
qed

lemma steps_set_macaddr: "steps (lan9250_set_macaddr E)"
proof -
  have "steps (run_cmds [lan9250_write_mac_reg E a d, lan9250_write_mac_reg E b c])" for a b c d
    by (intro steps_run) (simp add: steps_indirect)
  then show ?thesis unfolding steps_def lan9250_set_macaddr_def by blast
qed

lemma steps_hash_write: "steps (lan9250_mcast_hash_write E)"
proof -
  have "steps (run_cmds [lan9250_write_mac_reg E a d, lan9250_write_mac_reg E b c])" for a b c d
    by (intro steps_run) (simp add: steps_indirect)
  then show ?thesis unfolding steps_def lan9250_mcast_hash_write_def by (auto split: prod.splits)
qed

lemma set_config_R:
  assumes s: "shape E s" and addr: "\<forall>a. c = Mac_address a \<longrightarrow> 6 \<le> length a"
    and run: "lan9250_set_config E c s = Some (r, t)"
  shows "R s t"
proof (cases c)
  case (Mac_address a)
  let ?s = "s\<lparr>mac_address := take 6 a\<rparr>"
  have "R s ?s" using addr Mac_address s by (intro fields) (simp add: shape_def)
  moreover from this have "shape E ?s" using keeps_shape s by blast
  ultimately show ?thesis
    using run Mac_address stepsD [OF steps_set_macaddr] trans by (auto simp: bind_eq_Some_conv)
next
  case (Promisc_mode on)
  have "steps (set_promisc E on)"
    unfolding set_promisc_def
    by (intro steps_query steps_indirect) (use steps_indirect(1) in \<open>auto simp: steps_def refl\<close>)
  with Promisc_mode run s show ?thesis by (auto simp: steps_def refl split: if_splits)
next
  case (Filter dst a on)
  have "steps (\<lambda>s. lan9250_mcast_hash_write E (count_group a on s))"
    unfolding steps_def
  proof (intro allI impI)
    fix s r t
    assume s: "shape E s" and run: "lan9250_mcast_hash_write E (count_group a on s) = Some (r, t)"
    have c: "R s (count_group a on s)" unfolding count_group_def Let_def
      using s hash_bit_less [of a] by (intro fields) (simp add: shape_def)
    with stepsD [OF steps_hash_write keeps_shape [OF c s] run] show "R s t" using trans by blast
  qed
  from steps_locked_hash [OF this] Filter run s show ?thesis
    by (auto simp: steps_def refl split: if_splits)
next
  case Other_config
  with run show ?thesis by (simp add: refl)
qed

lemma steps_tx: "steps (lan9250_tx E p)"
proof -
  let ?len = "net_pkt_len E p"
  have fits: "reads_whole E p" "?len \<le> NET_ETH_MAX_FRAME E" using env by (auto simp: env_ok_def)
  have packet: "steps (read_packet E p ?len)"
    unfolding steps_def
  proof (intro allI impI)
    fix s r t
    assume s: "shape E s" and run: "read_packet E p ?len s = Some (r, t)"
    let ?s1 = "act (Pkt_read p ?len) s"
    obtain ret bs where rd: "net_pkt_read E (trace ?s1) = (ret, bs)" by fastforce
    have s1: "R s ?s1" by (simp add: event)
    have "R ?s1 (?s1\<lparr>txbuf := take ?len bs @ drop ?len (txbuf ?s1)\<rparr>)" if "ret = 0"
    proof (rule fields)
      have "length bs = ?len" using fits(1) rd that unfolding reads_whole_def by (metis fst_conv snd_conv)
      then show "length (take ?len bs @ drop ?len (txbuf ?s1)) = length (txbuf ?s1)"
        using s fits(2) by (simp add: shape_def act_def)
    qed
    then show "R s t" using run rd s1 trans by (auto simp: read_packet_def Let_def split: if_splits)
  qed
  have status: "steps (drain_status E n)" for n
  proof (induction n)
    case 0
    then show ?case by (simp add: steps_def refl)
  next
    case (Suc n)
    have "drain_status E (Suc n) =
        query_ok (lan9250_read_sys_reg E LAN9250_TX_STATUS_FIFO) (\<lambda>tmp. drain_status E n)"
      by (rule ext) simp
    with Suc show ?case
      by (simp add: steps_query steps_read banked_def LAN9250_TX_STATUS_FIFO_def
          LAN9250_1588_BANK_PORT_GPIO_SEL_def)
  qed
  have buf: "steps (\<lambda>s. lan9250_write_buf E (txbuf s @ after_txbuf E) n s)" for n
    by (auto simp: steps_def lan9250_write_buf_def Let_def ordinary_def fifo_instr_def banked_def
        LAN9250_TX_DATA_FIFO_def LAN9250_1588_BANK_PORT_GPIO_SEL_def intro!: event)
  have last: "steps (\<lambda>s. do {
      s1 \<leftarrow> lan9250_1588_tx_timestamp_check E p (txbuf s) ?len s;
      Some (0, act (Sem_give Tx_rx_sem) s1)
    })"
    unfolding steps_def
    using tx_check trans [OF _ event [OF ordinary_simps(7)]] by (auto simp: bind_eq_Some_conv)
  have fifo: "LAN9250_TX_DATA_FIFO \<noteq> LAN9250_1588_BANK_PORT_GPIO_SEL" "\<not> banked LAN9250_TX_DATA_FIFO"
    "LAN9250_TX_FIFO_INF \<noteq> LAN9250_1588_BANK_PORT_GPIO_SEL" "\<not> banked LAN9250_TX_FIFO_INF"
    by (simp_all add: banked_def LAN9250_TX_DATA_FIFO_def LAN9250_TX_FIFO_INF_def
        LAN9250_1588_BANK_PORT_GPIO_SEL_def)
  have take: "steps (act_cmd (Sem_take Tx_rx_sem))" by (intro steps_emits emits_act) simp
  show ?thesis
    unfolding lan9250_tx_def Let_def
    by (intro steps_query steps_read steps_run) (simp_all add: take packet status buf last fifo steps_write)
qed

text \<open>Bring-up.\<close>

lemma steps_config: "steps (lan9250_sw_reset E)" "steps (lan9250_configure E)" "steps (lan9250_1588_init E)"
  "steps (lan9250_1588_enable E)"
proof -
  have "emits ordinary (lan9250_wait_ready E LAN9250_BYTE_TEST m x n)"
    "emits ordinary (lan9250_hw_cfg_check E)" "emits ordinary (check_id E)" for m x n
    using bytes by (intro emits_wait_ready emits_hw_cfg emits_check_id; simp add: ordinary_spi banked_def dev_eval)+
  note others = this [THEN steps_emits]
  have plain: "a \<in> {LAN9250_RESET_CTL, LAN9250_HW_CFG, LAN9250_AFC_CFG, LAN9250_IRQ_CFG, LAN9250_INT_EN,
      LAN9250_FIFO_INT, LAN9250_RX_CFG, LAN9250_PMT_CTRL, LAN9250_INT_STS, LAN9250_TX_CFG,
      LAN9250_1588_GENERAL_CONFIG, LAN9250_1588_CLOCK_SEC, LAN9250_1588_CLOCK_NS, LAN9250_1588_CMD_CTL} \<Longrightarrow>
    a \<noteq> LAN9250_1588_BANK_PORT_GPIO_SEL \<and> \<not> banked a" for a
    by (auto simp: banked_def dev_eval)
  show "steps (lan9250_sw_reset E)"
    unfolding lan9250_sw_reset_def by (intro steps_run) (simp add: others steps_write plain)
  show "steps (lan9250_configure E)"
    unfolding configure_parts
    by (intro steps_run) (simp add: others steps_write steps_indirect plain)
  show "steps (lan9250_1588_enable E)"
    unfolding lan9250_1588_enable_def by (simp add: steps_write plain)
  show "steps (lan9250_1588_init E)"
    unfolding lan9250_1588_init_def
    by (intro steps_query steps_read steps_run) (simp_all add: steps_write plain)
qed

lemma steps_init: "steps (lan9250_init E)"
proof -
  have small: "steps (check b)" "ordinary e \<Longrightarrow> steps (gpio_call E e)" for b e
    by (auto intro: steps_emits emits_check emits_gpio)
  have hard: "steps (hard_reset E)"
    unfolding hard_reset_def by (auto intro!: steps_emits emits_run simp: emits_check emits_gpio emits_act)
  have load: "steps (update (\<lambda>s. act Mac_load (s\<lparr>mac_address := mac_load E (mac_address s)\<rparr>)))"
    using env by (auto simp: steps_def update_def env_ok_def intro!: trans [OF fields(1) event])
  have uniq: "R s (lan9250_load_unique_mac_address E s)" if "shape E s" for s
  proof -
    obtain len hw where d: "hwinfo_device_id E = (len, hw)" by fastforce
    have l: "int (length hw) = len" using env d by (simp add: env_ok_def)
    show ?thesis
    proof (cases "len < 6")
      case True
      then show ?thesis by (simp add: lan9250_load_unique_mac_address_def d refl)
    next
      case False
      then have "length (take 6 (drop (nat (len - 6)) hw)) = 6" using l by simp
      then show ?thesis using False that
        unfolding lan9250_load_unique_mac_address_def d Let_def
        by (auto simp: shape_def intro!: fields)
    qed
  qed
  then have "steps (update (lan9250_load_unique_mac_address E))"
    by (auto simp: steps_def update_def)
  then show ?thesis
    unfolding lan9250_init_def
    by (intro steps_run) (simp add: small hard load steps_config steps_set_macaddr steps_def [of "lan9250_1588_timestamping_init E"] ts_init)
qed

lemma clock_plain: "a \<in> {LAN9250_RX_DROP, LAN9250_LED_CFG, LAN9250_GPIO_CFG, LAN9250_1588_GENERAL_CONFIG,
      LAN9250_1588_CLOCK_SEC, LAN9250_1588_CLOCK_NS, LAN9250_1588_CLOCK_SUBNS, LAN9250_1588_CMD_CTL,
      LAN9250_1588_CLOCK_RATE_ADJ, LAN9250_1588_CLOCK_TARGET_SEC 0, LAN9250_1588_CLOCK_TARGET_NS 0,
      LAN9250_1588_CLOCK_TARGET_RELOAD_SEC 0, LAN9250_1588_CLOCK_TARGET_RELOAD_NS 0} \<Longrightarrow>
    a \<noteq> LAN9250_1588_BANK_PORT_GPIO_SEL \<and> \<not> banked a"
  by (auto simp: banked_def dev_eval)

lemma clock_read_ordinary: "emits_q ordinary (lan9250_ptp_clock_read E b)"
proof -
  have "ordinary (spi_write E LAN9250_1588_CMD_CTL d)" "ordinary (spi_read E LAN9250_1588_CLOCK_SEC)"
    "ordinary (spi_read E LAN9250_1588_CLOCK_NS)" "ordinary (spi_read E LAN9250_1588_CLOCK_SUBNS)" for d
    using clock_plain by (simp_all add: ordinary_spi [OF bytes])
  then show ?thesis
    unfolding emits_q_def lan9250_ptp_clock_read_def
    by (auto simp: lan9250_read_sys_reg_def lan9250_write_sys_reg_def Let_def split: if_splits
        intro!: extends_act extends_trans [OF _ extends_act])
qed

lemma steps_clock:
  "steps (lan9250_ptp_clock_set E sec ns)" "steps (lan9250_ptp_clock_adjust E inc)"
  "steps (lan9250_ptp_clock_rate_adjust E far ratio)" "steps (lan9250_1588_pps_enable E)"
  "steps (lan9250_ptp_clock_init ready port)"
proof -
  show set: "steps (lan9250_ptp_clock_set E sec ns)" for sec ns
    unfolding lan9250_ptp_clock_set_def by (intro steps_run) (simp add: steps_write clock_plain)
  show "steps (lan9250_ptp_clock_adjust E inc)"
    unfolding lan9250_ptp_clock_adjust_def
    by (intro steps_query clock_read_ordinary) (simp add: set split: prod.split)
  show "steps (lan9250_ptp_clock_rate_adjust E far ratio)"
  proof -
    have "steps (lan9250_write_sys_reg E LAN9250_1588_CLOCK_RATE_ADJ d)" for d
      by (simp add: steps_write clock_plain)
    from stepsD [OF this] show ?thesis unfolding steps_def lan9250_ptp_clock_rate_adjust_def Let_def
      by (auto simp: refl split: if_splits)
  qed
  show "steps (lan9250_1588_pps_enable E)"
    unfolding lan9250_1588_pps_enable_def
    by (intro steps_run)
      (auto intro!: steps_query steps_read clock_read_ordinary steps_run
        simp: steps_write clock_plain steps_ret split: prod.split)
  show "steps (lan9250_ptp_clock_init ready port)"
    by (auto simp: steps_def lan9250_ptp_clock_init_def refl intro: fields)
qed

end

section \<open>Any order of operations\<close>

text \<open>What the kernel may call outside the driver's thread: bring-up, \<open>api_funcs\<close>, the functions of
  \<open>eth_lan9250_ptp.h\<close>, the clock device, the interrupt callback. An address handed over is a
  \<open>net_eth_addr\<close>, six bytes.\<close>

inductive api_step :: "lan_env \<Rightarrow> lan \<Rightarrow> lan \<Rightarrow> bool" for E where
  init: "lan9250_init E s = Some (r, t) \<Longrightarrow> api_step E s t"
| send: "lan9250_tx E p s = Some (r, t) \<Longrightarrow> api_step E s t"
| set_config: "\<forall>a. c = Mac_address a \<longrightarrow> 6 \<le> length a \<Longrightarrow> lan9250_set_config E c s = Some (r, t) \<Longrightarrow> api_step E s t"
| irq: "api_step E s (lan9250_gpio_callback s)"
| rx_drop: "lan9250_rx_drop_get E s = Some (r, n, t) \<Longrightarrow> api_step E s t"
| clock_read: "lan9250_ptp_clock_read E b s = Some (r, v, t) \<Longrightarrow> api_step E s t"
| clock_set: "lan9250_ptp_clock_set E sec ns s = Some (r, t) \<Longrightarrow> api_step E s t"
| clock_adjust: "lan9250_ptp_clock_adjust E inc s = Some (r, t) \<Longrightarrow> api_step E s t"
| clock_rate: "lan9250_ptp_clock_rate_adjust E far ratio s = Some (r, t) \<Longrightarrow> api_step E s t"
| pps: "lan9250_1588_pps_enable E s = Some (r, t) \<Longrightarrow> api_step E s t"
| api_set: "lan9250_ptp_clock_api_set E tm s = Some (r, t) \<Longrightarrow> api_step E s t"
| api_get: "lan9250_ptp_clock_api_get E tm s = Some (r, tm', t) \<Longrightarrow> api_step E s t"
| api_adjust: "lan9250_ptp_clock_api_adjust E inc s = Some (r, t) \<Longrightarrow> api_step E s t"
| api_rate: "lan9250_ptp_clock_api_rate_adjust E far ratio s = Some (r, t) \<Longrightarrow> api_step E s t"
| clock_init: "lan9250_ptp_clock_init ready port s = Some (r, t) \<Longrightarrow> api_step E s t"

inductive thread_step :: "lan_env \<Rightarrow> lan \<Rightarrow> lan \<Rightarrow> bool" for E where
  turn: "lan9250_thread_turn E vars s = Some (v, t) \<Longrightarrow> thread_step E s t"

context api_relation
begin

lemma api_step_R: "api_step E s t \<Longrightarrow> shape E s \<Longrightarrow> R s t"
proof (induction rule: api_step.induct)
  case (irq s)
  show ?case by (simp add: lan9250_gpio_callback_def event)
next
  case (rx_drop s r n t)
  have "emits_q ordinary (lan9250_rx_drop_get E)"
    unfolding lan9250_rx_drop_get_def by (rule steps_read) (simp_all add: clock_plain)
  then show ?case using rx_drop(1) by (rule query_R)
next
  case (api_get tm s r tm' t)
  then show ?case using query_R [OF clock_read_ordinary]
    by (auto simp: lan9250_ptp_clock_api_get_def bind_eq_Some_conv split: if_splits)
next
  case (clock_read b s r v t)
  then show ?case by (intro query_R [OF clock_read_ordinary])
qed (auto intro: stepsD steps_init steps_tx set_config_R steps_clock
    simp: lan9250_ptp_clock_api_set_def lan9250_ptp_clock_api_adjust_def lan9250_ptp_clock_api_rate_adjust_def)

end

context thread_relation
begin

lemma thread_step_R: "thread_step E s t \<Longrightarrow> shape E s \<Longrightarrow> R s t"
  by (auto elim!: thread_step.cases intro: thread_turn_R)

end

text \<open>Bring-up, calls and thread turns in any order.\<close>

definition driver_run :: "lan_env \<Rightarrow> lan \<Rightarrow> lan \<Rightarrow> bool" where
  "driver_run E = (sup (api_step E) (thread_step E))\<^sup>*\<^sup>*"

locale driver_relation = thread_relation + api_relation
begin

lemma run_R: "driver_run E s t \<Longrightarrow> shape E s \<Longrightarrow> R s t"
  unfolding driver_run_def
proof (induction rule: rtranclp_induct)
  case base
  show ?case by (rule refl)
next
  case (step t u)
  then have "R t u" using api_step_R thread_step_R keeps_shape by blast
  with step show ?case using trans by blast
qed

end

text \<open>An environment that behaves, whichever is asked for.\<close>

lemma calm_ok: "env_ok calm"
  using calm_byte_order calm_reads chip_lengths by (simp add: env_ok_def) (simp add: calm_def)

definition behaved :: "lan_env \<Rightarrow> lan_env" where
  "behaved E = (if env_ok E then E else calm)"

lemma behaved: "env_ok (behaved E)" "env_ok E \<Longrightarrow> behaved E = E"
  using calm_ok by (simp_all add: behaved_def)

section \<open>Packet references over the driver's life\<close>

text \<open>Deliveries the stack refused: those packets the driver gives up.\<close>

primrec refused :: "lan_env \<Rightarrow> pkt \<Rightarrow> ev list \<Rightarrow> int" where
  "refused E p [] = 0"
| "refused E p (e # h) = refused E p h + (if e = Net_recv p \<and> net_recv E (e # h) < 0 then 1 else 0)"

definition account :: "lan_env \<Rightarrow> pkt \<Rightarrow> lan \<Rightarrow> int" where
  "account E p s = owed p s - refused E p (trace s)"

definition balanced :: "lan_env \<Rightarrow> lan \<Rightarrow> lan \<Rightarrow> bool" where
  "balanced E s t \<longleftrightarrow> (shape E s \<longrightarrow> shape E t \<and> (\<forall>p. account E p t = account E p s))"

lemma refused_append: "\<forall>e\<in>set new. \<forall>p. e \<noteq> Net_recv p \<Longrightarrow> refused E p (new @ h) = refused E p h"
  by (induction new) auto

lemma refused_same: "grew P s t \<Longrightarrow> (\<And>p. \<not> P (Net_recv p)) \<Longrightarrow> refused E p (trace t) = refused E p (trace s)"
  unfolding grew_def by (metis list_all_iff refused_append)

text \<open>The check of a sent frame leaves no reference behind.\<close>

definition tx_ev :: "lan_env \<Rightarrow> ev \<Rightarrow> bool" where
  "tx_ev E e \<longleftrightarrow> is_spi E e \<or> (\<exists>p a b. e = Set_timestamp p a b) \<or> (\<exists>p. e = Tx_timestamp p)"

lemma tx_check_trace:
  assumes "lan9250_1588_tx_timestamp_check E p frame n s = Some t"
  obtains "t = s" | mid where "t = s\<lparr>trace := Unlock Bank_lock # mid @ Lock Bank_lock # trace s\<rparr>"
    "list_all (tx_ev E) mid"
proof -
  let ?s1 = "act (Lock Bank_lock) s"
  have "t = s \<or> (\<exists>mid. t = s\<lparr>trace := Unlock Bank_lock # mid @ Lock Bank_lock # trace s\<rparr> \<and> list_all (tx_ev E) mid)"
  proof (cases "\<exists>k. lan9250_ptp_parse_header E (take n frame) = Some (Some k)")
    case False
    with assms show ?thesis
      by (auto simp: lan9250_1588_tx_timestamp_check_def bind_eq_Some_conv split: option.splits)
  next
    case True
    then obtain k u where k: "tx_capture E p k ?s1 = Some ((), u)" "t = act (Unlock Bank_lock) u"
      using assms by (auto simp: lan9250_1588_tx_timestamp_check_def bind_eq_Some_conv)
    have spi: "list_all (tx_ev E) new" if "list_all (is_spi E) new" for new
      using that by (auto simp: list_all_iff tx_ev_def)
    show ?thesis
    proof (cases rule: tx_capture_cases [of E p k ?s1])
      case (1 v)
      then obtain new where "u = ?s1\<lparr>trace := new @ trace ?s1\<rparr>" "list_all (is_spi E) new"
        using k(1) by (auto simp: adds_at_most_def)
      with k(2) spi show ?thesis by (auto simp: act_def)
    next
      case (2 hw sec ns v)
      then obtain new where v: "v = ?s1\<lparr>trace := new @ trace ?s1\<rparr>" "list_all (is_spi E) new"
        by (auto simp: adds_at_most_def)
      have "u = act (tx_ack E) (tx_event E p k hw sec ns v)" using 2(3) k(1) by (simp add: tx_ack_def)
      then have "t = s\<lparr>trace := Unlock Bank_lock # (tx_ack E # tx_stamp E p (hw = k) sec ns @ new) @
          Lock Bank_lock # trace s\<rparr>"
        using k(2) v(1) unfolding tx_event_trace by (simp add: act_def)
      moreover have "list_all (tx_ev E) (tx_ack E # tx_stamp E p (hw = k) sec ns @ new)"
        using spi [OF v(2)] by (auto simp: tx_ev_def tx_stamp_def tx_ack_def)
      ultimately show ?thesis by blast
    qed
  qed
  with that show thesis by blast
qed

lemma account_events:
  assumes "list_all (\<lambda>e. \<forall>p. e \<noteq> Pkt_ref p \<and> e \<noteq> Pkt_unref p \<and> e \<noteq> Net_recv p) new"
    "trace t = new @ trace s" "rx_pending t = rx_pending s"
  shows "account E p t = account E p s"
proof -
  have "balance p new = 0" using assms(1) by (induction new) (auto simp: balance_def)
  moreover have "refused E p (trace t) = refused E p (trace s)"
    using assms(1,2) refused_append [of new E p] by (auto simp: list_all_iff)
  ultimately show ?thesis using assms(2,3) by (simp add: account_def owed_def balance_append)
qed

lemma is_spi_plain: "is_spi E e \<Longrightarrow> e \<noteq> Pkt_ref p \<and> e \<noteq> Pkt_unref p \<and> e \<noteq> Net_recv p"
  by (cases e) simp_all

text \<open>The checks and sweeps touch only the tables.\<close>

definition same_buffers :: "lan \<Rightarrow> lan \<Rightarrow> bool" where
  "same_buffers s t \<longleftrightarrow> mac_address t = mac_address s \<and> txbuf t = txbuf s \<and>
     mcast_hash_refcount t = mcast_hash_refcount s \<and> ptp_clock t = ptp_clock s"

lemma shape_same: "same_buffers s t \<Longrightarrow> wf t \<Longrightarrow> shape E s \<Longrightarrow> shape E t"
  by (simp add: same_buffers_def shape_def)

lemma same_buffers_trans: "same_buffers s t \<Longrightarrow> same_buffers t u \<Longrightarrow> same_buffers s u"
  by (simp add: same_buffers_def)

lemma same_buffers_act [simp]: "same_buffers s (act e s)" "same_buffers s (act e t) = same_buffers s t"
  by (simp_all add: same_buffers_def act_def)

lemma same_buffers_parts:
  "same_buffers s (snd (rx_event E p k hw sec ns s))" "same_buffers s (rx_queue E p k a s)"
  by (simp_all add: same_buffers_def rx_event_def rx_queue_def stash_unclaimed_def act_def Let_def
      split: option.split)

lemma same_buffers_expire: "wf s \<Longrightarrow> same_buffers s (lan9250_1588_rx_pending_expire E now s)"
  using expire_effect [of s E now] by (auto simp: same_buffers_def)

lemma same_buffers_match:
  assumes "rx_match E p k s = Some (a, t)"
  shows "same_buffers s t"
proof (cases "find_slot (captured_for k) (rx_unclaimed s)")
  case None
  then have run: "rx_capture E p k s = Some (a, t)" using assms by (simp add: rx_match_def)
  show ?thesis
  proof (cases rule: rx_capture_cases [of E p k s])
    case (1 u)
    then show ?thesis using run extends_fields by (simp add: same_buffers_def)
  next
    case (2 hw sec ns u)
    then have "t = snd (rx_event E p k hw sec ns (act (rx_ack E) u))" using run 2(3) by (metis option.inject snd_conv)
    moreover have "same_buffers s (act (rx_ack E) u)" using extends_fields [OF 2(1)]
      by (simp add: same_buffers_def act_def)
    ultimately show ?thesis using same_buffers_parts(1) same_buffers_trans by blast
  qed
qed (use assms in \<open>auto simp: rx_match_def same_buffers_def act_def Let_def\<close>)

lemma same_buffers_check:
  assumes "wf s" "lan9250_1588_rx_timestamp_check E p n s = Some t"
  shows "same_buffers s t"
  using assms(2)
proof (cases rule: rx_check_cases)
  case (2 k a s4)
  let ?s2 = "act (Lock Bank_lock) (act (Pkt_read p (min n 128)) s)"
  let ?s3 = "lan9250_1588_rx_pending_expire E (uptime E (trace ?s2)) ?s2"
  have "same_buffers ?s2 ?s3" using assms(1) by (intro same_buffers_expire) simp
  then have "same_buffers ?s2 (rx_queue E p k a s4)"
    using same_buffers_match [OF 2(2)] same_buffers_parts(2) same_buffers_trans by meson
  then show ?thesis unfolding 2(3) by (simp add: same_buffers_def act_def)
qed simp

section \<open>References: the instance\<close>

lemma balanced_events:
  assumes "list_all (\<lambda>e. \<forall>p. e \<noteq> Pkt_ref p \<and> e \<noteq> Pkt_unref p \<and> e \<noteq> Net_recv p) new"
    "trace t = new @ trace s" "rx_pending t = rx_pending s" "shape E s \<Longrightarrow> shape E t"
  shows "balanced E s t"
  using account_events [OF assms(1-3)] assms(4) by (simp add: balanced_def)

lemma balanced_check:
  assumes "shape E s" "lan9250_1588_rx_timestamp_check E p n s = Some t"
  shows "balanced E s t"
proof -
  have wf: "wf s" using assms(1) by (simp add: shape_def)
  note same = same_buffers_check [OF wf assms(2)]
  show ?thesis
    using wf assms(2)
  proof (cases rule: rx_check_outcome)
    case 1
    then show ?thesis
      by (intro balanced_events [of "[Pkt_read p (min n 128)]"]) (simp_all add: act_def shape_def wf_def)
  next
    case (2 k mid)
    have "\<forall>e\<in>set (Unlock Bank_lock # mid @ [Lock Bank_lock, Pkt_read p (min n 128)]). \<forall>q. e \<noteq> Net_recv q"
      using 2(4) by (auto simp: list_all_iff)
    from refused_append [OF this, of E] have "refused E q (trace t) = refused E q (trace s)" for q
      unfolding 2(3) by (metis append.assoc append_Cons append_Nil)
    then show ?thesis using 2(2,7) shape_same [OF same 2(2)] by (simp add: balanced_def account_def)
  qed
qed

lemma balanced_sweep: "shape E s \<Longrightarrow> balanced E s (sweep E s)"
proof -
  assume s: "shape E s"
  let ?s1 = "act (Lock Bank_lock) s" let ?e = "lan9250_1588_rx_pending_expire E (uptime E (trace ?s1)) ?s1"
  have wf: "wf ?s1" using s by (simp add: shape_def)
  note ok = expire_ok [OF wf, of E "\<lambda>_ _ _. True" "uptime E (trace ?s1)", unfolded step_ok_def]
  have "owed q (sweep E s) = owed q s" for q
    using ok by (simp add: sweep_def owed_def balance_Cons act_def Let_def)
  moreover have "refused E q (trace (sweep E s)) = refused E q (trace s)" for q
  proof -
    have "refused E q (trace ?e) = refused E q (trace ?s1)"
      using ok by (intro refused_same [of "fair E (\<lambda>_ _ _. True)"]) simp_all
    then show ?thesis by (simp add: sweep_def act_def Let_def)
  qed
  moreover have "shape E (sweep E s)"
    using shape_same [OF same_buffers_trans [OF same_buffers_act(1) same_buffers_expire [OF wf]]] ok s
    by (simp add: sweep_def Let_def shape_def wf_def act_def)
  ultimately show ?thesis by (simp add: balanced_def account_def)
qed

lemma balanced_deliver: "balanced E s (deliver E p s)"
  by (auto simp: balanced_def deliver_def Let_def account_def owed_def balance_Cons act_def shape_def wf_def)

lemma balanced_tx_check:
  assumes "lan9250_1588_tx_timestamp_check E p fr n s = Some t"
  shows "balanced E s t"
  using assms
proof (cases rule: tx_check_trace)
  case 1
  then show ?thesis by (simp add: balanced_def)
next
  case (2 mid)
  then show ?thesis
    by (intro balanced_events [of "Unlock Bank_lock # mid @ [Lock Bank_lock]"])
      (auto simp: list_all_iff tx_ev_def shape_def wf_def dest: is_spi_plain)
qed

lemma balanced_ts_init:
  assumes "lan9250_1588_timestamping_init E s = Some (r, t)"
  shows "balanced E s t"
proof -
  let ?P = "\<lambda>e. \<forall>p. e \<noteq> Pkt_ref p \<and> e \<noteq> Pkt_unref p \<and> e \<noteq> Net_recv p"
  have "emits ?P (lan9250_1588_timestamping_init E)"
    unfolding lan9250_1588_timestamping_init_def lan9250_1588_bank_select_def
    by (intro emits_locked emits_run)
      (simp_all add: emits_query emits_read emits_write spi_write_def spi_read_def)
  then have "extends ?P s t" using assms unfolding emits_def by blast
  then show ?thesis
    by (auto simp: extends_def shape_def wf_def intro!: balanced_events)
qed

interpretation refs: driver_relation "behaved E" "balanced (behaved E)" for E
proof unfold_locales
  let ?E = "behaved E"
  show "env_ok ?E" by (rule behaved)
  show "balanced ?E s s" for s by (simp add: balanced_def)
  show "balanced ?E s t \<Longrightarrow> balanced ?E t u \<Longrightarrow> balanced ?E s u" for s t u
    by (simp add: balanced_def)
  show "balanced ?E s t \<Longrightarrow> shape ?E s \<Longrightarrow> shape ?E t" for s t by (simp add: balanced_def)
  show "ordinary e \<Longrightarrow> balanced ?E s (act e s)" for e s
    by (intro balanced_events [of "[e]"]) (simp_all add: ordinary_def act_def shape_def wf_def)
  show "length m = length (mac_address s) \<Longrightarrow> balanced ?E s (s\<lparr>mac_address := m\<rparr>)" for m s
    by (intro balanced_events [of "[]"]) (simp_all add: shape_def wf_def)
  show "length b = length (txbuf s) \<Longrightarrow> balanced ?E s (s\<lparr>txbuf := b\<rparr>)" for b s
    by (intro balanced_events [of "[]"]) (simp_all add: shape_def wf_def)
  show "length c = length (mcast_hash_refcount s) \<Longrightarrow> balanced ?E s (s\<lparr>mcast_hash_refcount := c\<rparr>)" for c s
    by (intro balanced_events [of "[]"]) (simp_all add: shape_def wf_def)
  show "balanced ?E s (s\<lparr>ptp_clock := d\<rparr>)" for d s
    by (intro balanced_events [of "[]"]) (simp_all add: shape_def wf_def)
qed (auto intro: balanced_check balanced_sweep balanced_deliver balanced_tx_check balanced_ts_init)

section \<open>Properties\<close>

text \<open>The runtime struct as \<open>LAN9250_DEFINE\<close> makes it: static storage, so zero but for the
  semaphores, whose counts the model keeps in the trace.\<close>

definition lan_reset :: "lan_env \<Rightarrow> lan" where
  "lan_reset E = \<lparr>trace = [], mac_address = replicate 6 0, txbuf = replicate (NET_ETH_MAX_FRAME E) 0,
     ptp_clock = None,
     rx_pending = replicate LAN9250_1588_RX_PENDING_MAX
       \<lparr>rp_pkt = None, rp_msg_type = 0, rp_seq_id = 0, rp_deadline = 0\<rparr>,
     rx_unclaimed = replicate LAN9250_1588_RX_PENDING_MAX
       \<lparr>ru_valid = False, ru_msg_type = 0, ru_seq_id = 0, ru_sec = 0, ru_ns = 0, ru_deadline = 0\<rparr>,
     mcast_hash_refcount = replicate 64 0, diag_matched_immediate = 0, diag_matched_pending = 0,
     diag_queued_pending = 0, diag_expired_unmatched = 0, diag_last_summary_ms = 0\<rparr>"

lemma shape_reset: "shape E (lan_reset E)" "account E p (lan_reset E) = 0"
  by (simp_all add: shape_def wf_def lan_reset_def account_def owed_def held_def balance_def)

text \<open>A chip that raises the receive interrupt for the frame of \<open>rx_chip\<close>.\<close>

definition busy_chip :: lan_env where
  "busy_chip = rx_chip\<lparr>net_pkt_len := \<lambda>p. 58, spi_rx := \<lambda>h. (case h of
     Spi [i, a, b] n # _ \<Rightarrow> (if b = 0x58 then [8, 0, 0, 0] else spi_rx rx_chip h)
   | _ \<Rightarrow> [0, 0, 0, 0])\<rparr>"

lemma busy_chip_ok: "env_ok busy_chip" "clock_runs busy_chip" "next_frame busy_chip s = 58"
  "rx_room busy_chip s = 1536"
proof -
  have "length sync_frame = 58" by (simp add: sync_frame_def)
  moreover have "byte_order busy_chip" "reads_be16 busy_chip"
    using rx_chip_ok(1,2) by (simp_all add: busy_chip_def byte_order_def reads_be16_def)
  ultimately show "env_ok busy_chip"
    by (simp add: env_ok_def reads_whole_def) (simp add: busy_chip_def rx_chip_def calm_def)
  show "clock_runs busy_chip"
    using calm_clock by (simp add: busy_chip_def rx_chip_def clock_runs_def)
  show "next_frame busy_chip s = 58"
    by (simp add: next_frame_def busy_chip_def rx_chip_def calm_def spi_read_def LAN9250_RX_FIFO_INF_def
        LAN9250_RX_STATUS_FIFO_def le32_def Let_def reg_bits)
  show "rx_room busy_chip s = 1536" by (simp add: rx_room_def busy_chip_def rx_chip_def calm_def)
qed

lemma busy_turn:
  "\<exists>v t. lan9250_thread_turn busy_chip first_locals (lan_reset busy_chip) = Some (v, t) \<and>
     driver_run busy_chip (lan_reset busy_chip) t"
proof -
  have "wf (lan_reset busy_chip)" using shape_reset(1) by (simp add: shape_def)
  then obtain v t where "lan9250_thread_turn busy_chip first_locals (lan_reset busy_chip) = Some (v, t)"
    using thread_turn_runs [of busy_chip "lan_reset busy_chip" first_locals] busy_chip_ok by (auto simp: env_ok_def)
  moreover from this have "driver_run busy_chip (lan_reset busy_chip) t"
    unfolding driver_run_def by (intro r_into_rtranclp) (auto intro: turn)
  ultimately show ?thesis by blast
qed

text \<open>
  C37: No write of the driver overruns an array of its struct. From the state \<open>LAN9250_DEFINE\<close> makes,
  whatever calls of the driver's interface and turns of its thread follow each other, every array has
  the size it is declared with. A write to a slot, a count or a byte of the address out of its bounds
  would have left an array of no elements (\<open>store\<close>), and a packet copied past the end of the transmit
  buffer a longer one. That no packet to be sent is longer than the buffer is an assumption (\<open>env_ok\<close>):
  the code leaves it to the network stack.
\<close>

theorem driver_keeps_shape:
  assumes "env_ok E" "driver_run E (lan_reset E) t"
  shows "length (rx_pending t) = LAN9250_1588_RX_PENDING_MAX \<and>
    length (rx_unclaimed t) = LAN9250_1588_RX_PENDING_MAX \<and> length (mac_address t) = 6 \<and>
    length (txbuf t) = NET_ETH_MAX_FRAME E \<and> length (mcast_hash_refcount t) = 64"
proof -
  have "balanced E (lan_reset E) t"
    using refs.run_R [of E] shape_reset(1) assms by (simp add: behaved)
  then have "shape E t" using shape_reset(1) by (simp add: balanced_def)
  then show ?thesis by (simp add: shape_def wf_def)
qed

lemma driver_keeps_shape_witness:
  "\<exists>v t. lan9250_thread_turn busy_chip first_locals (lan_reset busy_chip) = Some (v, t) \<and>
     length (rx_pending t) = 16 \<and> length (rx_unclaimed t) = 16"
  using busy_turn driver_keeps_shape [OF busy_chip_ok(1)] by (metis LAN9250_1588_RX_PENDING_MAX_def)

text \<open>
  C7: The driver's packet references add up over its whole life. In every state reached from reset
  by calls and thread turns in any order, a packet stands in the table of waiting packets as often as
  it was referenced, less the times it was released, counting the one release for each delivery the
  network stack refused. So no call leaks a reference, and none is dropped that is still held.
\<close>

theorem driver_refs_add_up:
  assumes "env_ok E" "driver_run E (lan_reset E) t"
  shows "int (held (rx_pending t) p) = balance p (trace t) + refused E p (trace t)"
proof -
  have "balanced E (lan_reset E) t"
    using refs.run_R [of E] shape_reset(1) assms by (simp add: behaved)
  then have "account E p t = 0" using shape_reset [of E] by (simp add: balanced_def)
  then show ?thesis by (simp add: account_def owed_def)
qed

lemma driver_refs_add_up_witness:
  "\<exists>v t. lan9250_thread_turn busy_chip first_locals (lan_reset busy_chip) = Some (v, t) \<and>
     int (held (rx_pending t) 1) = balance 1 (trace t) + refused busy_chip 1 (trace t)"
  using busy_turn driver_refs_add_up [OF busy_chip_ok(1)] by blast

end
