(* ===== verification/Lan_Sides.thy ===== *)
theory Lan_Sides
  imports Lan_Driver
begin

text \<open>
  Who writes what. The runtime struct has two writers, the driver's thread and its callers, and no
  field has both: the tables of the receive side and its counters are the thread's, the buffers, the
  hash counts and the clock's device the callers'.
\<close>

definition same_tables :: "lan \<Rightarrow> lan \<Rightarrow> bool" where
  "same_tables s t \<longleftrightarrow> rx_pending t = rx_pending s \<and> rx_unclaimed t = rx_unclaimed s \<and>
     diag_matched_immediate t = diag_matched_immediate s \<and> diag_matched_pending t = diag_matched_pending s \<and>
     diag_queued_pending t = diag_queued_pending s \<and> diag_expired_unmatched t = diag_expired_unmatched s \<and>
     diag_last_summary_ms t = diag_last_summary_ms s"

definition thread_writes :: "lan_env \<Rightarrow> lan \<Rightarrow> lan \<Rightarrow> bool" where
  "thread_writes E s t \<longleftrightarrow> same_buffers s t \<and> (shape E s \<longrightarrow> shape E t)"

definition api_writes :: "lan_env \<Rightarrow> lan \<Rightarrow> lan \<Rightarrow> bool" where
  "api_writes E s t \<longleftrightarrow> same_tables s t \<and> (shape E s \<longrightarrow> shape E t)"

lemma same_tables_trace: "t = s\<lparr>trace := h\<rparr> \<Longrightarrow> api_writes E s t"
  by (simp add: api_writes_def same_tables_def shape_def wf_def)

lemma sweep_writes: "shape E s \<Longrightarrow> thread_writes E s (sweep E s)"
proof -
  assume s: "shape E s"
  let ?s1 = "act (Lock Bank_lock) s"
  have "wf ?s1" using s by (simp add: shape_def)
  from same_buffers_trans [OF same_buffers_act(1) same_buffers_expire [OF this]] balanced_sweep [OF s]
  show ?thesis by (simp add: thread_writes_def balanced_def sweep_def Let_def)
qed

lemma keeps_laws:
  "thread_writes E s s" "api_writes E s s"
  "thread_writes E s t \<Longrightarrow> thread_writes E t u \<Longrightarrow> thread_writes E s u"
  "api_writes E s t \<Longrightarrow> api_writes E t u \<Longrightarrow> api_writes E s u"
  "thread_writes E s (act e s)" "api_writes E s (act e s)"
  by (auto simp: thread_writes_def api_writes_def same_buffers_def same_tables_def shape_def wf_def act_def)

lemma api_fields:
  "length m = length (mac_address s) \<Longrightarrow> api_writes E s (s\<lparr>mac_address := m\<rparr>)"
  "length b = length (txbuf s) \<Longrightarrow> api_writes E s (s\<lparr>txbuf := b\<rparr>)"
  "length c = length (mcast_hash_refcount s) \<Longrightarrow> api_writes E s (s\<lparr>mcast_hash_refcount := c\<rparr>)"
  "api_writes E s (s\<lparr>ptp_clock := d\<rparr>)"
  by (simp_all add: api_writes_def same_tables_def shape_def wf_def)

lemma tx_check_writes:
  "lan9250_1588_tx_timestamp_check E p fr n s = Some t \<Longrightarrow> api_writes E s t"
  by (cases rule: tx_check_trace) (auto simp: keeps_laws intro: same_tables_trace)

lemma ts_init_writes:
  assumes "lan9250_1588_timestamping_init E s = Some (r, t)"
  shows "api_writes E s t"
proof -
  have "emits (\<lambda>e. True) (lan9250_1588_timestamping_init E)"
    unfolding lan9250_1588_timestamping_init_def lan9250_1588_bank_select_def
    by (intro emits_locked emits_run) (simp_all add: emits_query emits_read emits_write)
  then show ?thesis using assms unfolding emits_def extends_def by (blast intro: same_tables_trace)
qed

interpretation thread_side: thread_relation "behaved E" "thread_writes (behaved E)" for E
proof unfold_locales
  let ?E = "behaved E"
  show "env_ok ?E" by (rule behaved)
  show "thread_writes ?E s t" if "shape ?E s" "lan9250_1588_rx_timestamp_check ?E p n s = Some t" for s p n t
  proof -
    have "wf s" using that(1) unfolding shape_def by (rule conjunct1)
    then have "same_buffers s t" using that(2) by (rule same_buffers_check)
    moreover have "balanced ?E s t" using that by (rule balanced_check)
    ultimately show ?thesis unfolding thread_writes_def balanced_def by blast
  qed
  show "thread_writes ?E s (deliver ?E p s)" for s p
    by (auto simp: deliver_def Let_def intro: keeps_laws)
  show "thread_writes ?E s t \<Longrightarrow> shape ?E s \<Longrightarrow> shape ?E t" for s t by (simp add: thread_writes_def)
qed (auto intro: keeps_laws sweep_writes)

interpretation api_side: api_relation "behaved E" "api_writes (behaved E)" for E
proof unfold_locales
  show "env_ok (behaved E)" by (rule behaved)
  show "api_writes (behaved E) s t \<Longrightarrow> shape (behaved E) s \<Longrightarrow> shape (behaved E) t" for s t
    by (simp add: api_writes_def)
qed (auto intro: keeps_laws api_fields tx_check_writes ts_init_writes)

section \<open>Property\<close>

text \<open>
  C39: No field of the runtime struct has two writers. A turn of the driver's thread leaves the station
  address, the transmit buffer, the multicast counts and the clock's device alone, and any call of
  another thread leaves both timestamp tables and their counters alone; so an interleaving of the two
  can lose no update of either side.
\<close>

theorem sides_write_apart:
  assumes "env_ok E" "shape E s"
  shows "(\<forall>t. thread_step E s t \<longrightarrow> mac_address t = mac_address s \<and> txbuf t = txbuf s \<and>
      mcast_hash_refcount t = mcast_hash_refcount s \<and> ptp_clock t = ptp_clock s) \<and>
    (\<forall>u. api_step E s u \<longrightarrow> rx_pending u = rx_pending s \<and> rx_unclaimed u = rx_unclaimed s \<and>
      diag_matched_immediate u = diag_matched_immediate s \<and> diag_matched_pending u = diag_matched_pending s \<and>
      diag_queued_pending u = diag_queued_pending s \<and> diag_expired_unmatched u = diag_expired_unmatched s \<and>
      diag_last_summary_ms u = diag_last_summary_ms s)"
proof -
  have "thread_writes E s t" if "thread_step E s t" for t
    using thread_side.thread_step_R [of E s t] that assms by (simp add: behaved)
  moreover have "api_writes E s u" if "api_step E s u" for u
    using api_side.api_step_R [of E s u] that assms by (simp add: behaved)
  ultimately show ?thesis
    unfolding thread_writes_def api_writes_def same_buffers_def same_tables_def by blast
qed

lemma sides_write_apart_witness:
  "\<exists>v t. lan9250_thread_turn busy_chip first_locals (lan_reset busy_chip) = Some (v, t) \<and>
     mcast_hash_refcount t = replicate 64 0 \<and>
     rx_pending (lan9250_gpio_callback (lan_reset busy_chip)) = rx_pending (lan_reset busy_chip)"
proof -
  obtain v t where t: "lan9250_thread_turn busy_chip first_locals (lan_reset busy_chip) = Some (v, t)"
    using busy_turn by blast
  note w = sides_write_apart [OF busy_chip_ok(1) shape_reset(1) [of busy_chip]]
  have "mcast_hash_refcount (lan_reset busy_chip) = replicate 64 0" by (simp only: lan_reset_def lan.simps)
  moreover have "thread_step busy_chip (lan_reset busy_chip) t" using t by (rule turn)
  ultimately show ?thesis using t w irq by (metis (full_types))
qed

end
