(* ===== verification/Lan_Interleave.thy ===== *)
theory Lan_Interleave
  imports Lan_Driver
begin

text \<open>
  Threads at the same time. The timestamp registers share one address window, and a register selects
  what is mapped there; \<open>bank_lock\<close> is to make the selection and what follows it one sequence. Here
  every thread's operations are a sequence of events, the threads' events interleave in any way the
  mutex allows, and every access to the window is shown to meet the bank its own thread selected. The
  indirect MAC registers have no such lock, and an interleaving that corrupts one is exhibited.
\<close>

section \<open>One thread's discipline\<close>

text \<open>An event and whether its transfer succeeded; a thread's state: does it hold the lock, and which
  bank does it know to be selected. A select is known to have worked only if its transfer did.\<close>

type_synonym mark = "ev \<times> bool"

definition bank_step :: "(u32 \<Rightarrow> u16 \<Rightarrow> bool) \<Rightarrow> mark \<Rightarrow> bool \<times> u32 option \<Rightarrow> (bool \<times> u32 option) option" where
  "bank_step home m st = (case (m, st) of ((e, fine), (owns, sel)) \<Rightarrow>
     if e = Lock Bank_lock then (if owns then None else Some (True, None))
     else if e = Unlock Bank_lock then (if owns then Some (False, None) else None)
     else case reg_of e of
       None \<Rightarrow> Some (owns, sel)
     | Some a \<Rightarrow>
         if a = LAN9250_1588_BANK_PORT_GPIO_SEL
         then (if owns then Some (True, if fine then Some (word_of e) else None) else None)
         else if banked a
         then (case sel of Some b \<Rightarrow> (if owns \<and> home b a then Some (owns, sel) else None) | None \<Rightarrow> None)
         else Some (owns, sel))"

text \<open>Newest event first, as in a trace.\<close>

primrec bank_run :: "(u32 \<Rightarrow> u16 \<Rightarrow> bool) \<Rightarrow> mark list \<Rightarrow> bool \<times> u32 option \<Rightarrow> (bool \<times> u32 option) option" where
  "bank_run home [] st = Some st"
| "bank_run home (m # h) st = do { st1 \<leftarrow> bank_run home h st; bank_step home m st1 }"

fun marks :: "lan_env \<Rightarrow> ev list \<Rightarrow> ev list \<Rightarrow> mark list" where
  "marks E [] h = []"
| "marks E (e # new) h = (e, 0 \<le> spi_ret E (e # new @ h)) # marks E new h"

lemma bank_run_append: "bank_run home (g @ h) st = do { st1 \<leftarrow> bank_run home h st; bank_run home g st1 }"
  by (induction g) auto

lemma marks_append: "marks E (g @ f) h = marks E g (f @ h) @ marks E f h"
  by (induction g) auto

text \<open>Which register is at home in which bank: what the receive side uses, and what the senders and
  the start-up code use.\<close>

definition rx_home :: "u32 \<Rightarrow> u16 \<Rightarrow> bool" where
  "rx_home b a \<longleftrightarrow> b = LAN9250_1588_BANK_SEL_PORT_GENERAL \<and> a = LAN9250_1588_CAP_INFO \<or>
     b = LAN9250_1588_BANK_SEL_PORT_RX \<and>
       a \<in> {LAN9250_1588_RX_MSG_HEADER, LAN9250_1588_RX_INGRESS_SEC, LAN9250_1588_RX_INGRESS_NS}"

definition api_home :: "u32 \<Rightarrow> u16 \<Rightarrow> bool" where
  "api_home b a \<longleftrightarrow> b = LAN9250_1588_BANK_SEL_PORT_GENERAL \<and> a = LAN9250_1588_CAP_INFO \<or>
     b = LAN9250_1588_BANK_SEL_PORT_TX \<and>
       a \<in> {LAN9250_1588_TX_MSG_HEADER, LAN9250_1588_TX_EGRESS_SEC, LAN9250_1588_TX_EGRESS_NS,
         LAN9250_1588_TX_TIMESTAMP_CONFIG} \<or>
     b = LAN9250_1588_BANK_SEL_PORT_RX \<and> a = LAN9250_1588_RX_TIMESTAMP_CONFIG"

text \<open>The trace grew by events that lead from one state of the discipline to another.\<close>

definition leads :: "lan_env \<Rightarrow> (u32 \<Rightarrow> u16 \<Rightarrow> bool) \<Rightarrow> bool \<times> u32 option \<Rightarrow> bool \<times> u32 option \<Rightarrow> lan \<Rightarrow> lan \<Rightarrow> bool" where
  "leads E home x y s t \<longleftrightarrow> (\<exists>new. trace t = new @ trace s \<and>
     bank_run home (marks E new (trace s)) x = Some y)"

lemma leads_refl: "leads E home x x s s"
  unfolding leads_def by (intro exI [of _ "[]"]) simp

lemma leads_trans: "leads E home x y s t \<Longrightarrow> leads E home y z t u \<Longrightarrow> leads E home x z s u"
  unfolding leads_def
proof (elim exE conjE)
  fix g f
  assume "trace t = g @ trace s" "bank_run home (marks E g (trace s)) x = Some y"
    "trace u = f @ trace t" "bank_run home (marks E f (trace t)) y = Some z"
  then show "\<exists>new. trace u = new @ trace s \<and> bank_run home (marks E new (trace s)) x = Some z"
    by (intro exI [of _ "f @ g"]) (simp add: marks_append bank_run_append)
qed

lemma leads_act:
  "bank_step home (e, 0 \<le> spi_ret E (e # trace s)) x = Some y \<Longrightarrow> leads E home x y s (act e s)"
  unfolding leads_def by (intro exI [of _ "[e]"]) (simp add: act_def)

lemma leads_trace: "trace t = trace s \<Longrightarrow> leads E home x x s t"
  unfolding leads_def by (intro exI [of _ "[]"]) simp

text \<open>Events that neither move the lock nor the bank.\<close>

definition neutral :: "ev \<Rightarrow> bool" where
  "neutral e \<longleftrightarrow> (\<forall>a. reg_of e = Some a \<longrightarrow> a \<noteq> LAN9250_1588_BANK_PORT_GPIO_SEL \<and> \<not> banked a) \<and>
     e \<noteq> Lock Bank_lock \<and> e \<noteq> Unlock Bank_lock"

lemma ordinary_neutral: "ordinary e \<Longrightarrow> neutral e"
  by (simp add: ordinary_def neutral_def)

lemma neutral_simps [simp]:
  "neutral (Pkt_ref p)" "neutral (Pkt_unref p)" "neutral (Net_recv p)" "neutral (Set_timestamp p a b)"
  "neutral (Tx_timestamp p)" "neutral (Sleep_ms n)" "neutral (Pkt_read p n)"
  by (simp_all add: neutral_def)

lemma neutral_step: "neutral e \<Longrightarrow> bank_step home (e, f) x = Some x"
  by (auto simp: neutral_def bank_step_def split: prod.split option.split)

lemma neutral_run: "list_all neutral new \<Longrightarrow> bank_run home (marks E new h) x = Some x"
  by (induction new) (simp_all add: neutral_step)

lemma leads_neutral: "grew neutral s t \<Longrightarrow> leads E home x x s t"
  unfolding leads_def grew_def using neutral_run by blast

lemma leads_act_neutral: "neutral e \<Longrightarrow> leads E home x x s (act e s)"
  by (intro leads_act neutral_step)

lemma leads_lock:
  "leads E home (False, None) (True, None) s (act (Lock Bank_lock) s)"
  "leads E home (True, b) (False, None) s (act (Unlock Bank_lock) s)"
  by (rule leads_act, simp add: bank_step_def)+

lemma leads_select:
  assumes "byte_order E"
  shows "leads E home (True, b) (True, if 0 \<le> spi_ret E (spi_write E LAN9250_1588_BANK_PORT_GPIO_SEL d # trace s)
    then Some d else None) s (act (spi_write E LAN9250_1588_BANK_PORT_GPIO_SEL d) s)"
  by (rule leads_act) (simp add: bank_step_def reg_of_spi [OF assms], simp add: spi_write_def)

lemma leads_banked:
  assumes "byte_order E" "banked a" "a \<noteq> LAN9250_1588_BANK_PORT_GPIO_SEL" "home b a"
  shows "leads E home (True, Some b) (True, Some b) s (act (spi_read E a) s)"
    "leads E home (True, Some b) (True, Some b) s (act (spi_write E a d) s)"
  by (rule leads_act, simp add: bank_step_def reg_of_spi [OF assms(1)] assms(2-4),
    simp add: spi_read_def spi_write_def)+

section \<open>The sections under the lock\<close>

text \<open>A command that, started in state \<open>x\<close> of the discipline, ends with the lock still held.\<close>

definition ends :: "lan_env \<Rightarrow> (u32 \<Rightarrow> u16 \<Rightarrow> bool) \<Rightarrow> bool \<times> u32 option \<Rightarrow> (lan \<Rightarrow> ('r \<times> lan) option) \<Rightarrow> bool" where
  "ends E home x f \<longleftrightarrow> (\<forall>s r t. f s = Some (r, t) \<longrightarrow> (\<exists>b. leads E home x (True, b) s t))"

named_theorems ends_rules \<open>how commands end\<close>

lemma ends_ret [ends_rules]: "ends E home (True, b) (\<lambda>s. Some (r, s))"
  unfolding ends_def using leads_refl by blast

lemma ends_if [ends_rules]: "ends E home x f \<Longrightarrow> ends E home x g \<Longrightarrow> ends E home x (if c then f else g)"
  by simp

lemma ends_select [ends_rules]:
  assumes "byte_order E" "ends E home (True, Some d) k"
  shows "ends E home (True, b) (or_stop (lan9250_1588_bank_select E d) q k)"
  unfolding ends_def
proof (intro allI impI)
  fix s r t
  assume run: "or_stop (lan9250_1588_bank_select E d) q k s = Some (r, t)"
  let ?e = "spi_write E LAN9250_1588_BANK_PORT_GPIO_SEL d"
  have s1: "leads E home (True, b) (True, if 0 \<le> spi_ret E (?e # trace s) then Some d else None) s (act ?e s)"
    by (rule leads_select [OF assms(1)])
  have run: "(if spi_ret E (?e # trace s) < 0 then Some (q, act ?e s) else k (act ?e s)) = Some (r, t)"
    using run by (simp add: or_stop_def lan9250_1588_bank_select_def lan9250_write_sys_reg_def act_def Let_def
        split: if_splits)
  show "\<exists>c. leads E home (True, b) (True, c) s t"
  proof (cases "spi_ret E (?e # trace s) < 0")
    case True
    with run s1 show ?thesis by auto
  next
    case False
    then obtain c where "leads E home (True, Some d) (True, c) (act ?e s) t"
      using run [unfolded if_not_P [OF False]] assms(2) unfolding ends_def by blast
    with False s1 show ?thesis using leads_trans by fastforce
  qed
qed

lemma ends_read [ends_rules]:
  assumes "byte_order E" "banked a" "a \<noteq> LAN9250_1588_BANK_PORT_GPIO_SEL" "home b a"
    and k: "\<And>v. ends E home (True, Some b) (k v)"
  shows "ends E home (True, Some b) (or_stop_q (lan9250_read_sys_reg E a) q k)"
  unfolding ends_def
proof (intro allI impI)
  fix s r t
  let ?s1 = "act (spi_read E a) s"
  assume "or_stop_q (lan9250_read_sys_reg E a) q k s = Some (r, t)"
  then have "t = ?s1 \<or> k (le32 (spi_rx E (trace ?s1))) ?s1 = Some (r, t)"
    by (auto simp: or_stop_q_def lan9250_read_sys_reg_def Let_def split: if_splits)
  moreover have "leads E home (True, Some b) (True, Some b) s ?s1"
    by (rule leads_banked [of E a home b, OF assms(1-4)])
  ultimately show "\<exists>c. leads E home (True, Some b) (True, c) s t"
    using k leads_trans unfolding ends_def by blast
qed

text \<open>A received frame: general bank for the count, receive bank for the capture.\<close>

lemma rx_capture_ends:
  assumes "byte_order E"
  shows "ends E rx_home (True, b) (rx_capture E p k)"
proof -
  have last: "ends E rx_home (True, c) (\<lambda>s. do {
           (ret, s1) \<leftarrow> lan9250_write_sys_reg E LAN9250_1588_INT_STS LAN9250_1588_INT_STS_RX_TS_INT s;
           Some (rx_event E p k (hw_id h) sec ns s1)
         })" for c h sec ns
    unfolding ends_def
  proof (intro allI impI)
    fix s r t
    let ?s1 = "act (rx_ack E) s"
    assume "do {
           (ret, s1) \<leftarrow> lan9250_write_sys_reg E LAN9250_1588_INT_STS LAN9250_1588_INT_STS_RX_TS_INT s;
           Some (rx_event E p k (hw_id h) sec ns s1)
         } = Some (r, t)"
    then have t: "t = snd (rx_event E p k (hw_id h) sec ns ?s1)"
      by (auto simp: lan9250_write_sys_reg_def Let_def)
    have "neutral (rx_ack E)"
      using reg_of_spi(1) [OF assms] by (simp add: neutral_def banked_def dev_eval) (simp add: spi_write_def)
    then have 1: "leads E rx_home (True, c) (True, c) s ?s1" by (rule leads_act_neutral)
    have "grew neutral ?s1 t"
      unfolding t by (auto simp: rx_event_def stash_unclaimed_def grew_def act_def Let_def split: option.split)
    from leads_trans [OF 1 leads_neutral [OF this]]
    show "\<exists>c'. leads E rx_home (True, c) (True, c') s t" by blast
  qed
  show ?thesis
    unfolding rx_capture_def
    by (intro ends_rules assms last) (simp_all add: banked_def rx_home_def dev_eval)
qed

text \<open>A sent frame: the same with the transmit bank, after polling the count.\<close>

lemma tx_poll_leads:
  assumes "byte_order E"
  shows "tx_poll E n c s = Some (v, t) \<Longrightarrow>
    leads E api_home (True, Some LAN9250_1588_BANK_SEL_PORT_GENERAL) (True, Some LAN9250_1588_BANK_SEL_PORT_GENERAL) s t"
proof (induction n arbitrary: c s)
  case 0
  then show ?case by (simp add: leads_refl)
next
  case (Suc n)
  let ?g = "(True, Some LAN9250_1588_BANK_SEL_PORT_GENERAL)"
  let ?s1 = "act (spi_read E LAN9250_1588_CAP_INFO) s"
  have 1: "leads E api_home ?g ?g s ?s1"
    by (rule leads_banked [OF assms]) (simp_all add: banked_def api_home_def dev_eval)
  have 2: "leads E api_home ?g ?g ?s1 (act (Sleep_ms 1) ?s1)" by (rule leads_act_neutral) simp
  have "t = ?s1 \<or> tx_poll E n (le32 (spi_rx E (trace ?s1))) (act (Sleep_ms 1) ?s1) = Some (v, t)"
    using Suc.prems by (auto simp: lan9250_read_sys_reg_def Let_def split: if_splits)
  then show ?case using 1 leads_trans [OF leads_trans [OF 1 2] Suc.IH] by blast
qed

lemma tx_capture_ends:
  assumes "byte_order E"
  shows "ends E api_home (True, b) (tx_capture E p k)"
proof -
  have last: "ends E api_home (True, c) (\<lambda>s. do {
       (ret, s2) \<leftarrow> lan9250_write_sys_reg E LAN9250_1588_INT_STS LAN9250_1588_INT_STS_TX_TS_INT
         (tx_event E p k (hw_id h) sec ns s);
       Some ((), s2)
     })" for c h sec ns
    unfolding ends_def
  proof (intro allI impI)
    fix s r t
    let ?s1 = "tx_event E p k (hw_id h) sec ns s"
    assume "do {
       (ret, s2) \<leftarrow> lan9250_write_sys_reg E LAN9250_1588_INT_STS LAN9250_1588_INT_STS_TX_TS_INT ?s1;
       Some ((), s2)
     } = Some (r, t)"
    then have t: "t = act (tx_ack E) ?s1" by (simp add: lan9250_write_sys_reg_def Let_def tx_ack_def)
    have "grew neutral s ?s1" by (auto simp: tx_event_def grew_def act_def Let_def)
    then have 1: "leads E api_home (True, c) (True, c) s ?s1" by (rule leads_neutral)
    have "neutral (tx_ack E)"
      using reg_of_spi(1) [OF assms] by (simp add: neutral_def banked_def dev_eval tx_ack_def) (simp add: spi_write_def)
    then show "\<exists>c'. leads E api_home (True, c) (True, c') s t"
      unfolding t using leads_trans [OF 1 leads_act_neutral] by blast
  qed
  have read: "ends E api_home (True, Some LAN9250_1588_BANK_SEL_PORT_GENERAL) (\<lambda>s. do {
      (cap, s1) \<leftarrow> tx_poll E 5 0 s;
      case cap of None \<Rightarrow> Some ((), s1) | Some cap_info \<Rightarrow> f cap_info s1
    })" if f: "\<And>c. ends E api_home (True, Some LAN9250_1588_BANK_SEL_PORT_GENERAL) (f c)" for f
    unfolding ends_def
  proof (intro allI impI)
    fix s r t
    assume "do {
      (cap, s1) \<leftarrow> tx_poll E 5 0 s;
      case cap of None \<Rightarrow> Some ((), s1) | Some cap_info \<Rightarrow> f cap_info s1
    } = Some (r, t)"
    then obtain cap s1 where 1: "tx_poll E 5 0 s = Some (cap, s1)" "t = s1 \<or> (\<exists>c. f c s1 = Some (r, t))"
      by (auto simp: bind_eq_Some_conv split: option.splits)
    show "\<exists>c. leads E api_home (True, Some LAN9250_1588_BANK_SEL_PORT_GENERAL) (True, c) s t"
      using tx_poll_leads [OF assms 1(1)] 1(2) f leads_trans unfolding ends_def by blast
  qed
  have body: "ends E api_home (True, Some LAN9250_1588_BANK_SEL_PORT_GENERAL) (\<lambda>s1.
      if cap_info AND LAN9250_1588_CAP_INFO_TX_TS_CNT_MASK = 0 then Some ((), s1)
      else or_stop (lan9250_1588_bank_select E LAN9250_1588_BANK_SEL_PORT_TX) ()
        (or_stop_q (lan9250_read_sys_reg E LAN9250_1588_TX_MSG_HEADER) () (\<lambda>msg_header.
         or_stop_q (lan9250_read_sys_reg E LAN9250_1588_TX_EGRESS_SEC) () (\<lambda>sec.
         or_stop_q (lan9250_read_sys_reg E LAN9250_1588_TX_EGRESS_NS) () (\<lambda>ns s. do {
           (ret, s2) \<leftarrow> lan9250_write_sys_reg E LAN9250_1588_INT_STS
             LAN9250_1588_INT_STS_TX_TS_INT (tx_event E p k (hw_id msg_header) sec ns s);
           Some ((), s2)
         })))) s1)" for cap_info
  proof (cases "cap_info AND LAN9250_1588_CAP_INFO_TX_TS_CNT_MASK = 0")
    case False
    then show ?thesis unfolding if_not_P [OF False]
      by (intro ends_rules assms last) (simp_all add: banked_def api_home_def dev_eval)
  qed (simp add: ends_ret)
  show ?thesis
    unfolding tx_capture_def by (intro ends_select assms read body)
qed

section \<open>Whole operations\<close>

text \<open>An operation starts and ends without the lock, whatever happens in between.\<close>

definition bank_kept :: "lan_env \<Rightarrow> (u32 \<Rightarrow> u16 \<Rightarrow> bool) \<Rightarrow> lan \<Rightarrow> lan \<Rightarrow> bool" where
  "bank_kept E home s t \<longleftrightarrow> (shape E s \<longrightarrow> shape E t) \<and> leads E home (False, None) (False, None) s t"

lemma bank_keptI: "balanced E s t \<Longrightarrow> leads E home (False, None) (False, None) s t \<Longrightarrow> bank_kept E home s t"
  by (simp add: bank_kept_def balanced_def)

text \<open>What happens between a lock and its unlock.\<close>

lemma leads_section:
  assumes "leads E home (True, None) (True, b) (act (Lock Bank_lock) s) t"
  shows "leads E home (False, None) (False, None) s (act (Unlock Bank_lock) t)"
  by (rule leads_trans [OF leads_lock(1) leads_trans [OF assms leads_lock(2)]])

lemma expire_neutral: "wf s \<Longrightarrow> grew neutral s (lan9250_1588_rx_pending_expire E now s)"
  using expire_effect [of s E now] unfolding grew_def by (auto simp: expired_def list_all_iff)

lemma match_ends: "byte_order E \<Longrightarrow> ends E rx_home (True, b) (rx_match E p k)"
  unfolding ends_def
proof (intro allI impI)
  fix s a t
  assume E: "byte_order E" and run: "rx_match E p k s = Some (a, t)"
  show "\<exists>c. leads E rx_home (True, b) (True, c) s t"
  proof (cases "find_slot (captured_for k) (rx_unclaimed s)")
    case None
    then show ?thesis using run rx_capture_ends [OF E] unfolding ends_def by (simp add: rx_match_def)
  next
    case (Some i)
    then have "grew neutral s t" using run by (auto simp: rx_match_def grew_def act_def Let_def)
    then show ?thesis using leads_neutral by blast
  qed
qed

lemma rx_check_leads:
  assumes "byte_order E" "wf s" "lan9250_1588_rx_timestamp_check E p n s = Some t"
  shows "leads E rx_home (False, None) (False, None) s t"
  using assms(3)
proof (cases rule: rx_check_cases)
  case 1
  then show ?thesis by (simp add: leads_act_neutral)
next
  case (2 k a s4)
  let ?s1 = "act (Pkt_read p (min n 128)) s" let ?s2 = "act (Lock Bank_lock) ?s1"
  let ?s3 = "lan9250_1588_rx_pending_expire E (uptime E (trace ?s2)) ?s2"
  have 1: "leads E rx_home (True, None) (True, None) ?s2 ?s3"
    using assms(2) by (intro leads_neutral expire_neutral) simp
  obtain b where "leads E rx_home (True, None) (True, b) ?s3 s4"
    using match_ends [OF assms(1)] 2(2) unfolding ends_def by blast
  with 1 have "leads E rx_home (True, None) (True, b) ?s2 s4" by (rule leads_trans)
  have "grew neutral s4 (rx_queue E p k a s4)"
    by (auto simp: rx_queue_def grew_def act_def Let_def split: option.split)
  then have "leads E rx_home (True, b) (True, b) s4 (rx_queue E p k a s4)" by (rule leads_neutral)
  with \<open>leads E rx_home (True, None) (True, b) ?s2 s4\<close>
  have "leads E rx_home (False, None) (False, None) ?s1 t"
    unfolding 2(3) by (rule leads_section [OF leads_trans])
  from leads_trans [OF leads_act_neutral this] show ?thesis by simp
qed

lemma sweep_leads: "wf s \<Longrightarrow> leads E home (False, None) (False, None) s (sweep E s)"
  unfolding sweep_def Let_def
  by (intro leads_section [where b = None] leads_neutral expire_neutral) simp

lemma deliver_leads: "leads E home x x s (deliver E p s)"
  by (rule leads_neutral) (auto simp: deliver_def grew_def act_def Let_def)

lemma tx_check_leads:
  assumes "byte_order E" "lan9250_1588_tx_timestamp_check E p fr n s = Some t"
  shows "leads E api_home (False, None) (False, None) s t"
proof (cases "\<exists>k. lan9250_ptp_parse_header E (take n fr) = Some (Some k)")
  case False
  with assms(2) show ?thesis
    by (auto simp: lan9250_1588_tx_timestamp_check_def bind_eq_Some_conv leads_refl split: option.splits)
next
  case True
  then obtain k u where k: "tx_capture E p k (act (Lock Bank_lock) s) = Some ((), u)" "t = act (Unlock Bank_lock) u"
    using assms(2) by (auto simp: lan9250_1588_tx_timestamp_check_def bind_eq_Some_conv)
  obtain b where "leads E api_home (True, None) (True, b) (act (Lock Bank_lock) s) u"
    using tx_capture_ends [OF assms(1)] k(1) unfolding ends_def by blast
  then show ?thesis unfolding k(2) by (rule leads_section)
qed

text \<open>The start-up code selects each bank in turn.\<close>

lemma ends_then:
  assumes "byte_order E" "ends E home (True, Some d) k"
  shows "ends E home (True, b) (then_ok (lan9250_1588_bank_select E d) k)"
proof -
  have "then_ok (lan9250_1588_bank_select E d) k s =
      (let r = spi_ret E (spi_write E LAN9250_1588_BANK_PORT_GPIO_SEL d # trace s)
       in or_stop (lan9250_1588_bank_select E d) r k s)" for s
    by (simp add: then_ok_def or_stop_def lan9250_1588_bank_select_def lan9250_write_sys_reg_def act_def Let_def)
  then show ?thesis using ends_select [OF assms] unfolding ends_def Let_def by metis
qed

lemma ends_update:
  assumes "byte_order E" "banked a" "a \<noteq> LAN9250_1588_BANK_PORT_GPIO_SEL" "home d a"
    and k: "ends E home (True, Some d) k"
  shows "ends E home (True, Some d)
    (then_ok (query_ok (lan9250_read_sys_reg E a) (\<lambda>v. lan9250_write_sys_reg E a (f v))) k)"
    "ends E home (True, Some d) (query_ok (lan9250_read_sys_reg E a) (\<lambda>v. lan9250_write_sys_reg E a (f v)))"
proof -
  let ?m = "query_ok (lan9250_read_sys_reg E a) (\<lambda>v. lan9250_write_sys_reg E a (f v))"
  have m: "leads E home (True, Some d) (True, Some d) s t" if "?m s = Some (r, t)" for s r t
  proof -
    let ?s1 = "act (spi_read E a) s"
    note s1 = leads_banked(1) [of E a home d s, OF assms(1-4)]
    have "t = ?s1 \<or> t = act (spi_write E a (f (le32 (spi_rx E (trace ?s1))))) ?s1"
      using that by (auto simp: query_ok_def lan9250_read_sys_reg_def lan9250_write_sys_reg_def Let_def
          split: if_splits)
    then show ?thesis
      using s1 leads_trans [OF s1 leads_banked(2) [of E a home d, OF assms(1-4)]] by blast
  qed
  then show "ends E home (True, Some d) ?m" unfolding ends_def by blast
  show "ends E home (True, Some d) (then_ok ?m k)"
    unfolding ends_def
  proof (intro allI impI)
    fix s r t
    assume "then_ok ?m k s = Some (r, t)"
    then obtain q u where q: "?m s = Some (q, u)" "t = u \<or> k u = Some (r, t)"
      by (auto simp: then_ok_def bind_eq_Some_conv split: if_splits)
    show "\<exists>b. leads E home (True, Some d) (True, b) s t"
      using m [OF q(1)] q(2) k leads_trans unfolding ends_def by blast
  qed
qed

lemma ts_init_leads:
  assumes "byte_order E" "lan9250_1588_timestamping_init E s = Some (r, t)"
  shows "leads E api_home (False, None) (False, None) s t"
proof -
  let ?cfg = "\<lambda>a. query_ok (lan9250_read_sys_reg E a) (\<lambda>v. lan9250_write_sys_reg E a
         ((v AND NOT 0x0000FFFF) OR LAN9250_1588_PTP_MESSAGE_EN_DEFAULT))"
  define seq where "seq = run_cmds [lan9250_1588_bank_select E LAN9250_1588_BANK_SEL_PORT_RX,
      ?cfg LAN9250_1588_RX_TIMESTAMP_CONFIG, lan9250_1588_bank_select E LAN9250_1588_BANK_SEL_PORT_TX,
      ?cfg LAN9250_1588_TX_TIMESTAMP_CONFIG]"
  have "lan9250_1588_timestamping_init E = locked Bank_lock seq"
    unfolding seq_def by (rule lan9250_1588_timestamping_init_def)
  with assms(2) obtain u where u: "seq (act (Lock Bank_lock) s) = Some (r, u)" "t = act (Unlock Bank_lock) u"
    by (auto simp: locked_def bind_eq_Some_conv)
  have "seq = then_ok (lan9250_1588_bank_select E LAN9250_1588_BANK_SEL_PORT_RX)
      (then_ok (?cfg LAN9250_1588_RX_TIMESTAMP_CONFIG)
      (then_ok (lan9250_1588_bank_select E LAN9250_1588_BANK_SEL_PORT_TX) (?cfg LAN9250_1588_TX_TIMESTAMP_CONFIG)))"
    unfolding seq_def by (simp only: run_cmds_fun)
  moreover have "ends E api_home (True, None) \<dots>"
    by (rule ends_then [OF assms(1) ends_update(1) [OF assms(1) _ _ _ ends_then [OF assms(1)
          ends_update(2) [OF assms(1) _ _ _ ends_ret [of E api_home _ 0]]]]])
      (simp_all add: banked_def api_home_def dev_eval)
  ultimately show ?thesis using u leads_section unfolding ends_def by blast
qed

lemma bank_kept_shape: "bank_kept E home s t \<Longrightarrow> shape E s \<Longrightarrow> shape E t"
  by (simp add: bank_kept_def)

lemma bank_kept_laws:
  "bank_kept E home s s"
  "bank_kept E home s t \<Longrightarrow> bank_kept E home t u \<Longrightarrow> bank_kept E home s u"
  "ordinary e \<Longrightarrow> bank_kept E home s (act e s)"
  "length m = length (mac_address s) \<Longrightarrow> bank_kept E home s (s\<lparr>mac_address := m\<rparr>)"
  "length b = length (txbuf s) \<Longrightarrow> bank_kept E home s (s\<lparr>txbuf := b\<rparr>)"
  "length c = length (mcast_hash_refcount s) \<Longrightarrow> bank_kept E home s (s\<lparr>mcast_hash_refcount := c\<rparr>)"
  "bank_kept E home s (s\<lparr>ptp_clock := d\<rparr>)"
proof -
  show "bank_kept E home s t \<Longrightarrow> bank_kept E home t u \<Longrightarrow> bank_kept E home s u"
    unfolding bank_kept_def using leads_trans by blast
  show "ordinary e \<Longrightarrow> bank_kept E home s (act e s)"
    by (simp add: bank_kept_def leads_act_neutral ordinary_neutral)
      (simp add: shape_def wf_def act_def)
qed (simp_all add: bank_kept_def leads_refl leads_trace shape_def wf_def)

interpretation bank_thread: thread_relation "behaved E" "bank_kept (behaved E) rx_home" for E
proof unfold_locales
  let ?E = "behaved E"
  have b: "byte_order ?E" using behaved(1) [of E] by (simp add: env_ok_def)
  show "env_ok ?E" by (rule behaved)
  show "bank_kept ?E rx_home s t" if "shape ?E s" "lan9250_1588_rx_timestamp_check ?E p n s = Some t" for s p n t
    using that rx_check_leads [OF b] by (intro bank_keptI balanced_check) (simp_all add: shape_def)
  show "bank_kept ?E rx_home s (sweep ?E s)" if "shape ?E s" for s
    using that by (intro bank_keptI balanced_sweep sweep_leads) (simp_all add: shape_def)
  show "bank_kept ?E rx_home s (deliver ?E p s)" if "shape ?E s" for s p
    by (intro bank_keptI balanced_deliver deliver_leads)
qed (fact bank_kept_laws bank_kept_shape)+

interpretation bank_api: api_relation "behaved E" "bank_kept (behaved E) api_home" for E
proof unfold_locales
  let ?E = "behaved E"
  have b: "byte_order ?E" using behaved(1) [of E] by (simp add: env_ok_def)
  show "env_ok ?E" by (rule behaved)
  show "bank_kept ?E api_home s t" if "lan9250_1588_tx_timestamp_check ?E p fr n s = Some t" for s p fr n t
    using that by (intro bank_keptI balanced_tx_check tx_check_leads [OF b])
  show "bank_kept ?E api_home s t" if "lan9250_1588_timestamping_init ?E s = Some (r, t)" for s r t
    using that by (intro bank_keptI balanced_ts_init ts_init_leads [OF b])
qed (fact bank_kept_laws bank_kept_shape)+

section \<open>A thread's life\<close>

text \<open>Operations one after the other; between two of them other threads may have changed the struct in
  any way that keeps its shape.\<close>

inductive life :: "(lan_env \<Rightarrow> lan \<Rightarrow> lan \<Rightarrow> bool) \<Rightarrow> lan_env \<Rightarrow> ev list \<Rightarrow> bool" for op E where
  born: "life op E []"
| next_op: "life op E (trace s) \<Longrightarrow> shape E s \<Longrightarrow> op E s t \<Longrightarrow> life op E (trace t)"

text \<open>What such a thread has done so far, possibly in the middle of an operation.\<close>

definition so_far :: "(lan_env \<Rightarrow> lan \<Rightarrow> lan \<Rightarrow> bool) \<Rightarrow> mark list \<Rightarrow> bool" where
  "so_far op l \<longleftrightarrow> (\<exists>E rest h. env_ok E \<and> life op E (rest @ h) \<and> l = marks E h [])"

lemma life_disciplined:
  assumes "life op E h" "\<And>s t. op E s t \<Longrightarrow> shape E s \<Longrightarrow> leads E home (False, None) (False, None) s t"
  shows "bank_run home (marks E h []) (False, None) = Some (False, None)"
  using assms(1)
proof induction
  case born
  then show ?case by simp
next
  case (next_op s t)
  obtain new where "trace t = new @ trace s" "bank_run home (marks E new (trace s)) (False, None) = Some (False, None)"
    using assms(2) [OF next_op(3,2)] unfolding leads_def by blast
  with next_op show ?case by (simp add: marks_append bank_run_append)
qed

lemma so_far_disciplined:
  assumes "so_far op l"
    "\<And>E s t. env_ok E \<Longrightarrow> op E s t \<Longrightarrow> shape E s \<Longrightarrow> leads E home (False, None) (False, None) s t"
  shows "\<exists>x. bank_run home l (False, None) = Some x"
proof -
  obtain E rest h where l: "env_ok E" "life op E (rest @ h)" "l = marks E h []"
    using assms(1) unfolding so_far_def by blast
  have "bank_run home (marks E rest h @ marks E h []) (False, None) = Some (False, None)"
    using life_disciplined [OF l(2) assms(2) [OF l(1)]] by (simp add: marks_append)
  then show ?thesis by (auto simp: l(3) bank_run_append bind_eq_Some_conv)
qed

lemma thread_leads: "env_ok E \<Longrightarrow> thread_step E s t \<Longrightarrow> shape E s \<Longrightarrow> leads E rx_home (False, None) (False, None) s t"
  using bank_thread.thread_step_R [of E s t] by (simp add: behaved bank_kept_def)

lemma api_leads: "env_ok E \<Longrightarrow> api_step E s t \<Longrightarrow> shape E s \<Longrightarrow> leads E api_home (False, None) (False, None) s t"
  using bank_api.api_step_R [of E s t] by (simp add: behaved bank_kept_def)

section \<open>Interleaving\<close>

text \<open>All threads' events, newest first, each with the number of its thread.\<close>

type_synonym global = "(nat \<times> mark) list"

definition own :: "nat \<Rightarrow> global \<Rightarrow> mark list" where
  "own i g = map snd (filter (\<lambda>x. fst x = i) g)"

text \<open>Who holds the bank lock; \<open>k_mutex_lock\<close> returns only when nobody does.\<close>

primrec holder :: "global \<Rightarrow> nat option" where
  "holder [] = None"
| "holder (x # g) = (if fst (snd x) = Lock Bank_lock then Some (fst x)
     else if fst (snd x) = Unlock Bank_lock then None else holder g)"

primrec mutex :: "global \<Rightarrow> bool" where
  "mutex [] = True"
| "mutex (x # g) = (mutex g \<and> (fst (snd x) = Lock Bank_lock \<longrightarrow> holder g = None))"

text \<open>The bank the chip has selected, as far as the last select tells.\<close>

primrec chip_bank :: "global \<Rightarrow> u32 option" where
  "chip_bank [] = None"
| "chip_bank (x # g) = (if reg_of (fst (snd x)) = Some LAN9250_1588_BANK_PORT_GPIO_SEL
     then (if snd (snd x) then Some (word_of (fst (snd x))) else None) else chip_bank g)"

lemma own_Cons: "own i ((j, m) # g) = (if j = i then m # own i g else own i g)"
  by (simp add: own_def)

definition agrees :: "(nat \<Rightarrow> u32 \<Rightarrow> u16 \<Rightarrow> bool) \<Rightarrow> global \<Rightarrow> nat \<Rightarrow> bool" where
  "agrees home g i \<longleftrightarrow> (\<exists>owns sel. bank_run (home i) (own i g) (False, None) = Some (owns, sel) \<and>
     (owns \<longleftrightarrow> holder g = Some i) \<and> (owns \<longrightarrow> sel \<noteq> None \<longrightarrow> chip_bank g = sel))"

text \<open>One event of one thread: its own view stays right, and nobody else's is spoilt.\<close>

lemma agrees_step:
  assumes g: "\<And>i. agrees home g i" and m: "mutex ((j, e, f) # g)"
    and runs: "bank_run (home j) (own j ((j, e, f) # g)) (False, None) = Some x"
  shows "agrees home ((j, e, f) # g) i"
proof -
  obtain owns sel where j: "bank_run (home j) (own j g) (False, None) = Some (owns, sel)"
    "owns \<longleftrightarrow> holder g = Some j" "owns \<longrightarrow> sel \<noteq> None \<longrightarrow> chip_bank g = sel"
    using g [of j] unfolding agrees_def by blast
  have step: "bank_step (home j) (e, f) (owns, sel) = Some x"
    using runs j(1) by (simp add: own_Cons)
  obtain owns' sel' where i: "bank_run (home i) (own i g) (False, None) = Some (owns', sel')"
    "owns' \<longleftrightarrow> holder g = Some i" "owns' \<longrightarrow> sel' \<noteq> None \<longrightarrow> chip_bank g = sel'"
    using g [of i] unfolding agrees_def by blast
  have reg: "reg_of (Lock l) = None" "reg_of (Unlock l) = None" for l by simp_all
  show ?thesis
  proof (cases "i = j")
    case True
    obtain a b where x: "x = (a, b)" by fastforce
    have "(a \<longleftrightarrow> holder ((j, e, f) # g) = Some j) \<and> (a \<longrightarrow> b \<noteq> None \<longrightarrow> chip_bank ((j, e, f) # g) = b)"
      using step j(2,3) unfolding x bank_step_def
      by (auto split: if_splits option.splits)
    then show ?thesis unfolding agrees_def using True runs x by blast
  next
    case False
    have other: "owns' \<longrightarrow> \<not> owns" using i(2) j(2) False by auto
    have "(owns' \<longleftrightarrow> holder ((j, e, f) # g) = Some i) \<and> (owns' \<longrightarrow> sel' \<noteq> None \<longrightarrow> chip_bank ((j, e, f) # g) = sel')"
      using step m i(2,3) j(2) False other unfolding bank_step_def
      by (auto split: if_splits option.splits)
    then show ?thesis unfolding agrees_def using False i(1) by (simp add: own_Cons)
  qed
qed

lemma agrees_always:
  assumes "mutex g" "\<And>i. \<exists>x. bank_run (home i) (own i g) (False, None) = Some x"
  shows "agrees home g i"
  using assms
proof (induction g arbitrary: i)
  case Nil
  show ?case by (auto simp: agrees_def own_def)
next
  case (Cons y g)
  obtain j e f where y: "y = (j, e, f)" by (metis prod.exhaust)
  have older: "\<exists>x. bank_run (home i) (own i g) (False, None) = Some x" for i
    using Cons.prems(2) [of i] by (cases "j = i") (auto simp: y own_Cons bind_eq_Some_conv)
  have "agrees home g i" for i using Cons.prems(1) older by (intro Cons.IH) simp_all
  moreover obtain x where "bank_run (home j) (own j (y # g)) (False, None) = Some x"
    using Cons.prems(2) by blast
  ultimately show ?case using agrees_step Cons.prems(1) unfolding y by blast
qed

text \<open>What held for a whole history held for every part of it.\<close>

lemma mutex_older: "mutex (g @ h) \<Longrightarrow> mutex h"
  by (induction g) simp_all

lemma run_older:
  assumes "bank_run home (own i (g @ h)) x = Some y"
  shows "\<exists>z. bank_run home (own i h) x = Some z"
  using assms by (auto simp: own_def bank_run_append bind_eq_Some_conv)

section \<open>Properties\<close>

definition homes :: "nat \<Rightarrow> u32 \<Rightarrow> u16 \<Rightarrow> bool" where
  "homes i = (if i = 0 then rx_home else api_home)"

text \<open>
  C8: No thread meets another's register bank. Let the driver's thread and any number of other
  threads, which send, configure, start the driver up or use its clock, run at the same time, their
  transfers interleaved in any way the mutex allows. Whenever a thread touches the window of banked
  registers it holds the lock, the bank the chip has selected is the one the register belongs to for
  this thread (receive registers for the driver's thread, transmit registers for the others), and no
  failed select lies between.
\<close>

theorem banks_never_mixed:
  assumes "mutex g" "so_far thread_step (own 0 g)" "\<forall>i. 0 < i \<longrightarrow> so_far api_step (own i g)"
    and "g = later @ (i, e, fine) # before" "reg_of e = Some a" "banked a"
  shows "holder before = Some i \<and> (\<exists>b. chip_bank before = Some b \<and> homes i b a)"
proof -
  let ?here = "(i, e, fine) # before"
  have runs: "\<exists>x. bank_run (homes k) (own k g) (False, None) = Some x" for k
    using so_far_disciplined [OF assms(2) thread_leads] so_far_disciplined [of api_step "own k g", OF _ api_leads]
      assms(3) by (cases "k = 0") (simp_all add: homes_def)
  have "\<exists>x. bank_run (homes k) (own k ?here) (False, None) = Some x" for k
    using runs [of k] run_older unfolding assms(4) by blast
  moreover from this have "\<exists>x. bank_run (homes k) (own k before) (False, None) = Some x" for k
    using run_older [of "homes k" k "[(i, e, fine)]" before] by fastforce
  moreover have "mutex before" using assms(1) mutex_older [of "later @ [(i, e, fine)]" before]
    by (simp add: assms(4))
  ultimately have "agrees homes before i" by (intro agrees_always) simp_all
  then obtain owns sel where s: "bank_run (homes i) (own i before) (False, None) = Some (owns, sel)"
    "owns \<longleftrightarrow> holder before = Some i" "owns \<longrightarrow> sel \<noteq> None \<longrightarrow> chip_bank before = sel"
    unfolding agrees_def by blast
  obtain x where "bank_run (homes i) (own i ?here) (False, None) = Some x"
    using \<open>\<And>k. \<exists>x. bank_run (homes k) (own k ?here) (False, None) = Some x\<close> by blast
  then have "bank_step (homes i) (e, fine) (owns, sel) = Some x" by (simp add: own_Cons s(1))
  then have "owns \<and> (\<exists>b. sel = Some b \<and> homes i b a)"
    using assms(5,6) unfolding bank_step_def
    by (auto simp: banked_def dev_eval split: if_splits option.splits)
  with s(2,3) show ?thesis by auto
qed

lemma alone:
  assumes "mutex g" "holder g = None" "bank_run home l (False, None) = Some (owns, sel)"
  shows "mutex (map (Pair i) l @ g) \<and> (holder (map (Pair i) l @ g) = (if owns then Some i else None))"
  using assms(3)
proof (induction l arbitrary: owns sel)
  case Nil
  then show ?case using assms(1,2) by simp
next
  case (Cons m l)
  obtain e f where m: "m = (e, f)" by fastforce
  obtain o' s' where 1: "bank_run home l (False, None) = Some (o', s')" "bank_step home (e, f) (o', s') = Some (owns, sel)"
    using Cons.prems by (auto simp: m bind_eq_Some_conv)
  show ?case using Cons.IH [OF 1(1)] 1(2) unfolding m bank_step_def
    by (auto split: if_splits option.splits)
qed

text \<open>A Sync sent while the chip has captured one: the driver's thread has made a turn, the sender is
  about to look at the count of captures.\<close>

definition send_chip :: lan_env where
  "send_chip = ptp_chip\<lparr>net_pkt_len := \<lambda>p. 58\<rparr>"

lemma send_chip_ok: "env_ok send_chip"
proof -
  have "length sync_frame = 58" by (simp add: sync_frame_def)
  moreover have "byte_order send_chip" "reads_be16 send_chip"
    using ptp_chip_ok(1) calm_byte_order by (simp_all add: send_chip_def ptp_chip_def byte_order_def reads_be16_def)
  ultimately show ?thesis
    by (simp add: env_ok_def reads_whole_def) (simp add: send_chip_def ptp_chip_def calm_def)
qed

lemma send_chip_bus: "spi_ret send_chip h = 0" "net_pkt_len send_chip p = 58" "net_pkt_read send_chip h = (0, sync_frame)"
  by (simp_all add: send_chip_def ptp_chip_def calm_def)

lemma send_chip_rx: "spi_rx send_chip (spi_read send_chip a # h) = (let b = ucast a :: u8 in
    if b = 0x60 then [1, 0, 0, 0] else if b = 0x74 then [2, 1, 0, 0] else if b = 0x6C then [7, 0, 0, 0]
    else [9, 0, 0, 0])"
  by (simp add: send_chip_def ptp_chip_def calm_def spi_read_def)

definition polled :: "lan \<Rightarrow> lan" where
  "polled s = act (Sleep_ms 1) (act (spi_read send_chip LAN9250_1588_CAP_INFO) s)"

lemma send_chip_poll: "tx_poll send_chip 5 0 s = Some (Some 1, (polled ^^ 5) s)"
proof -
  have "lan9250_read_sys_reg send_chip LAN9250_1588_CAP_INFO u =
      Some (0, 1, act (spi_read send_chip LAN9250_1588_CAP_INFO) u)" for u
    by (simp add: lan9250_read_sys_reg_def send_chip_bus act_def send_chip_rx LAN9250_1588_CAP_INFO_def le32_def Let_def)
  then show ?thesis by (simp add: eval_nat_numeral LAN9250_1588_CAP_INFO_TX_TS_CNT_MASK_def polled_def)
qed

lemma send_chip_sends:
  "\<exists>t rest h. lan9250_tx send_chip 1 (lan_reset send_chip) = Some (0, t) \<and>
     trace t = rest @ spi_read send_chip LAN9250_1588_CAP_INFO #
       spi_write send_chip LAN9250_1588_BANK_PORT_GPIO_SEL LAN9250_1588_BANK_SEL_PORT_GENERAL # Lock Bank_lock # h"
proof -
  let ?sel = "spi_write send_chip LAN9250_1588_BANK_PORT_GPIO_SEL LAN9250_1588_BANK_SEL_PORT_GENERAL"
  let ?fin = "\<lambda>u. act (Sem_give Tx_rx_sem) (act (Unlock Bank_lock) ((polled ^^ 5) (act ?sel (act (Lock Bank_lock) u))))"
  have "length sync_frame = 58" by (simp add: sync_frame_def)
  moreover have "lan9250_ptp_parse_header send_chip sync_frame = Some (Some (0, 258))"
    using parse_complete [OF _ sync_frame_carries] send_chip_ok by (simp add: env_ok_def)
  moreover have "trace (act (spi_read send_chip LAN9250_TX_FIFO_INF) u) =
      spi_read send_chip LAN9250_TX_FIFO_INF # trace u" "txbuf (act e u) = txbuf u" for u e
    by (simp_all add: act_def)
  ultimately have "\<exists>u. lan9250_tx send_chip 1 (lan_reset send_chip) = Some (0, ?fin u)"
    unfolding lan9250_tx_def Let_def
    by (simp add: query_ok_def then_ok_def lan9250_read_sys_reg_def lan9250_write_sys_reg_def send_chip_bus
        act_cmd_def read_packet_def lan9250_write_buf_def lan9250_1588_tx_timestamp_check_def
        tx_capture_def or_stop_def or_stop_q_def lan9250_1588_bank_select_def Let_def send_chip_rx
        send_chip_poll LAN9250_TX_FIFO_INF_def reg_bits le32_def LAN9250_1588_CAP_INFO_TX_TS_CNT_MASK_def) blast
  then obtain u where "lan9250_tx send_chip 1 (lan_reset send_chip) = Some (0, ?fin u)" by blast
  moreover have "\<exists>rest. trace (?fin u) = rest @ spi_read send_chip LAN9250_1588_CAP_INFO # ?sel # Lock Bank_lock # trace u"
    by (simp add: eval_nat_numeral polled_def act_def)
  ultimately show ?thesis by blast
qed

text \<open>The witness: both threads' logs, the sender's cut where it reads the count.\<close>

lemma banks_never_mixed_witness:
  "\<exists>before fine. holder before = Some 1 \<and> chip_bank before = Some LAN9250_1588_BANK_SEL_PORT_GENERAL \<and>
     (\<exists>g. mutex g \<and> so_far thread_step (own 0 g) \<and> own 0 g \<noteq> [] \<and> so_far api_step (own 1 g) \<and>
        g = (1, spi_read send_chip LAN9250_1588_CAP_INFO, fine) # before)"
proof -
  let ?cap = "spi_read send_chip LAN9250_1588_CAP_INFO"
  obtain v t0 where t0: "lan9250_thread_turn busy_chip first_locals (lan_reset busy_chip) = Some (v, t0)"
    using busy_turn by blast
  have l0: "life thread_step busy_chip (trace t0)"
  proof (rule next_op)
    show "life thread_step busy_chip (trace (lan_reset busy_chip))" by (simp add: lan_reset_def born)
  qed (use t0 shape_reset(1) turn in auto)
  obtain t rest h where t: "lan9250_tx send_chip 1 (lan_reset send_chip) = Some (0, t)"
    "trace t = rest @ ?cap # spi_write send_chip LAN9250_1588_BANK_PORT_GPIO_SEL LAN9250_1588_BANK_SEL_PORT_GENERAL #
       Lock Bank_lock # h" using send_chip_sends by blast
  have l1: "life api_step send_chip (trace t)"
  proof (rule next_op)
    show "life api_step send_chip (trace (lan_reset send_chip))" by (simp add: lan_reset_def born)
  qed (use t shape_reset(1) send in auto)
  let ?log0 = "marks busy_chip (trace t0) []"
  let ?h = "?cap # spi_write send_chip LAN9250_1588_BANK_PORT_GPIO_SEL LAN9250_1588_BANK_SEL_PORT_GENERAL # Lock Bank_lock # h"
  let ?log1 = "marks send_chip ?h []"
  let ?g = "map (Pair 1) ?log1 @ map (Pair 0) ?log0 :: global"
  have own: "own 0 ?g = ?log0" "own 1 ?g = ?log1" "1 < i \<Longrightarrow> own i ?g = []" for i
    by (simp_all add: own_def o_def)
  have so0: "so_far thread_step ?log0"
    unfolding so_far_def using l0 busy_chip_ok(1) by (intro exI [of _ busy_chip] exI [of _ "[]"] exI [of _ "trace t0"]) simp
  have so1: "so_far api_step ?log1"
    unfolding so_far_def using l1 send_chip_ok unfolding t(2) by blast
  have "so_far api_step []"
    unfolding so_far_def using send_chip_ok
    by (intro exI [of _ send_chip] exI [of _ "[]"]) (simp add: born)
  then have others: "so_far api_step (own i ?g)" if "0 < i" for i
    using that so1 own(2,3) by (cases "i = 1") auto
  have "bank_run rx_home ?log0 (False, None) = Some (False, None)"
    using life_disciplined [OF l0 thread_leads [OF busy_chip_ok(1)]] .
  then have m0: "mutex (map (Pair 0) ?log0)" "holder (map (Pair 0) ?log0) = None"
    using alone [of "[]" rx_home ?log0 False None 0] by simp_all
  obtain owns sel where "bank_run api_home ?log1 (False, None) = Some (owns, sel)"
    using so_far_disciplined [OF so1 api_leads] by auto
  then have m: "mutex ?g" using alone [OF m0] by blast
  obtain fine before where g: "?g = [] @ (1, ?cap, fine) # before" by auto
  have "byte_order send_chip" using send_chip_ok by (simp add: env_ok_def)
  then have a: "reg_of ?cap = Some LAN9250_1588_CAP_INFO" "banked LAN9250_1588_CAP_INFO"
    by (simp_all add: reg_of_spi banked_def dev_eval)
  have so0': "so_far thread_step (own 0 ?g)" using so0 own(1) by simp
  have "holder before = Some 1 \<and> (\<exists>b. chip_bank before = Some b \<and> homes 1 b LAN9250_1588_CAP_INFO)"
    using banks_never_mixed [OF m so0' _ g a] others by blast
  moreover have "b = LAN9250_1588_BANK_SEL_PORT_GENERAL" if "homes 1 b LAN9250_1588_CAP_INFO" for b
    using that by (auto simp: homes_def api_home_def dev_eval)
  moreover have "own 0 ?g \<noteq> []"
  proof -
    have "trace t0 \<noteq> []"
      using t0 thread_turn_runs [of busy_chip "lan_reset busy_chip" first_locals] busy_chip_ok shape_reset(1) [of busy_chip]
      by (auto simp: env_ok_def shape_def Let_def)
    then show ?thesis unfolding own(1) by (cases "trace t0") simp_all
  qed
  ultimately show ?thesis using m so0' so1 own(2) g by (intro exI [of _ before] exI [of _ fine]) auto
qed

end
