(* ===== verification/Lan_Race.thy ===== *)
theory Lan_Race
  imports Lan_Interleave
begin

text \<open>
  The indirect MAC registers are reached in two transfers, the value and then the command, and no lock
  covers the two (\<open>hash_lock\<close> is held by \<open>lan9250_set_config\<close> alone). An interleaving of a multicast
  join with the PHY access of the driver's thread leaves a wrong word in the hash table.
\<close>

section \<open>The indirect registers over an interleaving\<close>

text \<open>The word last put into the data register, and the registers as a write command finds it there.\<close>

primrec mac_data :: "global \<Rightarrow> u32" where
  "mac_data [] = 0"
| "mac_data (x # g) = (case written (fst (snd x)) of
     Some (a, d) \<Rightarrow> (if a = LAN9250_MAC_CSR_DATA then d else mac_data g) | None \<Rightarrow> mac_data g)"

primrec mac_regs :: "global \<Rightarrow> u8 \<Rightarrow> u32" where
  "mac_regs [] = (\<lambda>r. 0)"
| "mac_regs (x # g) = (case written (fst (snd x)) of
     Some (a, c) \<Rightarrow> (if a = LAN9250_MAC_CSR_CMD \<and> c AND LAN9250_MAC_CSR_CMD_READ = 0
       then (mac_regs g)(ucast c := mac_data g) else mac_regs g)
   | None \<Rightarrow> mac_regs g)"

text \<open>Both mutexes are respected.\<close>

primrec hash_holder :: "global \<Rightarrow> nat option" where
  "hash_holder [] = None"
| "hash_holder (x # g) = (if fst (snd x) = Lock Hash_lock then Some (fst x)
     else if fst (snd x) = Unlock Hash_lock then None else hash_holder g)"

primrec hash_mutex :: "global \<Rightarrow> bool" where
  "hash_mutex [] = True"
| "hash_mutex (x # g) = (hash_mutex g \<and> (fst (snd x) = Lock Hash_lock \<longrightarrow> hash_holder g = None) \<and>
     (fst (snd x) = Unlock Hash_lock \<longrightarrow> hash_holder g = Some (fst x)))"

section \<open>Both sides\<close>

text \<open>A chip whose PHY has raised its interrupt; nothing is busy, every transfer succeeds.\<close>

definition link_chip :: lan_env where
  "link_chip = calm\<lparr>spi_rx := \<lambda>h. (case h of
     Spi [i, a, b] n # _ \<Rightarrow> (if b = 0x58 then [0, 0, 0, 4] else [0, 0, 0, 0]) | _ \<Rightarrow> [0, 0, 0, 0])\<rparr>"

lemma link_chip_ok: "env_ok link_chip" "byte_order link_chip"
proof -
  show "byte_order link_chip" using calm_byte_order by (simp add: link_chip_def byte_order_def)
  then show "env_ok link_chip"
    using calm_ok by (simp add: env_ok_def) (simp add: link_chip_def reads_whole_def reads_be16_def)
qed

lemma link_chip_read: "lan9250_read_sys_reg link_chip a s =
    Some (0, if (ucast a :: u8) = 0x58 then 0x04000000 else 0, act (spi_read link_chip a) s)"
  by (simp add: lan9250_read_sys_reg_def Let_def link_chip_def calm_def spi_read_def act_def le32_def)

lemma link_chip_write: "lan9250_write_sys_reg link_chip a d s = Some (0, act (spi_write link_chip a d) s)"
  by (simp add: lan9250_write_sys_reg_def Let_def link_chip_def calm_def)

abbreviation "CMD_R \<equiv> spi_read link_chip LAN9250_MAC_CSR_CMD"
abbreviation "DATA_R \<equiv> spi_read link_chip LAN9250_MAC_CSR_DATA"
abbreviation "CMD_W \<equiv> spi_write link_chip LAN9250_MAC_CSR_CMD"
abbreviation "DATA_W \<equiv> spi_write link_chip LAN9250_MAC_CSR_DATA"

definition extended :: "lan \<Rightarrow> ev list \<Rightarrow> lan" where
  "extended s new = s\<lparr>trace := new @ trace s\<rparr>"

lemma extended_simps: "act e s = extended s [e]" "extended (extended s f) g = extended s (g @ f)"
  "trace (extended s f) = f @ trace s"
  by (simp_all add: extended_def act_def)

lemma link_chip_mac_ready: "mac_ready link_chip s = Some (0, extended s [CMD_R])"
  by (simp add: mac_ready_def lan9250_wait_ready_def wait_ready_loop.simps link_chip_read dev_eval extended_simps)

lemma link_chip_write_mac: "lan9250_write_mac_reg link_chip x d s =
    Some (0, extended s [CMD_R, CMD_W (ucast x OR LAN9250_MAC_CSR_CMD_BUSY), DATA_W d, CMD_R])"
  by (simp add: lan9250_write_mac_reg_def then_ok_def link_chip_mac_ready link_chip_write extended_simps)

definition fetched :: "u8 \<Rightarrow> ev list" where
  "fetched x = [DATA_R, CMD_R, CMD_W (ucast x OR LAN9250_MAC_CSR_CMD_BUSY OR LAN9250_MAC_CSR_CMD_READ), CMD_R]"

lemma link_chip_read_mac: "lan9250_read_mac_reg link_chip x s = Some (0, 0, extended s (fetched x))"
  by (simp add: lan9250_read_mac_reg_def then_ok_def link_chip_mac_ready link_chip_write link_chip_read
      extended_simps fetched_def LAN9250_MAC_CSR_DATA_def)

lemma link_chip_phy_ready: "phy_ready link_chip s = Some (0, extended s (fetched LAN9250_HMAC_MII_ACC))"
  by (simp add: phy_ready_def lan9250_wait_mac_ready_def wait_mac_loop.simps link_chip_read_mac)

lemma link_chip_read_phy: "\<exists>rest. lan9250_read_phy_reg link_chip x s =
    Some (0, 0, extended s (rest @ DATA_W (mii_select x) # CMD_R # fetched LAN9250_HMAC_MII_ACC))"
proof (intro exI)
  show "lan9250_read_phy_reg link_chip x s = Some (0, 0, extended s ((fetched LAN9250_HMAC_MII_DATA @
      fetched LAN9250_HMAC_MII_ACC @ [CMD_R, CMD_W (ucast LAN9250_HMAC_MII_ACC OR LAN9250_MAC_CSR_CMD_BUSY)]) @
      DATA_W (mii_select x) # CMD_R # fetched LAN9250_HMAC_MII_ACC))"
    by (simp add: lan9250_read_phy_reg_def then_ok_def link_chip_phy_ready link_chip_write_mac
        link_chip_read_mac extended_simps)
qed

text \<open>The driver's thread, up to the moment it has put the PHY's address into the data register.\<close>

definition link_log :: "ev list" where
  "link_log = DATA_W (mii_select LAN9250_PHY_INTERRUPT_SOURCE) # CMD_R # fetched LAN9250_HMAC_MII_ACC @
     [spi_read link_chip LAN9250_INT_STS, spi_write link_chip LAN9250_INT_EN 0,
      spi_read link_chip LAN9250_INT_EN, Sem_take Int_sem]"

lemma link_turn:
  "\<exists>v t rest. lan9250_thread_turn link_chip first_locals (lan_reset link_chip) = Some (v, t) \<and> trace t = rest @ link_log"
proof -
  let ?s4 = "extended (lan_reset link_chip) [spi_read link_chip LAN9250_INT_STS,
    spi_write link_chip LAN9250_INT_EN 0, spi_read link_chip LAN9250_INT_EN, Sem_take Int_sem]"
  obtain rest where "lan9250_read_phy_reg link_chip LAN9250_PHY_INTERRUPT_SOURCE ?s4 =
      Some (0, 0, extended ?s4 (rest @ DATA_W (mii_select LAN9250_PHY_INTERRUPT_SOURCE) # CMD_R #
        fetched LAN9250_HMAC_MII_ACC))"
    using link_chip_read_phy by blast
  then have "link_event link_chip 0 ?s4 = Some (0, extended ?s4 (rest @
      DATA_W (mii_select LAN9250_PHY_INTERRUPT_SOURCE) # CMD_R # fetched LAN9250_HMAC_MII_ACC))"
    by (simp add: link_event_def Let_def)
  then have "\<exists>v. lan9250_thread_turn link_chip first_locals (lan_reset link_chip) =
      Some (v, extended (lan_reset link_chip) (spi_write link_chip LAN9250_INT_EN 0 # rest @ link_log))"
    by (simp add: lan9250_thread_turn_def first_locals_def link_chip_read link_chip_write extended_simps LAN9250_INT_EN_def
        LAN9250_INT_STS_def reg_bits Let_def link_log_def)
  then show ?thesis by (auto simp: extended_simps lan_reset_def)
qed

text \<open>The member that joins the gPTP group meanwhile: before and after the moment it is preempted.\<close>

definition join_late :: "ev list" where
  "join_late = [Unlock Hash_lock, CMD_R, CMD_W (ucast LAN9250_HMAC_HASHH OR LAN9250_MAC_CSR_CMD_BUSY), DATA_W 0, CMD_R,
     CMD_R, CMD_W (ucast LAN9250_HMAC_HASHL OR LAN9250_MAC_CSR_CMD_BUSY)]"

definition join_early :: "ev list" where
  "join_early = [DATA_W 8, CMD_R, Lock Hash_lock]"

lemma gptp_hash: "lan9250_mcast_hash_bit gptp_group = 3"
  by code_simp

lemma gptp_words: "mcast_hash_words ((replicate 64 0)[3 := 1]) = (0, 8)"
  by code_simp

lemma link_join:
  "\<exists>t. lan9250_set_config link_chip (Filter True gptp_group True) (lan_reset link_chip) = Some (0, t) \<and>
     trace t = join_late @ join_early"
proof -
  have "mcast_hash_refcount (count_group gptp_group True (act (Lock Hash_lock) (lan_reset link_chip))) =
      (replicate 64 0)[3 := 1]"
    by (simp add: count_group_def gptp_hash lan_reset_def act_def)
  then have "lan9250_mcast_hash_write link_chip (count_group gptp_group True (act (Lock Hash_lock) (lan_reset link_chip))) =
      Some (0, extended (count_group gptp_group True (act (Lock Hash_lock) (lan_reset link_chip)))
        [CMD_R, CMD_W (ucast LAN9250_HMAC_HASHH OR LAN9250_MAC_CSR_CMD_BUSY), DATA_W 0, CMD_R,
         CMD_R, CMD_W (ucast LAN9250_HMAC_HASHL OR LAN9250_MAC_CSR_CMD_BUSY), DATA_W 8, CMD_R])"
    by (simp add: lan9250_mcast_hash_write_def gptp_words then_ok_def link_chip_write_mac extended_simps)
  moreover have "trace (count_group gptp_group True u) = trace u" for u
    by (simp add: count_group_def Let_def)
  ultimately show ?thesis
    by (simp add: locked_def gptp_group_def extended_simps lan_reset_def join_late_def join_early_def
        extended_def act_def)
qed

section \<open>The interleaving\<close>

definition torn :: global where
  "torn = map (Pair 1) (marks link_chip join_late join_early) @ map (Pair 0) (marks link_chip link_log [])
     @ map (Pair 1) (marks link_chip join_early [])"

lemma torn_own: "own 0 torn = marks link_chip link_log []"
  "own 1 torn = marks link_chip (join_late @ join_early) []"
  by (simp_all add: own_def torn_def o_def marks_append)

lemma written_link: "written (spi_write link_chip a d) = Some (a, d)" "written (spi_read link_chip a) = None"
  "written (Lock l) = None" "written (Unlock l) = None" "written (Sem_take m) = None"
  using written_write [OF link_chip_ok(2)] written_read [OF link_chip_ok(2)] by simp_all

text \<open>The registers after the interleaving, and had the joining thread run alone.\<close>

lemma torn_regs: "mac_regs torn LAN9250_HMAC_HASHL = mii_select LAN9250_PHY_INTERRUPT_SOURCE"
  "mac_regs torn LAN9250_HMAC_HASHH = 0"
  by (simp_all add: torn_def join_late_def join_early_def link_log_def fetched_def written_link dev_eval)

lemma torn_locks: "hash_mutex torn" "mutex torn"
  by (simp_all add: torn_def join_late_def join_early_def link_log_def fetched_def spi_read_def spi_write_def)

lemma alone_regs: "mac_regs (filter (\<lambda>x. fst x = 1) torn) LAN9250_HMAC_HASHL = 8"
  "mac_regs (filter (\<lambda>x. fst x = 1) torn) LAN9250_HMAC_HASHH = 0"
  by (simp_all add: torn_def join_late_def join_early_def written_link dev_eval)

lemma gptp_listed: "bit_listed h l gptp_group \<longleftrightarrow> bit l 3"
  by (simp add: bit_listed_def gptp_hash)

lemma torn_lives: "so_far thread_step (own 0 torn)" "so_far api_step (own 1 torn)"
proof -
  obtain v t rest where t: "lan9250_thread_turn link_chip first_locals (lan_reset link_chip) = Some (v, t)"
    "trace t = rest @ link_log" using link_turn by blast
  have "life thread_step link_chip (trace t)"
  proof (rule next_op)
    show "life thread_step link_chip (trace (lan_reset link_chip))" by (simp add: lan_reset_def born)
  qed (use t shape_reset(1) turn in auto)
  then show "so_far thread_step (own 0 torn)"
    unfolding so_far_def torn_own t(2) using link_chip_ok(1)
    by (intro exI [of _ link_chip] exI [of _ rest] exI [of _ link_log]) simp
  obtain u where u: "lan9250_set_config link_chip (Filter True gptp_group True) (lan_reset link_chip) = Some (0, u)"
    "trace u = join_late @ join_early" using link_join by blast
  have "api_step link_chip (lan_reset link_chip) u" by (rule set_config [OF _ u(1)]) simp
  then have "life api_step link_chip (trace u)"
  proof (rule next_op [rotated 2])
    show "life api_step link_chip (trace (lan_reset link_chip))" by (simp add: lan_reset_def born)
  qed (rule shape_reset(1))
  then show "so_far api_step (own 1 torn)"
    unfolding so_far_def torn_own u(2) using link_chip_ok(1)
    by (intro exI [of _ link_chip] exI [of _ "[]"] exI [of _ "join_late @ join_early"]) simp
qed

text \<open>
  C40: A multicast join can be lost to a link change. The driver's thread (0) handles a PHY interrupt while
  another (1) joins the gPTP group; both mutexes are respected and every transfer succeeds. The join returns
  0, and had it run alone the bit the driver assigns to the group would be set in the hash words. But the
  thread puts the PHY's address into the MAC data register between the two transfers of the join's register
  write, so the low hash word becomes that address and the group's bit is not set.
\<close>

theorem mac_write_corrupted:
  "\<exists>g t. mutex g \<and> hash_mutex g \<and> so_far thread_step (own 0 g) \<and> so_far api_step (own 1 g) \<and>
     lan9250_set_config link_chip (Filter True gptp_group True) (lan_reset link_chip) = Some (0, t) \<and>
     own 1 g = marks link_chip (trace t) [] \<and>
     (let joined = filter (\<lambda>x. fst x = 1) g in
        bit_listed (mac_regs joined LAN9250_HMAC_HASHH) (mac_regs joined LAN9250_HMAC_HASHL) gptp_group) \<and>
     mac_regs g LAN9250_HMAC_HASHL = mii_select LAN9250_PHY_INTERRUPT_SOURCE \<and>
     \<not> bit_listed (mac_regs g LAN9250_HMAC_HASHH) (mac_regs g LAN9250_HMAC_HASHL) gptp_group"
proof -
  obtain t where "lan9250_set_config link_chip (Filter True gptp_group True) (lan_reset link_chip) = Some (0, t)"
    "trace t = join_late @ join_early" using link_join by blast
  moreover have "bit (8 :: u32) 3" "\<not> bit (mii_select LAN9250_PHY_INTERRUPT_SOURCE) 3" by code_simp+
  ultimately show ?thesis
    using torn_locks torn_lives
    by (intro exI [of _ torn] exI [of _ t]) (simp add: torn_own [unfolded One_nat_def] alone_regs [unfolded One_nat_def]
        torn_regs gptp_listed del: lan9250_set_config.simps)
qed

end
