(* ===== verification/Lan_Senders.thy ===== *)
theory Lan_Senders
  imports Lan_Interleave
begin

text \<open>
  Several threads that send at once. \<open>lan9250_tx\<close> puts a frame into the transmit FIFO in several
  transfers, and the semaphore \<open>tx_rx_sem\<close> alone keeps two frames from being mixed. It does so as long
  as no frame was received: \<open>lan9250_rx\<close> gives the semaphore without having taken it.
\<close>

section \<open>The events of one send\<close>

abbreviation sem_quiet :: "ev \<Rightarrow> bool" where
  "sem_quiet e \<equiv> sem_step e = 0"

lemma run_cmds_last:
  assumes "list_all (adds P) ms" "run_cmds (ms @ [m]) s = Some (r, t)"
  shows "\<exists>new u. trace u = new @ trace s \<and> list_all P new \<and> (t = u \<or> m u = Some (r, t))"
  using assms
proof (induction ms arbitrary: s)
  case Nil
  then show ?case by (intro exI [of _ "[]"] exI [of _ s]) simp
next
  case (Cons n ms)
  have "run_cmds ((n # ms) @ [m]) s = then_ok n (run_cmds (ms @ [m])) s"
    by (cases "ms @ [m]") simp_all
  with Cons.prems(2) have "then_ok n (run_cmds (ms @ [m])) s = Some (r, t)" by simp
  then obtain q v where q: "n s = Some (q, v)" "t = v \<or> run_cmds (ms @ [m]) v = Some (r, t)"
    by (auto simp: then_ok_def bind_eq_Some_conv split: if_splits)
  have "adds P n" using Cons.prems(1) by simp
  then obtain new where new: "trace v = new @ trace s" "list_all P new"
    using q(1) unfolding adds_def by blast
  from q(2) show ?case
  proof
    assume "run_cmds (ms @ [m]) v = Some (r, t)"
    then obtain more u where "trace u = more @ trace v" "list_all P more" "t = u \<or> m u = Some (r, t)"
      using Cons.IH [of v] Cons.prems(1) by auto
    with new show ?thesis by (intro exI [of _ "more @ new"] exI [of _ u]) simp
  qed (use new in blast)
qed

definition command_a :: "lan_env \<Rightarrow> pkt \<Rightarrow> ev" where
  "command_a E p = spi_write E LAN9250_TX_DATA_FIFO (LAN9250_TX_CMD_A OR of_nat (net_pkt_len E p))"

lemma drain_adds: "adds sem_quiet (drain_status E n)" if "byte_order E"
proof (rule adds_emits, induction n)
  case 0
  show ?case by (simp add: emits_def)
next
  case (Suc n)
  have "drain_status E (Suc n) = query_ok (lan9250_read_sys_reg E LAN9250_TX_STATUS_FIFO) (\<lambda>tmp. drain_status E n)"
    by (rule ext) simp
  with Suc show ?case by (simp add: emits_query emits_read spi_read_def)
qed

text \<open>A send looks at the free space, takes the semaphore, writes, and gives it back last, if at all.\<close>

lemma tx_shape:
  assumes E: "byte_order E" and run: "lan9250_tx E p s = Some (r, t)"
  obtains (looked) "trace t = spi_read E LAN9250_TX_FIFO_INF # trace s"
  | (sent) mid last where "list_all sem_quiet mid" "last \<in> {[], [Sem_give Tx_rx_sem]}"
    "trace t = last @ mid @ [command_a E p, Sem_take Tx_rx_sem, spi_read E LAN9250_TX_FIFO_INF] @ trace s"
proof -
  let ?len = "net_pkt_len E p" and ?e = "spi_read E LAN9250_TX_FIFO_INF"
  let ?s1 = "act ?e s" let ?s2 = "act (Sem_take Tx_rx_sem) ?s1" let ?s3 = "act (command_a E p) ?s2"
  define fin where "fin = (\<lambda>s. do {
           s1 \<leftarrow> lan9250_1588_tx_timestamp_check E p (txbuf s) ?len s;
           Some (0 :: int, act (Sem_give Tx_rx_sem) s1)
         })"
  define body where "body n = [lan9250_write_sys_reg E LAN9250_TX_DATA_FIFO (LAN9250_TX_CMD_B_PACKET_TAG OR of_nat ?len),
        read_packet E p ?len,
        (\<lambda>s. lan9250_write_buf E (txbuf s @ after_txbuf E) (LAN9250_ALIGN ?len) s),
        drain_status E n]" for n
  have quiet: "list_all (adds sem_quiet) (body n)" for n
    using drain_adds [OF E] write_tally(2) [OF E]
    by (auto simp: body_def adds_def lan9250_write_sys_reg_def read_packet_def lan9250_write_buf_def Let_def
        act_def split: if_splits prod.splits)
  have tx: "lan9250_tx E p s = query_ok (lan9250_read_sys_reg E LAN9250_TX_FIFO_INF) (\<lambda>v. then_ok (act_cmd (Sem_take Tx_rx_sem))
      (then_ok (lan9250_write_sys_reg E LAN9250_TX_DATA_FIFO (LAN9250_TX_CMD_A OR of_nat ?len))
        (run_cmds (body (unat (drop_bit 16 (v AND LAN9250_TX_FIFO_INF_TXSUSED))) @ [fin])))) s"
    by (simp only: lan9250_tx_def Let_def run_cmds_fun body_def fin_def append.simps)
  obtain n where "t = ?s1 \<or> t = ?s3 \<or> run_cmds (body n @ [fin]) ?s3 = Some (r, t)"
    using run unfolding tx
    by (auto simp: query_ok_def then_ok_def lan9250_read_sys_reg_def lan9250_write_sys_reg_def act_cmd_def
        command_a_def Let_def split: if_splits)
  then consider "t = ?s1" | "t = ?s3" | "run_cmds (body n @ [fin]) ?s3 = Some (r, t)" by blast
  then show thesis
  proof cases
    case 1
    then show ?thesis by (intro looked) (simp add: act_def)
  next
    case 2
    then show ?thesis by (intro sent [of "[]" "[]"]) (simp_all add: act_def)
  next
    case 3
    obtain new u where u: "trace u = new @ trace ?s3" "list_all sem_quiet new" "t = u \<or> fin u = Some (r, t)"
      using run_cmds_last [OF quiet 3] by blast
    from u(3) show ?thesis
    proof
      assume "t = u"
      with u show ?thesis by (intro sent [of new "[]"]) (simp_all add: act_def)
    next
      assume "fin u = Some (r, t)"
      then obtain v where v: "lan9250_1588_tx_timestamp_check E p (txbuf u) ?len u = Some v" "t = act (Sem_give Tx_rx_sem) v"
        by (auto simp: fin_def bind_eq_Some_conv)
      obtain ck where "trace v = ck @ trace u" "list_all uncounted ck"
        using tx_check_uncounted [OF E v(1)] by (auto simp: grew_def)
      with u v(2) show ?thesis
        by (intro sent [of "ck @ new" "[Sem_give Tx_rx_sem]"]) (auto simp: act_def uncounted_def list_all_iff)
    qed
  qed
qed

section \<open>Who is sending\<close>

text \<open>\<open>inside h\<close>: the semaphores a thread with the history \<open>h\<close> has taken and not given back. A
  history is in order if its thread writes to the transmit FIFO and gives the semaphore only inside.\<close>

definition inside :: "ev list \<Rightarrow> int" where
  "inside h = - sem_net h"

primrec send_ok :: "ev list \<Rightarrow> bool" where
  "send_ok [] = True"
| "send_ok (e # h) = (send_ok h \<and> (e = Sem_give Tx_rx_sem \<or> fifo_written e \<noteq> [] \<longrightarrow> 0 < inside h))"

lemma sem_step_cases: "sem_step e = (if e = Sem_give Tx_rx_sem then 1 else if e = Sem_take Tx_rx_sem then - 1 else 0)"
  by (cases e rule: sem_step.cases) simp_all

lemma inside_Cons [simp]: "inside [] = 0" "inside (e # h) = inside h - sem_step e"
  by (simp_all add: inside_def sem_net_def)

lemma inside_append: "inside (g @ h) = inside g + inside h"
  by (induction g) simp_all

lemma send_ok_inside: "send_ok h \<Longrightarrow> 0 \<le> inside h"
  by (induction h) (auto simp: sem_step_cases)

lemma send_ok_older: "send_ok (g @ h) \<Longrightarrow> send_ok h"
  by (induction g) simp_all

lemma inside_quiet: "list_all sem_quiet mid \<Longrightarrow> inside (mid @ h) = inside h"
  by (induction mid) simp_all

lemma send_ok_quiet: "list_all sem_quiet mid \<Longrightarrow> send_ok h \<Longrightarrow> 0 < inside h \<Longrightarrow> send_ok (mid @ h)"
  by (induction mid) (auto simp: inside_quiet)

definition send_step :: "lan_env \<Rightarrow> lan \<Rightarrow> lan \<Rightarrow> bool" where
  "send_step E s t \<longleftrightarrow> (\<exists>p r. lan9250_tx E p s = Some (r, t))"

lemma send_in_order:
  assumes "byte_order E" "send_step E s t" "send_ok (trace s)"
  shows "send_ok (trace t)"
proof -
  let ?e = "spi_read E LAN9250_TX_FIFO_INF"
  obtain p r where run: "lan9250_tx E p s = Some (r, t)" using assms(2) by (auto simp: send_step_def)
  have e: "uncounted ?e" using spi_read_uncounted [OF assms(1)] by (simp add: dev_eval)
  then have 1: "send_ok (?e # trace s)" "inside (?e # trace s) = inside (trace s)"
    using assms(3) by (auto simp: uncounted_def)
  have "sem_quiet (command_a E p)" using write_tally(2) [OF assms(1)] by (simp add: command_a_def)
  then have 2: "send_ok ([command_a E p, Sem_take Tx_rx_sem, ?e] @ trace s)"
    "0 < inside ([command_a E p, Sem_take Tx_rx_sem, ?e] @ trace s)"
    using 1 send_ok_inside [OF assms(3)] by (auto simp: sem_step_cases)
  from assms(1) run show ?thesis
  proof (cases rule: tx_shape)
    case looked
    then show ?thesis using 1 by simp
  next
    case (sent mid last)
    then show ?thesis using send_ok_quiet [OF sent(1) 2] 2(2) by (auto simp: inside_quiet)
  qed
qed

lemma life_in_order: "life send_step E h \<Longrightarrow> byte_order E \<Longrightarrow> send_ok h"
  by (induction rule: life.induct) (simp_all add: send_in_order)

lemma marks_events: "map fst (marks E g h) = g"
  by (induction g arbitrary: h) simp_all

lemma so_far_in_order: "so_far send_step l \<Longrightarrow> send_ok (map fst l)"
  unfolding so_far_def using life_in_order send_ok_older by (force simp: env_ok_def marks_events)

section \<open>Sending together\<close>

text \<open>\<open>k_sem_take\<close> returns only when the count, one at first, is above zero.\<close>

definition tokens :: "global \<Rightarrow> int" where
  "tokens g = 1 - inside (map (fst \<circ> snd) g)"

primrec sem_free :: "global \<Rightarrow> bool" where
  "sem_free [] = True"
| "sem_free (x # g) = (sem_free g \<and> (fst (snd x) = Sem_take Tx_rx_sem \<longrightarrow> 0 < tokens g))"

lemma sem_free_tokens: "sem_free g \<Longrightarrow> 0 \<le> tokens g"
  by (induction g) (auto simp: tokens_def sem_step_cases)

lemma sem_free_older: "sem_free (g @ h) \<Longrightarrow> sem_free h"
  by (induction g) simp_all

abbreviation events_of :: "nat \<Rightarrow> global \<Rightarrow> ev list" where
  "events_of i g \<equiv> map fst (own i g)"

lemma inside_sum:
  assumes "finite A" "fst ` set g \<subseteq> A"
  shows "inside (map (fst \<circ> snd) g) = (\<Sum>i\<in>A. inside (events_of i g))"
  using assms(2)
proof (induction g)
  case Nil
  then show ?case by (simp add: own_def)
next
  case (Cons x g)
  obtain j m where x: "x = (j, m)" by (cases x)
  then have j: "j \<in> A" using Cons.prems by simp
  have "(\<Sum>i\<in>A. inside (events_of i (x # g))) =
    (\<Sum>i\<in>A. inside (events_of i g) - (if i = j then sem_step (fst m) else 0))"
    by (intro sum.cong) (simp_all add: x own_Cons)
  also have "\<dots> = (\<Sum>i\<in>A. inside (events_of i g)) - sem_step (fst m)"
    using assms(1) j by (simp add: sum_subtractf)
  finally show ?case using Cons by (simp add: x)
qed

lemma pair_bound:
  assumes "sem_free g" "\<And>k. 0 < k \<Longrightarrow> 0 \<le> inside (events_of k g)" "0 < i" "0 < j" "i \<noteq> j"
  shows "inside (events_of 0 g) + inside (events_of i g) + inside (events_of j g) \<le> 1"
proof -
  let ?A = "{0, i, j} \<union> fst ` set g" let ?f = "\<lambda>k. inside (events_of k g)"
  have "sum ?f ({0, i, j}) + sum ?f (?A - {0, i, j}) = sum ?f ?A"
    using sum.subset_diff [of "{0, i, j}" ?A ?f] by simp
  moreover have "0 \<le> sum ?f (?A - {0, i, j})" using assms(2) by (intro sum_nonneg) auto
  moreover have "inside (map (fst \<circ> snd) g) = sum ?f ?A" by (rule inside_sum) auto
  moreover have "0 \<le> tokens g" using sem_free_tokens [OF assms(1)] .
  ultimately show ?thesis using assms(3-5) by (simp add: tokens_def)
qed

lemma thread_inside: "Sem_give Tx_rx_sem \<notin> set h \<Longrightarrow> 0 \<le> inside h"
  by (induction h) (auto simp: sem_step_cases)

section \<open>A received frame, and two senders\<close>

lemma busy_turn_gives:
  "\<exists>v t. lan9250_thread_turn busy_chip first_locals (lan_reset busy_chip) = Some (v, t) \<and> inside (trace t) = - 1 \<and>
    Sem_take Tx_rx_sem \<notin> set (trace t) \<and> fifo_output (trace t) = []"
proof -
  have E: "byte_order busy_chip" "reads_be16 busy_chip" using busy_chip_ok(1) by (simp_all add: env_ok_def)
  have chip: "spi_ret busy_chip h = 0" "0 < NET_BUF_DATA_SIZE busy_chip" "net_pkt_alloc busy_chip h = Some 1" for h
    by (simp_all add: busy_chip_def rx_chip_def calm_def)
  have sts: "le32 (spi_rx busy_chip (spi_read busy_chip LAN9250_INT_STS # h)) = 8" for h
    by (simp add: busy_chip_def spi_read_def rx_chip_def calm_def LAN9250_INT_STS_def le32_def)
  let ?a = "(lan_reset busy_chip)\<lparr>trace := [spi_write busy_chip LAN9250_INT_STS LAN9250_INT_STS_RSFL,
    spi_read busy_chip LAN9250_INT_STS, spi_write busy_chip LAN9250_INT_EN 0, spi_read busy_chip LAN9250_INT_EN,
    Sem_take Int_sem]\<rparr>"
  have "wf ?a" using shape_reset(1) [of busy_chip] by (simp add: shape_def wf_def)
  then obtain b new where b: "lan9250_rx busy_chip ?a = Some (0, b)" "trace b = new @ trace ?a"
    "sem_net new = 1" "Sem_take Tx_rx_sem \<notin> set new" "fifo_output new = []"
    using rx_raises_semaphore [OF E _ chip(2), of ?a 1] chip(1,3) busy_chip_ok(3,4) [of ?a] by auto
  let ?w = "spi_write busy_chip LAN9250_INT_EN (le32 (spi_rx busy_chip [spi_read busy_chip LAN9250_INT_EN, Sem_take Int_sem]))"
  have run: "\<exists>v. lan9250_thread_turn busy_chip first_locals (lan_reset busy_chip) = Some (v, act ?w b)"
    using b(1) by (simp add: lan9250_thread_turn_def lan9250_read_sys_reg_def lan9250_write_sys_reg_def Let_def
        act_def chip(1) sts lan_reset_def reg_bits)
  have "uncounted (spi_write busy_chip LAN9250_INT_EN d)" "uncounted (spi_write busy_chip LAN9250_INT_STS d)"
    "uncounted (spi_read busy_chip LAN9250_INT_STS)" "uncounted (spi_read busy_chip LAN9250_INT_EN)" for d
    using spi_write_uncounted [OF E(1)] spi_read_uncounted [OF E(1)] by (simp_all add: dev_eval)
  moreover have "Sem_take Tx_rx_sem \<noteq> spi_write E a d" "Sem_take Tx_rx_sem \<noteq> spi_read E a" for E a d
    by (simp_all add: spi_write_def spi_read_def)
  ultimately have "inside (trace (act ?w b)) = - 1 \<and> Sem_take Tx_rx_sem \<notin> set (trace (act ?w b)) \<and>
      fifo_output (trace (act ?w b)) = []"
    using b(2-5) by (simp add: inside_def act_def uncounted_def)
  with run show ?thesis by blast
qed

text \<open>The same send by two threads: looked and taken, command A written; then the rest.\<close>

lemma send_chip_parts:
  obtains t mid bytes where "lan9250_tx send_chip 1 (lan_reset send_chip) = Some (0, t)"
    "trace t = mid @ [command_a send_chip 1, Sem_take Tx_rx_sem, spi_read send_chip LAN9250_TX_FIFO_INF]"
    "Sem_take Tx_rx_sem \<notin> set mid" "fifo_output mid = le_bytes (LAN9250_TX_CMD_B_PACKET_TAG OR 58) @ bytes"
    "length bytes = 60"
proof -
  have E: "byte_order send_chip" "reads_be16 send_chip" "reads_whole send_chip 1"
    using send_chip_ok by (simp_all add: env_ok_def)
  have len: "net_pkt_len send_chip 1 = 58" "LAN9250_ALIGN 58 = 60" by (simp_all add: send_chip_bus LAN9250_ALIGN_def)
  obtain t rest h where t: "lan9250_tx send_chip 1 (lan_reset send_chip) = Some (0, t)"
    "trace t = rest @ spi_read send_chip LAN9250_1588_CAP_INFO #
       spi_write send_chip LAN9250_1588_BANK_PORT_GPIO_SEL LAN9250_1588_BANK_SEL_PORT_GENERAL # Lock Bank_lock # h"
    using send_chip_sends by blast
  have nil: "trace (lan_reset send_chip) = []" by (simp add: lan_reset_def)
  from E(1) t(1) show thesis
  proof (cases rule: tx_shape)
    case looked
    then have "length (trace t) = 1" by (simp add: nil)
    then show ?thesis by (simp add: t(2))
  next
    case (sent mid last)
    let ?head = "[command_a send_chip 1, Sem_take Tx_rx_sem, spi_read send_chip LAN9250_TX_FIFO_INF]"
    have tr: "trace t = (last @ mid) @ ?head" using sent(3) by (simp add: nil)
    have "fifo_written (command_a send_chip 1) = le_bytes (LAN9250_TX_CMD_A OR 58)"
      using write_tally(1) [OF E(1)] by (simp add: command_a_def send_chip_bus)
    then have head: "fifo_output ?head = le_bytes (LAN9250_TX_CMD_A OR 58)"
      using read_tally(6) [OF E(1)] by simp
    obtain frame where "length frame = 60" "fifo_output (trace t) = le_bytes (LAN9250_TX_CMD_A OR 58) @
        le_bytes (LAN9250_TX_CMD_B_PACKET_TAG OR 58) @ frame"
    proof (cases rule: tx_outcome [OF E, of "lan_reset send_chip"])
      case (2 u new)
      have "length (txbuf (lan_reset send_chip)) = NET_ETH_MAX_FRAME send_chip" by (simp add: lan_reset_def)
      moreover have "NET_ETH_MAX_FRAME send_chip = 1514" by (simp add: send_chip_def ptp_chip_def calm_def)
      ultimately show ?thesis using 2 t(1)
        by (intro that [of "take 60 (frame_read send_chip 1 (lan_reset send_chip) @ drop 58 (txbuf (lan_reset send_chip)) @ after_txbuf send_chip)"])
          (simp_all add: nil send_chip_bus LAN9250_ALIGN_def)
    qed (use t(1) in simp)
    then have "fifo_output ?head @ fifo_output (last @ mid) =
        le_bytes (LAN9250_TX_CMD_A OR 58) @ le_bytes (LAN9250_TX_CMD_B_PACKET_TAG OR 58) @ frame" "length frame = 60"
      by (simp_all only: tr tally_append)
    then have "fifo_output (last @ mid) = le_bytes (LAN9250_TX_CMD_B_PACKET_TAG OR 58) @ frame" "length frame = 60"
      by (simp_all only: head same_append_eq)
    moreover have "Sem_take Tx_rx_sem \<notin> set (last @ mid)" using sent(1,2) by (auto simp: list_all_iff)
    ultimately show ?thesis using that t(1) tr by blast
  qed
qed

lemma send_life:
  assumes "lan9250_tx send_chip p (lan_reset send_chip) = Some (r, t)"
  shows "life send_step send_chip (trace t)"
proof (rule next_op)
  show "life send_step send_chip (trace (lan_reset send_chip))" by (simp add: lan_reset_def born)
qed (use assms shape_reset(1) in \<open>auto simp: send_step_def\<close>)

text \<open>Both logs interleaved: the second sender comes between the two commands of the first.\<close>

definition mixed :: "ev list \<Rightarrow> ev list \<Rightarrow> ev list \<Rightarrow> global" where
  "mixed thread mid head = map (Pair 1) (marks send_chip mid head) @ map (Pair 2) (marks send_chip (mid @ head) []) @
     map (Pair 1) (marks send_chip head []) @ map (Pair 0) (marks busy_chip thread [])"

lemma mixed_own: "own 0 (mixed h mid head) = marks busy_chip h []"
  "own 1 (mixed h mid head) = marks send_chip (mid @ head) []"
  "own 2 (mixed h mid head) = marks send_chip (mid @ head) []" "2 < i \<Longrightarrow> own i (mixed h mid head) = []"
  by (simp_all add: own_def mixed_def o_def marks_append)

lemma sem_free_append:
  assumes "sem_free g" "Sem_take Tx_rx_sem \<notin> fst ` set l"
  shows "sem_free (map (Pair i) l @ g)"
  using assms(2) by (induction l) (auto simp: assms(1))

lemma set_marks: "fst ` set (marks E g h) = set g"
  by (metis list.set_map marks_events)

lemma mixed_free:
  assumes "Sem_take Tx_rx_sem \<notin> set h" "Sem_take Tx_rx_sem \<notin> set mid" "inside h = - 1"
    "head = [a, Sem_take Tx_rx_sem, e]" "sem_quiet a" "sem_quiet e"
  shows "sem_free (mixed h mid head)"
proof -
  let ?T = "map (Pair 0) (marks busy_chip h []) :: global"
  have ev: "map (fst \<circ> snd) (map (Pair i) (marks E g f)) = g" for i :: nat and E g f
    by (simp add: o_def marks_events)
  have T: "sem_free ?T" using assms(1) sem_free_append [of "[]" "marks busy_chip h []" 0] by (simp add: set_marks)
  have head: "sem_free (map (Pair i) (marks send_chip head []) @ g)"
    if "sem_free g" "0 < tokens g" for i :: nat and g
    using that assms(5,6) by (auto simp: assms(4) tokens_def)
  have "tokens ?T = 2" unfolding tokens_def ev assms(3) by simp
  then have 1: "sem_free (map (Pair 1) (marks send_chip head []) @ ?T)" using T by (intro head) simp_all
  have "tokens (map (Pair 1) (marks send_chip head []) @ ?T) = 1"
    using assms(5,6) unfolding tokens_def map_append ev inside_append assms(3) by (simp add: assms(4))
  then have "sem_free (map (Pair 2) (marks send_chip head []) @ map (Pair 1) (marks send_chip head []) @ ?T)"
    by (intro head [OF 1]) simp
  then have "sem_free (map (Pair 2) (marks send_chip mid head) @
      map (Pair 2) (marks send_chip head []) @ map (Pair 1) (marks send_chip head []) @ ?T)"
    by (rule sem_free_append) (simp add: set_marks assms(2))
  then have "sem_free (map (Pair 1) (marks send_chip mid head) @ map (Pair 2) (marks send_chip mid head) @
      map (Pair 2) (marks send_chip head []) @ map (Pair 1) (marks send_chip head []) @ ?T)"
    by (rule sem_free_append) (simp add: set_marks assms(2))
  then show ?thesis by (simp add: mixed_def marks_append)
qed

text \<open>The bank lock is respected too: every part begins and ends without it.\<close>

lemma mixed_mutex:
  assumes "bank_run rx_home (marks busy_chip h []) (False, None) = Some (False, None)"
    "bank_run api_home (marks send_chip head []) (False, None) = Some (False, None)"
    "bank_run api_home (marks send_chip mid head) (False, None) = Some (False, None)"
  shows "mutex (mixed h mid head)"
proof -
  have add: "mutex (map (Pair i) l @ g) \<and> holder (map (Pair i) l @ g) = None"
    if "mutex g \<and> holder g = None" "bank_run home l (False, None) = Some (False, None)" for i l g home
    using alone [of g home l False None i] that by simp
  have "mutex (map (Pair 0) (marks busy_chip h [])) \<and> holder (map (Pair 0) (marks busy_chip h [])) = None"
    using add [of "[]", OF _ assms(1), of 0] by simp
  from add [OF add [OF add [OF add [OF this assms(2), of 1] assms(2), of 2] assms(3), of 2] assms(3), of 1]
  show ?thesis by (simp add: mixed_def marks_append)
qed

lemma so_far_cut: "env_ok F \<Longrightarrow> life op F (rest @ h) \<Longrightarrow> so_far op (marks F h [])"
  unfolding so_far_def by blast

lemma two_senders:
  assumes "so_far send_step (own 1 g)" "so_far send_step (own 2 g)" "\<And>i. 2 < i \<Longrightarrow> own i g = []" "0 < i"
  shows "so_far send_step (own i g)"
proof -
  have "so_far send_step []" using so_far_cut [OF send_chip_ok, of send_step "[]" "[]"] born by simp
  moreover have "i = 1 \<or> i = 2 \<or> 2 < i" using assms(4) by arith
  ultimately show ?thesis using assms(1-3) by auto
qed

lemma send_chip_locks:
  assumes "lan9250_tx send_chip 1 (lan_reset send_chip) = Some (0, t)" "trace t = mid @ head"
    "head = [command_a send_chip 1, Sem_take Tx_rx_sem, spi_read send_chip LAN9250_TX_FIFO_INF]"
  shows "bank_run api_home (marks send_chip head []) (False, None) = Some (False, None)"
    "bank_run api_home (marks send_chip mid head) (False, None) = Some (False, None)"
proof -
  have E: "byte_order send_chip" using send_chip_ok by (simp add: env_ok_def)
  have "ordinary (command_a send_chip 1)" "ordinary (spi_read send_chip LAN9250_TX_FIFO_INF)"
    by (simp_all add: command_a_def ordinary_spi [OF E] banked_def dev_eval)
  then show head: "bank_run api_home (marks send_chip head []) (False, None) = Some (False, None)"
    unfolding assms(3) by (intro neutral_run) (simp add: ordinary_neutral)
  have "leads send_chip api_home (False, None) (False, None) s u" if "send_step send_chip s u" "shape send_chip s" for s u
    using that api_leads [OF send_chip_ok] unfolding send_step_def by (blast intro: send)
  then have "bank_run api_home (marks send_chip (trace t) []) (False, None) = Some (False, None)"
    by (rule life_disciplined [OF send_life [OF assms(1)]])
  then show "bank_run api_home (marks send_chip mid head) (False, None) = Some (False, None)"
    using head by (simp add: assms(2) marks_append bank_run_append)
qed

lemma mixed_output:
  assumes "fifo_output h = []"
  shows "fifo_output (map (fst \<circ> snd) (mixed h mid head)) =
    fifo_output head @ (fifo_output head @ fifo_output mid) @ fifo_output mid"
proof -
  have "map (fst \<circ> snd) (mixed h mid head) = mid @ (mid @ head) @ head @ h"
    by (simp only: mixed_def map_append map_map o_def fst_conv snd_conv marks_events [unfolded o_def])
  then show ?thesis by (simp only: tally_append assms append_Nil append.assoc)
qed

section \<open>Properties\<close>

text \<open>
  C11: Before a frame is received senders keep apart. Let any number of threads send, and the driver's
  thread do what it likes, their events interleaved in any way the semaphore allows. As long as the
  driver's thread has not given the semaphore, whoever writes to the transmit FIFO has taken it, once,
  and nobody else holds it: no frame is mixed with another.
\<close>

theorem senders_exclude:
  assumes "sem_free g" "\<forall>i>0. so_far send_step (own i g)"
    and "g = later @ (i, e, fine) # before" "0 < i" "fifo_written e \<noteq> []"
    and "Sem_give Tx_rx_sem \<notin> set (events_of 0 before)"
  shows "inside (events_of i before) = 1 \<and> (\<forall>j. 0 < j \<and> j \<noteq> i \<longrightarrow> inside (events_of j before) = 0)"
proof -
  have ok: "send_ok (events_of k ((i, e, fine) # before))" if "0 < k" for k
  proof (rule send_ok_older)
    show "send_ok (events_of k later @ events_of k ((i, e, fine) # before))"
      using so_far_in_order [of "own k g"] assms(2) that by (simp add: assms(3) own_def)
  qed
  have pos: "0 \<le> inside (events_of k before)" if "0 < k" for k
    using send_ok_inside ok [OF that] by (cases "i = k") (auto simp: own_Cons)
  have i: "1 \<le> inside (events_of i before)" using ok [OF assms(4)] assms(5) by (simp add: own_Cons)
  have "sem_free before" using assms(1) sem_free_older [of "later @ [(i, e, fine)]" before] by (simp add: assms(3))
  note bound = pair_bound [OF this pos assms(4)]
  have le: "inside (events_of i before) + inside (events_of j before) \<le> 1" if "0 < j" "j \<noteq> i" for j
    using bound [of j] that thread_inside [OF assms(6)] by fastforce
  show ?thesis
  proof (intro conjI allI impI)
    show "inside (events_of i before) = 1" using le [of "Suc i"] pos [of "Suc i"] i by simp
    show "inside (events_of j before) = 0" if "0 < j \<and> j \<noteq> i" for j
      using le [of j] pos [of j] i that by fastforce
  qed
qed

text \<open>One thread has looked at the free space, another has taken the semaphore and writes command A.\<close>

lemma senders_exclude_witness:
  "\<exists>before. own 2 before = marks send_chip [spi_read send_chip LAN9250_TX_FIFO_INF] [] \<and>
     inside (events_of 1 before) = 1 \<and> inside (events_of 2 before) = 0"
proof -
  let ?e = "spi_read send_chip LAN9250_TX_FIFO_INF" let ?a = "command_a send_chip 1"
  let ?before = "map (Pair 1) (marks send_chip [Sem_take Tx_rx_sem, ?e] []) @ map (Pair 2) (marks send_chip [?e] []) :: global"
  obtain fine where head: "marks send_chip [?a, Sem_take Tx_rx_sem, ?e] [] = (?a, fine) # marks send_chip [Sem_take Tx_rx_sem, ?e] []"
    by simp
  let ?g = "(1, ?a, fine) # ?before"
  have E: "byte_order send_chip" using send_chip_ok by (simp add: env_ok_def)
  obtain t mid where t: "lan9250_tx send_chip 1 (lan_reset send_chip) = Some (0, t)"
    "trace t = mid @ [?a, Sem_take Tx_rx_sem, ?e]" by (rule send_chip_parts)
  note cut = so_far_cut [OF send_chip_ok, of send_step]
  have own: "own 1 ?g = marks send_chip [?a, Sem_take Tx_rx_sem, ?e] []" "own 2 ?g = marks send_chip [?e] []"
    "own 0 ?before = []" "2 < i \<Longrightarrow> own i ?g = []" for i
    unfolding head by (simp_all add: own_def)
  have "so_far send_step (own 1 ?g)" "so_far send_step (own 2 ?g)"
    using cut [of mid "[?a, Sem_take Tx_rx_sem, ?e]"] cut [of "mid @ [?a, Sem_take Tx_rx_sem]" "[?e]"] send_life [OF t(1)]
    unfolding own t(2) by simp_all
  then have all: "\<forall>i>0. so_far send_step (own i ?g)" using two_senders own(4) by blast
  have "sem_quiet ?e" "sem_quiet ?a" "fifo_written ?a \<noteq> []"
    using read_tally(2) [OF E] write_tally [OF E] by (simp_all add: command_a_def le_bytes_def)
  moreover from this have "sem_free ?g" by (auto simp: tokens_def)
  ultimately have r: "inside (events_of 1 ?before) = 1 \<and> (\<forall>j. 0 < j \<and> j \<noteq> 1 \<longrightarrow> inside (events_of j ?before) = 0)"
    using senders_exclude [of ?g "[]" 1 ?a fine ?before] all own(3) by simp
  have "own 2 ?before = marks send_chip [?e] []" "0 < (2 :: nat) \<and> (2 :: nat) \<noteq> 1" by (simp_all add: own_def)
  with r show ?thesis by blast
qed

text \<open>
  C38: A received frame lets two senders mix their frames. The driver's thread (0) has received one
  frame; two threads (1 and 2) each send a frame of 58 bytes, successfully. The semaphore and the
  bank lock are respected, yet the transmit FIFO is handed the first command of one frame, then the whole of the other, then
  the rest of the first: the chip takes command A of the second for command B of the first.
\<close>

theorem received_frame_mixes_senders:
  "\<exists>g t frame. sem_free g \<and> mutex g \<and> so_far thread_step (own 0 g) \<and> (\<forall>i. so_far send_step (own (Suc i) g)) \<and>
     lan9250_tx send_chip 1 (lan_reset send_chip) = Some (0, t) \<and>
     own 1 g = marks send_chip (trace t) [] \<and> own 2 g = marks send_chip (trace t) [] \<and> length frame = 60 \<and>
     (let a = le_bytes (LAN9250_TX_CMD_A OR 58); b = le_bytes (LAN9250_TX_CMD_B_PACKET_TAG OR 58) in
        fifo_output (trace t) = a @ b @ frame \<and>
        fifo_output (map (fst \<circ> snd) g) = a @ (a @ b @ frame) @ b @ frame)"
proof -
  let ?head = "[command_a send_chip 1, Sem_take Tx_rx_sem, spi_read send_chip LAN9250_TX_FIFO_INF]"
  have E: "byte_order send_chip" using send_chip_ok by (simp add: env_ok_def)
  obtain v t0 where t0: "lan9250_thread_turn busy_chip first_locals (lan_reset busy_chip) = Some (v, t0)"
    "inside (trace t0) = - 1" "Sem_take Tx_rx_sem \<notin> set (trace t0)" "fifo_output (trace t0) = []"
    using busy_turn_gives by blast
  obtain t mid frame where t: "lan9250_tx send_chip 1 (lan_reset send_chip) = Some (0, t)"
    "trace t = mid @ ?head" "Sem_take Tx_rx_sem \<notin> set mid"
    "fifo_output mid = le_bytes (LAN9250_TX_CMD_B_PACKET_TAG OR 58) @ frame" "length frame = 60"
    by (rule send_chip_parts)
  have l0: "life thread_step busy_chip (trace t0)"
  proof (rule next_op)
    show "life thread_step busy_chip (trace (lan_reset busy_chip))" by (simp add: lan_reset_def born)
  qed (use t0 shape_reset(1) turn in auto)
  let ?g = "mixed (trace t0) mid ?head"
  have own: "own 1 ?g = marks send_chip (trace t) []" "own 2 ?g = marks send_chip (trace t) []"
    using mixed_own(2,3) unfolding t(2) by blast+
  have so1: "so_far send_step (marks send_chip (trace t) [])"
    using so_far_cut [OF send_chip_ok, of send_step "[]"] send_life [OF t(1)] by simp
  have "so_far send_step (own (Suc i) ?g)" for i
    by (rule two_senders) (simp_all only: own so1 mixed_own(4) zero_less_Suc)
  moreover have "so_far thread_step (own 0 ?g)"
    unfolding mixed_own using so_far_cut [OF busy_chip_ok(1), of thread_step "[]"] l0 by simp
  moreover have "sem_free ?g"
    using write_tally(2) [OF E] read_tally(2) [OF E]
    by (intro mixed_free [OF t0(3) t(3) t0(2) refl]) (simp_all add: command_a_def)
  moreover have "mutex ?g"
    by (rule mixed_mutex [OF life_disciplined [OF l0 thread_leads [OF busy_chip_ok(1)]] send_chip_locks [OF t(1,2) refl]])
  moreover have a: "fifo_output ?head = le_bytes (LAN9250_TX_CMD_A OR 58)"
    using write_tally(1) [OF E] read_tally(6) [OF E] by (simp add: command_a_def send_chip_bus)
  have "fifo_output (trace t) = fifo_output ?head @ fifo_output mid" by (simp only: t(2) tally_append)
  note out = this [unfolded a t(4)] mixed_output [OF t0(4), of mid ?head, unfolded a t(4)]
  ultimately show ?thesis unfolding Let_def
    by (intro exI [of _ ?g] exI [of _ t] exI [of _ frame] conjI allI t(1,5) own out)
qed

end
