(* ===== verification/Ptp_Shell.thy ===== *)
theory Ptp_Shell
  imports Ptp_Clock Ptp_Match
begin

text \<open>
  \<open>src/ptp_shell.c\<close>: the shell commands of the 1588 unit, and \<open>ptp_pps_arm_when_synced\<close>, which arms
  the pulse output once the PTP stack trusts its clock. The network interface, the packet calls
  and the PTP stack's sync state are the parameter \<open>ptp_sh_env\<close>; everything the code does to the
  driver goes through the driver's own model.
\<close>

section \<open>The code\<close>

text \<open>What is printed, by its format and arguments, and what is done with packets, newest
  first.\<close>

datatype shell_ev =
    Print string "int list" | Fail string "int list" | Warn_unsynced int
  | Alloc nat | Write pkt "u8 list" | Set_header pkt u16 "u8 list" "u8 list" | Try_send pkt | Unref pkt

record ptp_sh =
  drv :: lan
  seq_id :: u16
  shlog :: "shell_ev list"

record ptp_sh_env =
  dev_ready :: bool
  iface_bound :: bool
  ptp_get_port_sync_state :: "ev list \<Rightarrow> bool \<times> bool \<Rightarrow> int \<times> bool \<times> bool"
  pkt_alloc :: "shell_ev list \<Rightarrow> pkt option"
  pkt_write :: "shell_ev list \<Rightarrow> int"
  send_dropped :: "shell_ev list \<Rightarrow> bool"
  link_addr :: "u8 list"

definition ENOMEM :: int where [dev_eval]: "ENOMEM = 12"

definition say :: "shell_ev \<Rightarrow> ptp_sh \<Rightarrow> ptp_sh" where
  "say e s = s\<lparr>shlog := e # shlog s\<rparr>"

text \<open>Two flags: the port is a time transmitter, and it is synchronised.\<close>

partial_function (option) sync_loop ::
  "ptp_sh_env \<Rightarrow> lan_env \<Rightarrow> int \<Rightarrow> bool \<times> bool \<Rightarrow> lan \<Rightarrow> ((bool \<times> bool) \<times> lan) option" where
  "sync_loop A E deadline st d =
    (if deadline \<le> uptime E (trace d) then Some (st, d)
     else let (ret, answer) = ptp_get_port_sync_state A (trace d) st;
              st1 = (if iface_bound A then answer else st)
          in if iface_bound A \<and> ret = 0 \<and> (fst st1 \<or> snd st1) then Some (st1, d)
             else sync_loop A E deadline st1 (act (Sleep_ms 500) d))"

definition ptp_pps_arm_when_synced :: "ptp_sh_env \<Rightarrow> lan_env \<Rightarrow> int \<Rightarrow> ptp_sh cmd" where
  "ptp_pps_arm_when_synced A E max_wait_ms s =
    (if \<not> dev_ready A then Some (- ENODEV, s)
     else do {
       (st, d1) \<leftarrow> sync_loop A E (uptime E (trace (drv s)) + max_wait_ms) (False, False) (drv s);
       let s1 = (if \<not> fst st \<and> \<not> snd st then say (Warn_unsynced max_wait_ms) s else s);
       (ret, d2) \<leftarrow> lan9250_1588_pps_enable E d1;
       Some (ret, s1\<lparr>drv := d2\<rparr>)
     })"

definition clock_delta :: "u32 \<Rightarrow> u32 \<Rightarrow> u32 \<Rightarrow> u32 \<Rightarrow> int" where
  "clock_delta sec1 ns1 sec2 ns2 = (uint sec2 - uint sec1) * 1000000000 + (uint ns2 - uint ns1)"

definition cmd_ptp_clock :: "ptp_sh_env \<Rightarrow> lan_env \<Rightarrow> ptp_sh cmd" where
  "cmd_ptp_clock A E s =
    (if \<not> dev_ready A then Some (- ENODEV, say (Fail ''lan9250 device not ready'' []) s)
     else do {
       (ret, (sec1, ns1, _), d1) \<leftarrow> lan9250_ptp_clock_read E False (drv s);
       if ret < 0 then Some (ret, say (Fail ''1588 clock read failed'' [ret]) (s\<lparr>drv := d1\<rparr>))
       else do {
         let s1 = say (Print ''1588 clock'' [uint sec1, uint ns1]) s;
         let d2 = act (Sleep_ms 200) d1;
         (ret, (sec2, ns2, _), d3) \<leftarrow> lan9250_ptp_clock_read E False d2;
         if ret < 0 then Some (ret, say (Fail ''1588 clock read failed'' [ret]) (s1\<lparr>drv := d3\<rparr>))
         else Some (0, say (Print ''Delta'' [clock_delta sec1 ns1 sec2 ns2])
           (say (Print ''1588 clock (later)'' [uint sec2, uint ns2]) (s1\<lparr>drv := d3\<rparr>)))
       }
     })"

definition cmd_ptp_pps :: "ptp_sh_env \<Rightarrow> lan_env \<Rightarrow> ptp_sh cmd" where
  "cmd_ptp_pps A E s =
    (if \<not> dev_ready A then Some (- ENODEV, say (Fail ''lan9250 device not ready'' []) s)
     else do {
       let (q, st) = ptp_get_port_sync_state A (trace (drv s)) (False, False);
       let s1 = (if iface_bound A \<and> q = 0 \<and> \<not> fst st \<and> \<not> snd st
         then say (Print ''Waiting up to 30s for PTP sync before arming'' []) s else s);
       (ret, s2) \<leftarrow> ptp_pps_arm_when_synced A E 30000 s1;
       if ret < 0 then Some (ret, say (Fail ''Failed to arm 1PPS output'' [ret]) s2)
       else Some (0, say (Print ''1PPS output armed on GPIO1'' []) s2)
     })"

definition l2_ptp_mcast :: "u8 list" where
  "l2_ptp_mcast = [0x01, 0x1b, 0x19, 0x00, 0x00, 0x00]"

definition ptp_payload :: "lan_env \<Rightarrow> u16 \<Rightarrow> u8 list" where
  "ptp_payload E seq = [0x00, 0x02] @ sys_put_be16 E 44 @ replicate 26 0 @ sys_put_be16 E seq"

definition cmd_ptp_txtest :: "ptp_sh_env \<Rightarrow> lan_env \<Rightarrow> ptp_sh \<Rightarrow> int \<times> ptp_sh" where
  "cmd_ptp_txtest A E s =
    (if \<not> dev_ready A then (- ENODEV, say (Fail ''lan9250 device not ready'' []) s)
     else if \<not> iface_bound A then (- ENODEV, say (Fail ''No net_if bound to lan9250 device'' []) s)
     else let payload = ptp_payload E (seq_id s); s1 = say (Alloc 32) s
       in case pkt_alloc A (shlog s1) of
            None \<Rightarrow> (- ENOMEM, say (Fail ''Failed to allocate net_pkt'' []) s1)
          | Some pkt \<Rightarrow>
              let s2 = say (Write pkt payload) s1
              in if pkt_write A (shlog s2) < 0
                 then (- EIO, say (Fail ''Failed to write PTP payload'' []) (say (Unref pkt) s2))
                 else let s3 = say (Set_header pkt 0x88F7 (link_addr A) l2_ptp_mcast) s2;
                          s4 = say (Print ''Sending L2 PTP Sync frame'' [uint (seq_id s)]) s3;
                          s5 = say (Try_send pkt) s4
                      in if send_dropped A (shlog s5)
                         then (- EIO, say (Fail ''Send failed'' []) (say (Unref pkt) s5))
                         else (0, (say (Print ''Sent'' []) s5)\<lparr>seq_id := seq_id s + 1\<rparr>))"

definition cmd_ptp_rxdrop :: "ptp_sh_env \<Rightarrow> lan_env \<Rightarrow> ptp_sh cmd" where
  "cmd_ptp_rxdrop A E s =
    (if \<not> dev_ready A then Some (- ENODEV, say (Fail ''lan9250 device not ready'' []) s)
     else do {
       (ret, rx_drop, d) \<leftarrow> lan9250_rx_drop_get E (drv s);
       let s1 = s\<lparr>drv := d\<rparr>;
       if ret < 0 then Some (ret, say (Fail ''read failed'' [ret]) s1)
       else Some (0, say (Print ''RX_DROP'' [uint rx_drop]) s1)
     })"

text \<open>The table of commands; none of them takes arguments.\<close>

definition sub_ptp :: "ptp_sh_env \<Rightarrow> lan_env \<Rightarrow> ptp_sh cmd subcmd list" where
  "sub_ptp A E =
    [SHELL_CMD ''clock'' ''Read the LAN9250's 1588 PTP hardware clock twice, ~200ms apart'' (cmd_ptp_clock A E),
     SHELL_CMD ''pps'' ''Arm a 1PPS output on GPIO1 (pin 46) for scope observation'' (cmd_ptp_pps A E),
     SHELL_CMD ''txtest'' ''Send a real L2 PTP Sync frame to test hardware TX timestamping''
       (\<lambda>s. Some (cmd_ptp_txtest A E s)),
     SHELL_CMD ''rxdrop'' ''Read (and clear) the LAN9250's hardware RX_DROP (MIL FIFO drop) counter''
       (cmd_ptp_rxdrop A E)]"

section \<open>Waiting for the clock to be trusted\<close>

text \<open>A sleep lasts as long as was asked for, at least.\<close>

definition sleeps :: "lan_env \<Rightarrow> bool" where
  "sleeps E \<longleftrightarrow> (\<forall>h n. uptime E h + int n \<le> uptime E (Sleep_ms n # h))"

definition slept :: "nat \<Rightarrow> ev list \<Rightarrow> ev list" where
  "slept n h = replicate n (Sleep_ms 500) @ h"

lemma slept_0 [simp]: "slept 0 h = h"
  by (simp add: slept_def)

lemma slept_Suc: "slept n (Sleep_ms 500 # h) = slept (Suc n) h"
  by (simp add: slept_def replicate_app_Cons_same)

definition trusted :: "bool \<times> bool \<Rightarrow> bool" where
  "trusted st \<longleftrightarrow> fst st \<or> snd st"

text \<open>The loop ends: after \<open>n\<close> sleeps the stack trusts its clock, or the time is up; and not one
  sleep earlier was the time up.\<close>

lemma sync_loop_ends:
  assumes "sleeps E"
  shows "\<exists>n st. sync_loop A E deadline st0 d = Some (st, d\<lparr>trace := slept n (trace d)\<rparr>) \<and>
    500 * int n < max 1 (deadline - uptime E (trace d) + 500) \<and>
    (if uptime E (slept n (trace d)) < deadline
     then trusted st \<and> iface_bound A \<and>
       (\<exists>st1. ptp_get_port_sync_state A (slept n (trace d)) st1 = (0, st))
     else True)"
proof (induction "nat (deadline - uptime E (trace d))" arbitrary: d st0 rule: less_induct)
  case less
  obtain ret answer where q: "ptp_get_port_sync_state A (trace d) st0 = (ret, answer)"
    by (rule prod.exhaust [of "ptp_get_port_sync_state A (trace d) st0"])
  define st1 where "st1 = (if iface_bound A then answer else st0)"
  show ?case
  proof (cases "deadline \<le> uptime E (trace d) \<or> iface_bound A \<and> ret = 0 \<and> trusted st1")
    case True
    define st where "st = (if deadline \<le> uptime E (trace d) then st0 else st1)"
    have "sync_loop A E deadline st0 d = Some (st, d)"
      using True by (subst sync_loop.simps) (auto simp: q st_def st1_def trusted_def)
    moreover have "\<exists>st1. ptp_get_port_sync_state A (trace d) st1 = (ret, answer)" using q by (rule exI)
    ultimately show ?thesis using True
      by (intro exI [of _ "0 :: nat"] exI [of _ st]) (auto simp: st_def st1_def q)
  next
    case False
    let ?d = "act (Sleep_ms 500) d"
    have step: "sync_loop A E deadline st0 d = sync_loop A E deadline st1 ?d"
      using False by (subst sync_loop.simps) (auto simp: q st1_def trusted_def)
    have up: "uptime E (trace d) + 500 \<le> uptime E (trace ?d)"
      using assms by (simp add: sleeps_def act_def) (metis of_nat_numeral)
    with False have "nat (deadline - uptime E (trace ?d)) < nat (deadline - uptime E (trace d))" by linarith
    from less [OF this, of st1] obtain n st where
      "sync_loop A E deadline st1 ?d = Some (st, ?d\<lparr>trace := slept n (trace ?d)\<rparr>)"
      "500 * int n < max 1 (deadline - uptime E (trace ?d) + 500)"
      "if uptime E (slept n (trace ?d)) < deadline
       then trusted st \<and> iface_bound A \<and> (\<exists>st1. ptp_get_port_sync_state A (slept n (trace ?d)) st1 = (0, st))
       else True" by blast
    then show ?thesis using step up False
      by (intro exI [of _ "Suc n"] exI [of _ st]) (auto simp: act_def slept_Suc)
  qed
qed

lemma arm_when_synced_ends:
  assumes "bus_works E" "reads_clock E now" "sleeps E" "dev_ready A"
  shows "\<exists>n st t. let h = slept n (trace (drv s)) in
    ptp_pps_arm_when_synced A E wait s = Some (0, t) \<and>
    lan9250_1588_pps_enable E ((drv s)\<lparr>trace := h\<rparr>) = Some (0, drv t) \<and>
    500 * int n < max 1 (wait + 500) \<and>
    (trusted st \<and> iface_bound A \<and> (\<exists>st1. ptp_get_port_sync_state A h st1 = (0, st)) \<or>
     uptime E (trace (drv s)) + wait \<le> uptime E h) \<and>
    shlog t = (if trusted st then [] else [Warn_unsynced wait]) @ shlog s"
proof -
  obtain n st where loop: "sync_loop A E (uptime E (trace (drv s)) + wait) (False, False) (drv s) =
      Some (st, (drv s)\<lparr>trace := slept n (trace (drv s))\<rparr>)"
    and n: "500 * int n < max 1 (wait + 500)"
    and stop: "if uptime E (slept n (trace (drv s))) < uptime E (trace (drv s)) + wait
     then trusted st \<and> iface_bound A \<and> (\<exists>st1. ptp_get_port_sync_state A (slept n (trace (drv s))) st1 = (0, st))
     else True"
    using sync_loop_ends [OF assms(3), of A "uptime E (trace (drv s)) + wait" "(False, False)" "drv s"] by auto
  obtain d where arm: "lan9250_1588_pps_enable E ((drv s)\<lparr>trace := slept n (trace (drv s))\<rparr>) = Some (0, d)"
    by (rule pps_enable_runs [OF assms(1,2)])
  define t where "t = (if trusted st then s else say (Warn_unsynced wait) s)\<lparr>drv := d\<rparr>"
  have "ptp_pps_arm_when_synced A E wait s = Some (0, t)"
    using assms(4) loop arm by (auto simp: ptp_pps_arm_when_synced_def t_def trusted_def Let_def)
  moreover have "drv t = d" "shlog t = (if trusted st then [] else [Warn_unsynced wait]) @ shlog s"
    by (simp_all add: t_def say_def)
  ultimately show ?thesis
    using arm n stop unfolding Let_def
    by (intro exI [of _ n] exI [of _ st] exI [of _ t]) (auto split: if_splits)
qed

text \<open>
  The pulse gets armed, synchronised or not, and in bounded time. On a working bus, with a clock
  that runs, \<open>ptp_pps_arm_when_synced\<close> returns zero; it arms the output after at most one sleep of
  half a second per half second of the time it was given, and one more; and when it starts arming,
  either the PTP stack has just called its clock trustworthy or all of that time has passed. It warns
  only if the stack did not.
\<close>

lemma pps_armed_when_synced:
  assumes "bus_works E" "reads_clock E now" "sleeps E" "dev_ready A"
  shows "\<exists>n st t. let h = slept n (trace (drv s)) in
    ptp_pps_arm_when_synced A E wait s = Some (0, t) \<and>
    lan9250_1588_pps_enable E ((drv s)\<lparr>trace := h\<rparr>) = Some (0, drv t) \<and>
    500 * int n < max 1 (wait + 500) \<and>
    (trusted st \<and> iface_bound A \<and> (\<exists>st1. ptp_get_port_sync_state A h st1 = (0, st)) \<or>
     uptime E (trace (drv s)) + wait \<le> uptime E h) \<and>
    shlog t = (if trusted st then [] else [Warn_unsynced wait]) @ shlog s"
  using assms by (rule arm_when_synced_ends)

text \<open>An application for the examples: the port is synchronised from the third look on.\<close>

definition app :: ptp_sh_env where
  "app = \<lparr>dev_ready = True, iface_bound = True,
     ptp_get_port_sync_state = \<lambda>h st. (0, False, 2 \<le> length h),
     pkt_alloc = \<lambda>h. Some 3, pkt_write = \<lambda>h. 0, send_dropped = \<lambda>h. False, link_addr = [2, 0, 0, 0, 0, 1]\<rparr>"

definition ptp_sh0 :: ptp_sh where
  "ptp_sh0 = \<lparr>drv = lan0, seq_id = 5, shlog = []\<rparr>"

definition slow_chip :: lan_env where
  "slow_chip = clock_chip\<lparr>uptime := \<lambda>h. sum_list (map (\<lambda>e. case e of Sleep_ms n \<Rightarrow> int n | _ \<Rightarrow> 0) h)\<rparr>"

lemma slow_chip_ok:
  "byte_order slow_chip" "bus_works slow_chip" "reads_clock slow_chip chip_time" "sleeps slow_chip"
proof -
  have same: "spi_write slow_chip = spi_write clock_chip" "spi_read slow_chip = spi_read clock_chip"
    by (intro ext; simp add: spi_write_def spi_read_def slow_chip_def)+
  show "byte_order slow_chip" "bus_works slow_chip"
    using clock_chip_ok(1,2) by (simp_all add: byte_order_def bus_works_def slow_chip_def)
  show "reads_clock slow_chip chip_time"
    using clock_chip_ok(3) unfolding reads_clock_def same by (simp add: slow_chip_def)
qed (simp add: sleeps_def slow_chip_def)

lemma pps_armed_when_synced_example:
  "\<exists>t. ptp_pps_arm_when_synced app slow_chip 60000 ptp_sh0 = Some (0, t)"
  using pps_armed_when_synced [OF slow_chip_ok(2-4), where A = app and wait = 60000 and s = ptp_sh0]
  by (auto simp: app_def Let_def)


section \<open>The clock command\<close>

text \<open>The registers hold the seconds and nanoseconds of the time modulo the range of the clock.\<close>

lemma clock_words:
  "uint (word_of_int (z div ns_per_s) :: u32) = z mod clock_period div ns_per_s"
  "uint (word_of_int (z mod ns_per_s) :: u32) = z mod clock_period mod ns_per_s"
proof -
  have "z mod clock_period = (z div ns_per_s mod 2 ^ 32) * ns_per_s + z mod ns_per_s"
    using mod_of_product [of "z mod ns_per_s" ns_per_s "2 ^ 32" "z div ns_per_s"] by simp
  then show "uint (word_of_int (z div ns_per_s) :: u32) = z mod clock_period div ns_per_s"
    "uint (word_of_int (z mod ns_per_s) :: u32) = z mod clock_period mod ns_per_s"
    by (simp_all add: uint_word_of_int take_bit_eq_mod)
qed

lemma clock_delta_exact:
  "clock_delta (word_of_int (z div ns_per_s)) (word_of_int (z mod ns_per_s))
     (word_of_int (y div ns_per_s)) (word_of_int (y mod ns_per_s)) = y mod clock_period - z mod clock_period"
  using div_mult_mod_eq [of "z mod clock_period" ns_per_s] div_mult_mod_eq [of "y mod clock_period" ns_per_s]
  unfolding clock_delta_def clock_words left_diff_distrib by linarith

text \<open>
  The clock command prints the time that has really passed. On a working bus, \<open>ptp clock\<close>
  succeeds, and if the chip's clock is within its range of \<open>2 ^ 32\<close> seconds at both snapshots,
  the difference it prints is exactly the number of nanoseconds the clock has counted between the
  two, even when it was set back in the meantime.
\<close>

lemma clock_command_exact:
  assumes "bus_works E" "reads_clock E now" "dev_ready A"
  shows "\<exists>t snap1 snap2 n1 n2. cmd_ptp_clock A E s = Some (0, t) \<and>
    past snap1 (drv t) \<and> past snap2 (drv t) \<and> length snap1 < length snap2 \<and>
    hd snap1 = spi_write E LAN9250_1588_CMD_CTL LAN9250_1588_CMD_CTL_CLOCK_READ \<and>
    hd snap2 = spi_write E LAN9250_1588_CMD_CTL LAN9250_1588_CMD_CTL_CLOCK_READ \<and>
    shlog t = [Print ''Delta'' [n2 - n1], Print ''1588 clock (later)'' [n2 div ns_per_s, n2 mod ns_per_s],
       Print ''1588 clock'' [n1 div ns_per_s, n1 mod ns_per_s]] @ shlog s \<and>
    n1 = now snap1 mod clock_period \<and> n2 = now snap2 mod clock_period"
proof -
  define snap1 where "snap1 = spi_write E LAN9250_1588_CMD_CTL LAN9250_1588_CMD_CTL_CLOCK_READ # trace (drv s)"
  define h where "h = Sleep_ms 200 # spi_read E LAN9250_1588_CLOCK_NS # spi_read E LAN9250_1588_CLOCK_SEC # snap1"
  define snap2 where "snap2 = spi_write E LAN9250_1588_CMD_CTL LAN9250_1588_CMD_CTL_CLOCK_READ # h"
  define d where "d = (drv s)\<lparr>trace := spi_read E LAN9250_1588_CLOCK_NS # spi_read E LAN9250_1588_CLOCK_SEC # snap2\<rparr>"
  define n1 n2 where n: "n1 = now snap1 mod clock_period" "n2 = now snap2 mod clock_period"
  have "lan9250_ptp_clock_read E False (drv s) = Some (0,
      (word_of_int (now snap1 div ns_per_s), word_of_int (now snap1 mod ns_per_s), 0),
      (drv s)\<lparr>trace := spi_read E LAN9250_1588_CLOCK_NS # spi_read E LAN9250_1588_CLOCK_SEC # snap1\<rparr>)"
    using clock_read_runs [OF assms(1,2), of "drv s"] by (simp add: snap1_def)
  moreover have "lan9250_ptp_clock_read E False ((drv s)\<lparr>trace := h\<rparr>) = Some (0,
      (word_of_int (now snap2 div ns_per_s), word_of_int (now snap2 mod ns_per_s), 0), d)"
    using clock_read_runs [OF assms(1,2), of "(drv s)\<lparr>trace := h\<rparr>"] by (simp add: snap2_def d_def)
  moreover define t where "t = s\<lparr>drv := d, shlog :=
      [Print ''Delta'' [n2 - n1], Print ''1588 clock (later)'' [n2 div ns_per_s, n2 mod ns_per_s],
       Print ''1588 clock'' [n1 div ns_per_s, n1 mod ns_per_s]] @ shlog s\<rparr>"
  ultimately have "cmd_ptp_clock A E s = Some (0, t)"
    using assms(3)
    by (simp add: cmd_ptp_clock_def clock_delta_exact clock_words n act_def h_def [symmetric] say_def)
  moreover have "drv t = d" "shlog t = [Print ''Delta'' [n2 - n1],
       Print ''1588 clock (later)'' [n2 div ns_per_s, n2 mod ns_per_s],
       Print ''1588 clock'' [n1 div ns_per_s, n1 mod ns_per_s]] @ shlog s"
    by (simp_all add: t_def)
  moreover have "past snap1 d" "past snap2 d" "length snap1 < length snap2"
    by (simp_all add: past_def d_def snap2_def h_def)
  moreover have "hd snap1 = spi_write E LAN9250_1588_CMD_CTL LAN9250_1588_CMD_CTL_CLOCK_READ"
    "hd snap2 = spi_write E LAN9250_1588_CMD_CTL LAN9250_1588_CMD_CTL_CLOCK_READ"
    by (simp_all only: snap1_def snap2_def list.sel)
  ultimately show ?thesis using n
    by (intro exI [of _ t] exI [of _ snap1] exI [of _ snap2] exI [of _ n1] exI [of _ n2]) (simp only: simp_thms)
qed

lemma clock_command_exact_example:
  "\<exists>t. cmd_ptp_clock app slow_chip ptp_sh0 = Some (0, t) \<and> length (shlog t) = 3"
proof -
  have "dev_ready app" by (simp add: app_def)
  from clock_command_exact [OF slow_chip_ok(2,3) this, of ptp_sh0] show ?thesis
    by (auto simp: ptp_sh0_def)
qed

section \<open>The test frame\<close>

text \<open>
  The test frame is one the driver will stamp. When \<open>ptp txtest\<close> succeeds it has sent one packet
  with the header of PTP on Ethernet and a payload of 32 bytes; in the frame these make up, the
  driver's parser finds a Sync with the sequence number of this run, one of the types whose
  transmission is stamped, addressed to a multicast group. The next run has the next number; a run
  that fails keeps the number and, if it got as far as a packet, releases it.
\<close>

lemma test_frame_recognised:
  assumes "byte_order E" "reads_be16 E" "length (link_addr A) = 6" "cmd_ptp_txtest A E s = (r, t)"
  shows "drv t = drv s \<and> (if r < 0
    then seq_id t = seq_id s \<and>
      (\<exists>new. shlog t = new @ shlog s \<and> (\<forall>p b. Write p b \<in> set new \<longrightarrow> Unref p \<in> set new))
    else r = 0 \<and> seq_id t = seq_id s + 1 \<and> length (ptp_payload E (seq_id s)) = 32 \<and>
      (\<exists>p. shlog t = [Print ''Sent'' [], Try_send p, Print ''Sending L2 PTP Sync frame'' [uint (seq_id s)],
         Set_header p 0x88F7 (link_addr A) l2_ptp_mcast, Write p (ptp_payload E (seq_id s)), Alloc 32] @ shlog s) \<and>
      lan9250_ptp_parse_header E (l2_ptp_mcast @ link_addr A @ be16 0x88F7 @
        ptp_payload E (seq_id s) @ pad) = Some (Some (0, seq_id s)) \<and>
      lan9250_1588_msg_type_is_timestamped 0 \<and> bit (l2_ptp_mcast ! 0) 0)"
proof -
  let ?pl = "ptp_payload E (seq_id s)"
  have put: "sys_put_be16 E w = be16 w" for w using assms(1) by (simp add: byte_order_def be16_def)
  have pl: "?pl = 0x00 # ([0x02] @ be16 44 @ replicate 26 0) @ be16 (seq_id s)"
    by (simp add: ptp_payload_def put)
  have "ptp_header (0, seq_id s) ?pl"
    unfolding ptp_header_def pl
    by (intro exI [of _ "0x00"] exI [of _ "[0x02] @ be16 44 @ replicate 26 0"]) simp
  moreover have "length (l2_ptp_mcast @ link_addr A) = 12" using assms(3) by (simp add: l2_ptp_mcast_def)
  ultimately have "carries ((l2_ptp_mcast @ link_addr A) @ be16 0x88F7 @ ?pl @ pad) (0, seq_id s)"
    by (intro carries.on_ethernet)
  then have "lan9250_ptp_parse_header E (l2_ptp_mcast @ link_addr A @ be16 0x88F7 @ ?pl @ pad)
      = Some (Some (0, seq_id s))"
    using parse_complete [OF assms(2)] by simp
  moreover have "lan9250_1588_msg_type_is_timestamped 0" "bit (l2_ptp_mcast ! 0) 0" "length ?pl = 32"
    by (simp_all add: lan9250_1588_msg_type_is_timestamped_def l2_ptp_mcast_def pl dev_eval)
  moreover have "0 < ENODEV" "0 < ENOMEM" "0 < EIO" by (simp_all add: dev_eval)
  ultimately show ?thesis
    using assms(4) unfolding cmd_ptp_txtest_def
    by (auto simp: say_def Let_def split: if_splits option.splits)
qed

lemma test_frame_recognised_example:
  "\<exists>t. cmd_ptp_txtest app calm ptp_sh0 = (0, t) \<and> seq_id t = 6"
proof -
  obtain t where t: "cmd_ptp_txtest app calm ptp_sh0 = (0, t)"
    by (simp add: cmd_ptp_txtest_def app_def ptp_sh0_def Let_def)
  have "length (link_addr app) = 6" by (simp add: app_def)
  from test_frame_recognised [OF calm_byte_order calm_reads this t] t show ?thesis
    by (simp add: ptp_sh0_def)
qed

end
