(* ===== verification/App_Net.thy ===== *)
theory App_Net
  imports Prelude
begin

text \<open>
  The network side of the application: \<open>src/eth_id.c\<close> (multicast membership), the handlers of
  \<open>src/main.c\<close> that the network stack calls, and \<open>src/mdns_service.c\<close> (the board's name). Zephyr's
  network stack is the parameter \<open>net_env\<close>: what a call returns is a function of the calls made so
  far, the call itself included.
\<close>

section \<open>State and surroundings\<close>

type_synonym iface = nat

datatype net_ev =
    Igmp_leave iface u32 | Igmp_join iface u32 | Igmp_resend iface
  | Work_init | Work_reschedule nat
  | Dhcp_stop iface | Dhcp_start iface
  | Hostname_set string
  | Mgmt_callback | Option_callback nat nat
  | Log_err string | Log_wrn string int | Log_inf string "u32 list"

text \<open>
  The static objects of the files: the interface whose membership is refreshed, the work item
  (\<open>Some t\<close>: scheduled to run in \<open>t\<close> seconds), and the characters of the board's name.
\<close>

record net_app =
  nlog :: "net_ev list"
  multicast_refresh_iface :: "iface option"
  multicast_refresh_work :: "nat option"
  stepper_id :: string

record unicast_addr =
  is_dhcp :: bool
  in_addr :: u32
  netmask :: u32

record net_env =
  net_addr_pton :: "string \<Rightarrow> u32"
  igmp_leave_ret :: "net_ev list \<Rightarrow> int"
  igmp_join_ret :: "net_ev list \<Rightarrow> int"
  net_if_default :: "iface option"
  link_addr :: "iface \<Rightarrow> u8 list option"
  if_index :: "iface \<Rightarrow> u32"
  unicast :: "iface \<Rightarrow> unicast_addr list"
  gateway :: "iface \<Rightarrow> u32"
  lease_time :: "iface \<Rightarrow> u32"

definition noted :: "net_ev \<Rightarrow> net_app \<Rightarrow> net_app" where
  "noted e s = s\<lparr>nlog := e # nlog s\<rparr>"

lemma noted_fields [simp]:
  "nlog (noted e s) = e # nlog s"
  "multicast_refresh_iface (noted e s) = multicast_refresh_iface s"
  "multicast_refresh_work (noted e s) = multicast_refresh_work s"
  "stepper_id (noted e s) = stepper_id s"
  by (simp_all add: noted_def)

section \<open>Multicast membership\<close>

text \<open>Leaves the group until the stack says it is no member.\<close>

partial_function (option) leave_loop ::
  "net_env \<Rightarrow> iface \<Rightarrow> u32 \<Rightarrow> net_app \<Rightarrow> net_app option" where
  "leave_loop A iface addr s =
    (let s1 = noted (Igmp_leave iface addr) s
     in if igmp_leave_ret A (nlog s1) = 0 then leave_loop A iface addr s1 else Some s1)"

definition force_multicast_rejoin :: "net_env \<Rightarrow> iface \<Rightarrow> string \<Rightarrow> net_app \<Rightarrow> net_app option" where
  "force_multicast_rejoin A iface addr_str s = do {
     let addr = net_addr_pton A addr_str;
     s1 \<leftarrow> leave_loop A iface addr s;
     let s2 = noted (Igmp_join iface addr) s1;
     let ret = igmp_join_ret A (nlog s2);
     Some (noted (if ret < 0 then Log_wrn (''Forced multicast rejoin failed: '' @ addr_str) ret
       else Log_inf (''Forced multicast rejoin of '' @ addr_str) []) s2)
   }"

definition ptp_multicast_rejoin :: "net_env \<Rightarrow> iface \<Rightarrow> net_app \<Rightarrow> net_app option" where
  "ptp_multicast_rejoin A iface s = do {
     s1 \<leftarrow> force_multicast_rejoin A iface ''224.0.1.129'' s;
     force_multicast_rejoin A iface ''224.0.0.107'' s1
   }"

definition mdns_force_multicast_rejoin :: "net_env \<Rightarrow> iface \<Rightarrow> net_app \<Rightarrow> net_app option" where
  "mdns_force_multicast_rejoin A iface = force_multicast_rejoin A iface ''224.0.0.251''"

definition MULTICAST_MEMBERSHIP_REFRESH_INTERVAL :: nat where
  "MULTICAST_MEMBERSHIP_REFRESH_INTERVAL = 30"

definition reschedule :: "nat \<Rightarrow> net_app \<Rightarrow> net_app" where
  "reschedule t s = noted (Work_reschedule t) (s\<lparr>multicast_refresh_work := Some t\<rparr>)"

definition multicast_membership_refresh_handler :: "net_app \<Rightarrow> net_app" where
  "multicast_membership_refresh_handler s =
    reschedule MULTICAST_MEMBERSHIP_REFRESH_INTERVAL
      (noted (Igmp_resend (the (multicast_refresh_iface s))) s)"

definition multicast_membership_refresh_start :: "iface \<Rightarrow> net_app \<Rightarrow> net_app" where
  "multicast_membership_refresh_start iface s =
    (if multicast_refresh_iface s \<noteq> None then s
     else reschedule MULTICAST_MEMBERSHIP_REFRESH_INTERVAL
       (noted Work_init (s\<lparr>multicast_refresh_iface := Some iface, multicast_refresh_work := None\<rparr>)))"

section \<open>Handlers of network events\<close>

text \<open>The events \<open>main\<close> subscribes to, and any other.\<close>

datatype mgmt_event = NET_EVENT_IF_UP | NET_EVENT_IPV4_ADDR_ADD | Other_event

definition start_dhcpv4_client :: "net_env \<Rightarrow> iface \<Rightarrow> net_app \<Rightarrow> net_app" where
  "start_dhcpv4_client A iface s =
    noted (Dhcp_start iface) (noted (Log_inf ''Start'' [if_index A iface]) s)"

definition log_address :: "net_env \<Rightarrow> iface \<Rightarrow> unicast_addr \<Rightarrow> net_app \<Rightarrow> net_app" where
  "log_address A iface a s =
    (if \<not> is_dhcp a then s
     else noted (Log_inf ''Lease time'' [if_index A iface, lease_time A iface])
       (noted (Log_inf ''Router'' [if_index A iface, gateway A iface])
       (noted (Log_inf ''Subnet'' [if_index A iface, netmask a])
       (noted (Log_inf ''Address'' [if_index A iface, in_addr a]) s))))"

definition handler :: "net_env \<Rightarrow> mgmt_event \<Rightarrow> iface \<Rightarrow> net_app \<Rightarrow> net_app option" where
  "handler A mgmt_event iface s =
    (if mgmt_event = NET_EVENT_IF_UP then Some (noted (Dhcp_start iface) (noted (Dhcp_stop iface) s))
     else if mgmt_event \<noteq> NET_EVENT_IPV4_ADDR_ADD then Some s
     else do {
       s1 \<leftarrow> mdns_force_multicast_rejoin A iface s;
       Some (fold (log_address A iface) (unicast A iface) (multicast_membership_refresh_start iface s1))
     })"

definition option_handler :: "nat \<Rightarrow> u32 \<Rightarrow> net_app \<Rightarrow> net_app" where
  "option_handler opt data s = noted (Log_inf ''DHCP Option'' [of_nat opt, data]) s"

section \<open>The board's name\<close>

definition CONFIG_NET_HOSTNAME :: string where
  "CONFIG_NET_HOSTNAME = ''stepper''"

text \<open>\<open>%02x\<close>, and \<open>snprintk\<close> into a buffer of the size of the object it is given.\<close>

definition hex_digit :: "u8 \<Rightarrow> char" where
  "hex_digit d = ''0123456789abcdef'' ! unat d"

definition fmt_02x :: "u8 \<Rightarrow> string" where
  "fmt_02x b = [hex_digit (drop_bit 4 b), hex_digit (b AND 15)]"

definition snprintk :: "string \<Rightarrow> string \<Rightarrow> string" where
  "snprintk buf text = (let out = take (length buf - 1) text @ [CHR 0x00] in out @ drop (length out) buf)"

definition c_str :: "string \<Rightarrow> string" where
  "c_str buf = takeWhile (\<lambda>c. c \<noteq> CHR 0x00) buf"

definition stepper_id_init :: string where
  "stepper_id_init = CONFIG_NET_HOSTNAME @ replicate 5 (CHR 0x00)"

definition set_unique_hostname :: "net_env \<Rightarrow> net_app \<Rightarrow> net_app" where
  "set_unique_hostname A s =
    (case net_if_default A of
       None \<Rightarrow> s
     | Some iface \<Rightarrow> (case link_addr A iface of
         None \<Rightarrow> s
       | Some addr \<Rightarrow>
           if length addr < 2 then s
           else let n = snprintk (stepper_id s) (CONFIG_NET_HOSTNAME @
                      fmt_02x (addr ! (length addr - 2)) @ fmt_02x (addr ! (length addr - 1)))
                in noted (Hostname_set (c_str n)) (s\<lparr>stepper_id := n\<rparr>)))"

definition net_app_init :: net_app where
  "net_app_init = \<lparr>nlog = [], multicast_refresh_iface = None, multicast_refresh_work = None,
     stepper_id = stepper_id_init\<rparr>"

section \<open>Rejoining a group\<close>

text \<open>
  What the comment of \<open>force_multicast_rejoin\<close> says of the stack: memberships are counted; a leave
  of a group with members counts down and succeeds, a leave of one without fails; a join counts up
  unless it fails. Only a join at count zero sends a report.
\<close>

definition counts_members :: "net_env \<Rightarrow> (net_ev list \<Rightarrow> iface \<Rightarrow> u32 \<Rightarrow> nat) \<Rightarrow> bool" where
  "counts_members A count \<longleftrightarrow> (\<forall>h i a.
     (igmp_leave_ret A (Igmp_leave i a # h) = 0 \<longleftrightarrow> 0 < count h i a) \<and>
     count (Igmp_leave i a # h) i a = count h i a - 1 \<and>
     count (Igmp_join i a # h) i a =
       (if igmp_join_ret A (Igmp_join i a # h) < 0 then count h i a else count h i a + 1))"

lemma leave_loop_drains:
  assumes "counts_members A count"
  shows "leave_loop A i a s =
    Some (s\<lparr>nlog := replicate (count (nlog s) i a + 1) (Igmp_leave i a) @ nlog s\<rparr>) \<and>
    count (replicate (count (nlog s) i a + 1) (Igmp_leave i a) @ nlog s) i a = 0"
proof (induction "count (nlog s) i a" arbitrary: s)
  case 0
  then show ?case
    using assms by (subst leave_loop.simps) (simp add: counts_members_def noted_def)
next
  case (Suc n)
  let ?s = "noted (Igmp_leave i a) s"
  have n: "count (nlog ?s) i a = n" and more: "igmp_leave_ret A (nlog ?s) = 0"
    using assms Suc(2) unfolding counts_members_def by (metis noted_fields(1) diff_Suc_1, metis noted_fields(1) zero_less_Suc)
  have step: "leave_loop A i a s = leave_loop A i a ?s"
    using more by (subst leave_loop.simps) simp
  show ?case
    using Suc(1) [of ?s] n unfolding step Suc(2) [symmetric]
    by (simp add: noted_def replicate_append_same flip: replicate_app_Cons_same)
qed

text \<open>
  A forced rejoin really reports the membership. If the stack counts memberships,
  \<open>force_multicast_rejoin\<close> returns, however often the group was joined: it leaves once for each
  membership and once more, then joins exactly once, at a count of zero, where the stack sends a
  report instead of taking the group for joined; a join that succeeds leaves exactly one membership.
\<close>

lemma rejoin_reports:
  assumes "counts_members A count"
  shows "\<exists>t before. force_multicast_rejoin A i addr_str s = Some t \<and>
    before = replicate (count (nlog s) i (net_addr_pton A addr_str) + 1)
      (Igmp_leave i (net_addr_pton A addr_str)) @ nlog s \<and>
    tl (nlog t) = Igmp_join i (net_addr_pton A addr_str) # before \<and>
    count before i (net_addr_pton A addr_str) = 0 \<and>
    count (tl (nlog t)) i (net_addr_pton A addr_str) =
      (if igmp_join_ret A (tl (nlog t)) < 0 then 0 else 1) \<and>
    multicast_refresh_iface t = multicast_refresh_iface s"
  using assms leave_loop_drains [OF assms, of i "net_addr_pton A addr_str" s]
  by (simp add: force_multicast_rejoin_def Let_def counts_members_def)

text \<open>A stack that joined the group at boot and once more at link-up.\<close>

fun members :: "net_ev list \<Rightarrow> iface \<Rightarrow> u32 \<Rightarrow> nat" where
  "members [] i a = 2"
| "members (e # h) i a =
    (if e = Igmp_leave i a then members h i a - 1
     else if e = Igmp_join i a then members h i a + 1 else members h i a)"

definition stack :: net_env where
  "stack = \<lparr>net_addr_pton = \<lambda>x. 0xE00000FB,
     igmp_leave_ret = \<lambda>h. case h of Igmp_leave i a # h' \<Rightarrow> if 0 < members h' i a then 0 else -2 | _ \<Rightarrow> -2,
     igmp_join_ret = \<lambda>h. 0, net_if_default = Some 1,
     link_addr = \<lambda>i. Some [2, 0, 0, 0, 2, 3], if_index = of_nat,
     unicast = \<lambda>i. [], gateway = \<lambda>i. 0, lease_time = \<lambda>i. 60\<rparr>"

lemma stack_counts: "counts_members stack members"
  by (simp add: counts_members_def stack_def)

lemma rejoin_reports_example:
  "\<exists>t. force_multicast_rejoin stack 1 ''224.0.0.251'' net_app_init = Some t \<and>
    tl (nlog t) = Igmp_join 1 0xE00000FB # replicate 3 (Igmp_leave 1 0xE00000FB)"
  using rejoin_reports [OF stack_counts, of 1 "''224.0.0.251''" net_app_init]
  by (auto simp: net_app_init_def stack_def)

section \<open>Refreshing the membership\<close>

text \<open>
  The steps of the network side: the stack reports an event, or the work item runs, which it can only
  when it is scheduled.
\<close>

inductive net_step :: "net_env \<Rightarrow> net_app \<Rightarrow> net_app \<Rightarrow> bool" for A where
  event: "handler A e i s = Some t \<Longrightarrow> net_step A s t"
| refresh: "multicast_refresh_work s = Some d \<Longrightarrow>
    net_step A s (multicast_membership_refresh_handler (s\<lparr>multicast_refresh_work := None\<rparr>))"

inductive net_reachable :: "net_env \<Rightarrow> net_app \<Rightarrow> net_app \<Rightarrow> bool" for A s where
  start: "net_reachable A s s"
| more: "net_reachable A s t \<Longrightarrow> net_step A t u \<Longrightarrow> net_reachable A s u"

inductive_cases net_stepE: "net_step A s t"

text \<open>The part of the state and of the history that refreshing is about.\<close>

fun is_resend :: "net_ev \<Rightarrow> bool" where
  "is_resend (Igmp_resend i) = True"
| "is_resend e = (e = Work_init)"

definition refresh_view :: "net_app \<Rightarrow> iface option \<times> nat option \<times> net_ev list" where
  "refresh_view s = (multicast_refresh_iface s, multicast_refresh_work s, filter is_resend (nlog s))"

lemma refresh_view_noted [simp]:
  "\<not> is_resend e \<Longrightarrow> refresh_view (noted e s) = refresh_view s"
  by (simp add: refresh_view_def)

lemma leave_loop_view:
  assumes "leave_loop A i a s = Some t"
  shows "refresh_view t = refresh_view s"
proof (rule leave_loop.raw_induct [where P = "\<lambda>A i a s t. refresh_view t = refresh_view s", OF _ assms])
  fix f :: "net_env \<Rightarrow> iface \<Rightarrow> u32 \<Rightarrow> net_app \<Rightarrow> net_app option" and A i a s t
  let ?s = "noted (Igmp_leave i a) s"
  assume IH: "\<And>A i a s t. f A i a s = Some t \<Longrightarrow> refresh_view t = refresh_view s"
    and "(let s1 = ?s in if igmp_leave_ret A (nlog s1) = 0 then f A i a s1 else Some s1) = Some t"
  then have "f A i a ?s = Some t \<or> ?s = t" by (auto simp: Let_def split: if_splits)
  then show "refresh_view t = refresh_view s" using IH [of A i a ?s t] by auto
qed

lemma rejoin_view: "force_multicast_rejoin A i x s = Some t \<Longrightarrow> refresh_view t = refresh_view s"
  by (auto simp: force_multicast_rejoin_def Let_def leave_loop_view split: bind_splits)

lemma fold_log_address_view: "refresh_view (fold (log_address A i) as s) = refresh_view s"
  by (induction as arbitrary: s) (auto simp: log_address_def)

lemma handler_view:
  assumes "handler A e i s = Some t"
  shows "refresh_view t = refresh_view s \<or>
    (\<exists>s1. refresh_view s1 = refresh_view s \<and>
      refresh_view t = refresh_view (multicast_membership_refresh_start i s1))"
  using assms
  by (auto simp: handler_def mdns_force_multicast_rejoin_def fold_log_address_view
      split: if_splits bind_splits dest!: rejoin_view)

text \<open>
  Refreshing is set up once: before that nothing is scheduled and no report was resent; afterwards the
  work item is always scheduled, was initialised exactly once, and every report went to the interface
  it was set up for.
\<close>

definition refresh_inv :: "net_app \<Rightarrow> bool" where
  "refresh_inv s = (case multicast_refresh_iface s of
     None \<Rightarrow> multicast_refresh_work s = None \<and> filter is_resend (nlog s) = []
   | Some i \<Rightarrow> multicast_refresh_work s = Some MULTICAST_MEMBERSHIP_REFRESH_INTERVAL \<and>
       (\<exists>n. filter is_resend (nlog s) = replicate n (Igmp_resend i) @ [Work_init]))"

lemma refresh_inv_view: "refresh_view s = refresh_view t \<Longrightarrow> refresh_inv s = refresh_inv t"
  by (auto simp: refresh_inv_def refresh_view_def split: option.splits)

lemma refresh_inv_start: "refresh_inv s \<Longrightarrow> refresh_inv (multicast_membership_refresh_start i s)"
  by (auto simp: refresh_inv_def multicast_membership_refresh_start_def reschedule_def
      split: option.splits intro: exI [of _ "0 :: nat"])

lemma refresh_inv_handler:
  assumes "refresh_inv s" "multicast_refresh_work s = Some d"
  shows "refresh_inv (multicast_membership_refresh_handler (s\<lparr>multicast_refresh_work := None\<rparr>))"
proof -
  obtain i n where i: "multicast_refresh_iface s = Some i"
    and n: "filter is_resend (nlog s) = replicate n (Igmp_resend i) @ [Work_init]"
    using assms by (auto simp: refresh_inv_def split: option.splits)
  then show ?thesis
    by (auto simp: refresh_inv_def multicast_membership_refresh_handler_def reschedule_def
        intro: exI [of _ "Suc n"])
qed

lemma net_step_inv: "net_step A s t \<Longrightarrow> refresh_inv s \<Longrightarrow> refresh_inv t"
proof (erule net_stepE)
  fix e i
  assume "refresh_inv s" "handler A e i s = Some t"
  then show "refresh_inv t" using handler_view refresh_inv_view refresh_inv_start by metis
qed (simp add: refresh_inv_handler)

lemma net_step_keeps_iface:
  "net_step A s t \<Longrightarrow> multicast_refresh_iface s = Some i \<Longrightarrow> multicast_refresh_iface t = Some i"
proof (erule net_stepE)
  fix e j
  assume "multicast_refresh_iface s = Some i" "handler A e j s = Some t"
  then show "multicast_refresh_iface t = Some i"
    using handler_view [of A e j s t]
    by (auto simp: refresh_view_def multicast_membership_refresh_start_def split: if_splits)
qed (auto simp: multicast_membership_refresh_handler_def reschedule_def)

lemma net_reachable_refresh:
  assumes "net_reachable A s t" "refresh_inv s"
  shows "refresh_inv t \<and> (multicast_refresh_iface s = Some i \<longrightarrow> multicast_refresh_iface t = Some i)"
  using assms by (induction) (auto simp: net_step_inv net_step_keeps_iface)

text \<open>
  C16: The refresh never lapses. Whatever sequence of network events and timer runs follows the start of
  the program, the work item was set up at most once, by the first bound address; from then on it is
  always scheduled, thirty seconds ahead, every report it resent went to the interface of that address,
  and its next run resends one more and schedules the one after it.
\<close>

theorem refresh_never_lapses:
  assumes "net_reachable A net_app_init s" "multicast_refresh_iface s = Some i" "net_reachable A s t"
  shows "multicast_refresh_iface t = Some i \<and> multicast_refresh_work t = Some 30 \<and>
    (\<exists>n u. filter is_resend (nlog t) = replicate n (Igmp_resend i) @ [Work_init] \<and>
      net_step A t u \<and> filter is_resend (nlog u) = replicate (n + 1) (Igmp_resend i) @ [Work_init] \<and>
      multicast_refresh_work u = Some 30)"
proof -
  have "refresh_inv net_app_init" by (simp add: refresh_inv_def net_app_init_def)
  then have "refresh_inv s" using net_reachable_refresh [OF assms(1)] by blast
  then have inv: "refresh_inv t" and t: "multicast_refresh_iface t = Some i"
    using net_reachable_refresh [OF assms(3)] assms(2) by blast+
  then obtain n where w: "multicast_refresh_work t = Some 30"
    and n: "filter is_resend (nlog t) = replicate n (Igmp_resend i) @ [Work_init]"
    by (auto simp: refresh_inv_def MULTICAST_MEMBERSHIP_REFRESH_INTERVAL_def)
  define u where "u = multicast_membership_refresh_handler (t\<lparr>multicast_refresh_work := None\<rparr>)"
  have "net_step A t u" unfolding u_def using w by (rule net_step.refresh)
  moreover have "filter is_resend (nlog u) = replicate (n + 1) (Igmp_resend i) @ [Work_init]"
    "multicast_refresh_work u = Some 30"
    by (simp_all add: u_def multicast_membership_refresh_handler_def reschedule_def t n
        MULTICAST_MEMBERSHIP_REFRESH_INTERVAL_def)
  ultimately show ?thesis using t w n by blast
qed

lemma refresh_never_lapses_witness:
  "\<exists>s. net_reachable stack net_app_init s \<and> multicast_refresh_iface s = Some 1 \<and>
    multicast_refresh_work s = Some 30"
proof -
  obtain s where s: "handler stack NET_EVENT_IPV4_ADDR_ADD 1 net_app_init = Some s"
    "multicast_refresh_iface s = Some 1"
    using leave_loop_drains [OF stack_counts]
    by (auto simp: handler_def mdns_force_multicast_rejoin_def force_multicast_rejoin_def Let_def
        multicast_membership_refresh_start_def reschedule_def net_app_init_def stack_def)
  have r: "net_reachable stack net_app_init s"
    using net_reachable.more [OF net_reachable.start net_step.event [OF s(1)]] .
  show ?thesis
    using refresh_never_lapses [OF r s(2) net_reachable.start] r by blast
qed

section \<open>The name fits and tells boards apart\<close>

lemma hex_digit_inj: "a < 16 \<Longrightarrow> b < 16 \<Longrightarrow> hex_digit a = hex_digit b \<longleftrightarrow> a = b"
proof -
  assume "a < 16" "b < 16"
  then have "unat a < 16" "unat b < 16" by (simp_all add: word_less_nat_alt)
  moreover have "distinct ''0123456789abcdef''" by simp
  ultimately show ?thesis unfolding hex_digit_def
    by (subst nth_eq_iff_index_eq) (simp_all add: word_unat_eq_iff)
qed

lemma high_digit: "drop_bit 4 x < (16 :: u8)"
  using unsigned_less [of x, where 'a = nat]
  by (simp add: word_less_nat_alt drop_bit_eq_div unat_div less_mult_imp_div_less)

lemma low_digit: "x AND 15 < (16 :: u8)"
  by (rule le_less_trans [OF word_and_le1]) simp

lemma fmt_02x_inj: "fmt_02x a = fmt_02x b \<longleftrightarrow> a = b"
proof
  assume "fmt_02x a = fmt_02x b"
  then have "drop_bit 4 a = drop_bit 4 b" "a AND Bit_Operations.mask 4 = b AND Bit_Operations.mask 4"
    using high_digit low_digit by (simp_all add: fmt_02x_def hex_digit_inj mask_eq_exp_minus_1)
  moreover have "x = push_bit 4 (drop_bit 4 x) OR (x AND Bit_Operations.mask 4)" for x :: u8
    by (rule bit_word_eqI) (auto simp: bit_simps)
  ultimately show "a = b" by metis
qed simp

lemma hex_digit_no_nul: "d < 16 \<Longrightarrow> hex_digit d \<noteq> CHR 0x00"
proof -
  assume "d < 16"
  then have "hex_digit d \<in> set ''0123456789abcdef''"
    unfolding hex_digit_def by (intro nth_mem) (simp add: word_less_nat_alt)
  then show ?thesis by auto
qed

lemma fmt_02x_no_nul: "CHR 0x00 \<notin> set (fmt_02x b)"
  using hex_digit_no_nul [OF high_digit, of b] hex_digit_no_nul [OF low_digit, of b]
  by (auto simp: fmt_02x_def)

text \<open>Text that just fits fills the buffer, and comes back whole.\<close>

lemma snprintk_fits: "length text + 1 = length buf \<Longrightarrow> snprintk buf text = text @ [CHR 0x00]"
  by (simp add: snprintk_def Let_def)

lemma c_str_terminated: "CHR 0x00 \<notin> set text \<Longrightarrow> c_str (text @ [CHR 0x00]) = text"
  unfolding c_str_def by (subst takeWhile_append2) auto

definition board_name :: "u8 \<Rightarrow> u8 \<Rightarrow> string" where
  "board_name a b = ''stepper'' @ fmt_02x a @ fmt_02x b"

lemma board_name_inj: "board_name a b = board_name c d \<longleftrightarrow> a = c \<and> b = d"
  using fmt_02x_inj [of a c] fmt_02x_inj [of b d] by (auto simp: board_name_def fmt_02x_def)

lemma unique_hostname_set:
  assumes "net_if_default A = Some i" "link_addr A i = Some (mac @ [a, b])"
    "length (stepper_id s) = length stepper_id_init"
  shows "set_unique_hostname A s =
    noted (Hostname_set (board_name a b)) (s\<lparr>stepper_id := board_name a b @ [CHR 0x00]\<rparr>)"
proof -
  have "CHR 0x00 \<notin> set (board_name a b)" "length (board_name a b) + 1 = length (stepper_id s)"
    using fmt_02x_no_nul
    by (auto simp: board_name_def fmt_02x_def assms(3) stepper_id_init_def CONFIG_NET_HOSTNAME_def)
  then have "c_str (board_name a b @ [CHR 0x00]) = board_name a b"
    "snprintk (stepper_id s) (board_name a b) = board_name a b @ [CHR 0x00]"
    by (simp_all only: c_str_terminated snprintk_fits not_False_eq_True)
  then show ?thesis
    using assms(1,2) by (simp add: set_unique_hostname_def board_name_def CONFIG_NET_HOSTNAME_def nth_append Let_def)
qed

end
