(* ===== verification/App_Main.thy ===== *)
theory App_Main
  imports Core1_Launch Stepper_Shell Ptp_Shell App_Net
begin

text \<open>
  \<open>main\<close> of \<open>src/main.c\<close>, composed of the models of what it starts: the launch of core1, the mailbox
  client, the network side and the pulse output of the Ethernet controller; and the two places where
  the driver's station address reaches the application, \<open>lan9250_iface_init\<close> and the board's name.
\<close>

section \<open>The code\<close>

text \<open>The calls by which the driver presents itself as a network interface, newest first.\<close>

datatype if_ev =
    Set_link_addr iface "u8 list" | Context_iface iface | Ethernet_init iface
  | Carrier_off iface | Thread_create

definition lan9250_iface_init :: "iface \<Rightarrow> lan \<Rightarrow> if_ev list \<Rightarrow> if_ev list" where
  "lan9250_iface_init i context h =
    [Thread_create, Carrier_off i, Ethernet_init i, Context_iface i,
     Set_link_addr i (mac_address context)] @ h"

text \<open>
  The state of each part \<open>main\<close> starts, and the surroundings of each; \<open>ifaces\<close> are the interfaces
  \<open>net_if_foreach\<close> visits, in its order.
\<close>

record board =
  net :: net_app
  launcher :: core0
  client :: shell_state
  pps :: ptp_sh

record board_env =
  net_of :: net_env
  hw_of :: core1_hw
  proc1_bits :: u32
  blob :: "u8 list"
  mbox_of :: shell_env
  ptp_of :: ptp_sh_env
  lan_of :: lan_env
  ifaces :: "iface list"

definition DHCP_OPTION_NTP :: nat where
  "DHCP_OPTION_NTP = 42"

definition log_if :: "bool \<Rightarrow> string \<Rightarrow> net_app \<Rightarrow> net_app" where
  "log_if failed msg n = (if failed then noted (Log_err msg) n else n)"

text \<open>Up to the endless loop at its end; the second part is that loop, turn by turn.\<close>

definition main_boot :: "board_env \<Rightarrow> board \<Rightarrow> board option" where
  "main_boot B s = do {
     let n1 = set_unique_hostname (net_of B) (noted (Log_inf ''Run dhcpv4 client'' []) (net s));
     (ret, c) \<leftarrow> core1_launch (hw_of B) (proc1_bits B) (blob B) (launcher s);
     let n2 = log_if (ret \<noteq> 0) ''Failed to launch core1'' n1;
     let (ret, m) = stepper_mbox_init (mbox_of B) (client s);
     let n3 = log_if (ret \<noteq> 0) ''Failed to init core1 mailbox'' n2;
     let n4 = noted (Option_callback DHCP_OPTION_NTP 4) (noted Mgmt_callback n3);
     let n5 = fold (start_dhcpv4_client (net_of B)) (ifaces B) n4;
     let p = pps s;
     (ret, p) \<leftarrow> ptp_pps_arm_when_synced (ptp_of B) (lan_of B) 60000
       (p\<lparr>drv := act (Sleep_ms 15000) (drv p)\<rparr>);
     Some \<lparr>net = n5, launcher = c, client = m, pps = p\<rparr>
   }"

fun main_idle :: "nat \<Rightarrow> board \<Rightarrow> board" where
  "main_idle 0 s = s"
| "main_idle (Suc n) s = main_idle n (s\<lparr>pps := (pps s)\<lparr>drv := act (Sleep_ms 1000) (drv (pps s))\<rparr>\<rparr>)"

section \<open>The board's name is its device id\<close>

text \<open>The link address the interface was given last.\<close>

fun linked :: "iface \<Rightarrow> if_ev list \<Rightarrow> u8 list option" where
  "linked i (Set_link_addr j mac # h) = (if i = j then Some mac else linked i h)"
| "linked i (e # h) = linked i h"
| "linked i [] = None"

lemma mac_ends_in_id:
  assumes "hwinfo_device_id E = (int (length dev_id), dev_id)" "6 \<le> length dev_id"
  shows "\<exists>m. mac_address (lan9250_load_unique_mac_address E ctx) =
    m @ [dev_id ! (length dev_id - 2), dev_id ! (length dev_id - 1)]"
proof -
  define mac where "mac = mac_address (lan9250_load_unique_mac_address E ctx)"
  have len: "length mac = 6" and m: "\<And>i. i < 5 \<Longrightarrow> mac ! (i + 1) = dev_id ! (length dev_id - 5 + i)"
    using unique_mac_address [OF assms(1), of ctx] assms(2) by (simp_all add: mac_def Let_def)
  have "mac = take 4 mac @ [mac ! 4, mac ! 5]"
    using len by (intro nth_equalityI) (auto simp: nth_append nth_Cons' less_Suc_eq numeral_eq_Suc)
  moreover have "mac ! 4 = dev_id ! (length dev_id - 2)" "mac ! 5 = dev_id ! (length dev_id - 1)"
    using m [of 3] m [of 4] assms(2) by (simp_all add: numeral_eq_Suc Suc_diff_Suc)
  ultimately show ?thesis unfolding mac_def by metis
qed

lemma hostname_of_id:
  assumes "hwinfo_device_id E = (int (length dev_id), dev_id)" "6 \<le> length dev_id"
    "net_if_default A = Some i"
    "link_addr A i = linked i (lan9250_iface_init i (lan9250_load_unique_mac_address E ctx) h)"
  shows "\<exists>n. n = board_name (dev_id ! (length dev_id - 2)) (dev_id ! (length dev_id - 1)) \<and>
    set_unique_hostname A net_app_init =
      net_app_init\<lparr>nlog := [Hostname_set n], stepper_id := n @ [CHR 0x00]\<rparr>"
proof -
  obtain m where "mac_address (lan9250_load_unique_mac_address E ctx) =
    m @ [dev_id ! (length dev_id - 2), dev_id ! (length dev_id - 1)]"
    using mac_ends_in_id [OF assms(1,2)] by blast
  then have la: "link_addr A i = Some (m @ [dev_id ! (length dev_id - 2), dev_id ! (length dev_id - 1)])"
    using assms(4) by (simp add: lan9250_iface_init_def)
  have "length (stepper_id net_app_init) = length stepper_id_init" by (simp add: net_app_init_def)
  from unique_hostname_set [OF assms(3) la this] show ?thesis
    by (simp add: noted_def net_app_init_def)
qed

text \<open>
  Boards are told apart by their names as far as the name can. With device ids of six bytes or more,
  the address the driver derives from the id and hands to the interface gives the board a name that
  fills its buffer up to the terminating zero, is announced as the host name, and is the same for two
  boards exactly if the last two bytes of their ids are.
\<close>

lemma hostname_tells_boards:
  assumes "\<And>b. hwinfo_device_id (E b) = (int (length (dev_id b)), dev_id b)" "\<And>b. 6 \<le> length (dev_id b)"
    "\<And>b. net_if_default (A b) = Some (i b)"
    "\<And>b. link_addr (A b) (i b) =
      linked (i b) (lan9250_iface_init (i b) (lan9250_load_unique_mac_address (E b) (ctx b)) (h b))"
  shows "\<exists>n. (\<forall>b. set_unique_hostname (A b) net_app_init =
        net_app_init\<lparr>nlog := [Hostname_set (n b)], stepper_id := n b @ [CHR 0x00]\<rparr>) \<and>
    (\<forall>b. length (n b) = 11 \<and> take 7 (n b) = ''stepper'') \<and>
    (\<forall>b c. n b = n c \<longleftrightarrow>
      dev_id b ! (length (dev_id b) - 2) = dev_id c ! (length (dev_id c) - 2) \<and>
      last (dev_id b) = last (dev_id c))"
proof -
  define n where "n b = board_name (dev_id b ! (length (dev_id b) - 2)) (dev_id b ! (length (dev_id b) - 1))" for b
  have n: "length (n b) = 11 \<and> take 7 (n b) = ''stepper''" for b
    by (simp add: n_def board_name_def fmt_02x_def)
  have "dev_id b \<noteq> []" for b using assms(2) [of b] by auto
  then have "last (dev_id b) = dev_id b ! (length (dev_id b) - 1)" for b by (rule last_conv_nth)
  then have eq: "n b = n c \<longleftrightarrow> dev_id b ! (length (dev_id b) - 2) = dev_id c ! (length (dev_id c) - 2) \<and>
      last (dev_id b) = last (dev_id c)" for b c
    by (simp add: n_def board_name_inj)
  have "set_unique_hostname (A b) net_app_init =
      net_app_init\<lparr>nlog := [Hostname_set (n b)], stepper_id := n b @ [CHR 0x00]\<rparr>" for b
    using hostname_of_id [OF assms, of b] by (simp add: n_def)
  then show ?thesis using n eq by blast
qed

lemma hostname_tells_boards_example:
  "\<exists>n. \<forall>b. set_unique_hostname (stack\<lparr>link_addr := \<lambda>i. Some [0x12, 2, 3, 4, 5, b]\<rparr>) net_app_init =
      net_app_init\<lparr>nlog := [Hostname_set (n b)], stepper_id := n b @ [CHR 0x00]\<rparr>"
  using hostname_tells_boards [of "\<lambda>b. calm\<lparr>hwinfo_device_id := (6, [0x11, 2, 3, 4, 5, b])\<rparr>"
      "\<lambda>b. [0x11, 2, 3, 4, 5, b]" "\<lambda>b. stack\<lparr>link_addr := \<lambda>i. Some [0x12, 2, 3, 4, 5, b]\<rparr>" "\<lambda>b. 1"
      "\<lambda>b. lan0" "\<lambda>b. []"]
  by (auto simp: stack_def lan9250_iface_init_def lan9250_load_unique_mac_address_def Let_def)

section \<open>From boot to the idle loop\<close>

fun is_start :: "net_ev \<Rightarrow> bool" where
  "is_start (Dhcp_start i) = True"
| "is_start (Option_callback opt n) = True"
| "is_start e = (e = Mgmt_callback)"

lemma starts_noted [simp]:
  "\<not> is_start e \<Longrightarrow> filter is_start (nlog (noted e n)) = filter is_start (nlog n)"
  by simp

lemma starts_dhcp:
  "filter is_start (nlog (fold (start_dhcpv4_client A) is n)) =
    map Dhcp_start (rev is) @ filter is_start (nlog n)"
  by (induction "is" arbitrary: n) (simp_all add: start_dhcpv4_client_def)

lemma starts_hostname: "filter is_start (nlog (set_unique_hostname A n)) = filter is_start (nlog n)"
  by (simp add: set_unique_hostname_def Let_def split: option.splits)

text \<open>
  C15: The boot gets through. If core1's bootrom answers, the SPI bus works, the chip's clock runs and
  sleeps last, \<open>main\<close> reaches its idle loop, whatever the mailbox answers: core1 is launched, each
  interface's DHCP client was started once, in order and after both callbacks were registered, and
  the pulse output was armed successfully, no sooner than fifteen seconds after the boot began.
\<close>

theorem main_reaches_idle:
  assumes "bootrom_echoes (hw_of B)" "psm_follows (hw_of B) (proc1_bits B)" "mails (hist (launcher s)) = []"
    "bus_works (lan_of B)" "reads_clock (lan_of B) now" "sleeps (lan_of B)" "dev_ready (ptp_of B)"
  shows "\<exists>t n. main_boot B s = Some t \<and>
    core1_launch (hw_of B) (proc1_bits B) (blob B) (launcher s) = Some (0, launcher t) \<and>
    filter is_start (nlog (net t)) = map Dhcp_start (rev (ifaces B)) @
      [Option_callback 42 4, Mgmt_callback] @ filter is_start (nlog (net s)) \<and>
    (let armed = slept n (Sleep_ms 15000 # trace (drv (pps s)))
     in lan9250_1588_pps_enable (lan_of B) ((drv (pps s))\<lparr>trace := armed\<rparr>) = Some (0, drv (pps t)) \<and>
       uptime (lan_of B) (trace (drv (pps s))) + 15000 \<le> uptime (lan_of B) armed)"
proof -
  obtain c where c: "core1_launch (hw_of B) (proc1_bits B) (blob B) (launcher s) = Some (0, c)"
    using core1_launch_returns [OF assms(1-3)] by blast
  define p where "p = (pps s)\<lparr>drv := act (Sleep_ms 15000) (drv (pps s))\<rparr>"
  obtain n q where q: "ptp_pps_arm_when_synced (ptp_of B) (lan_of B) 60000 p = Some (0, q)"
    and arm: "lan9250_1588_pps_enable (lan_of B) ((drv p)\<lparr>trace := slept n (trace (drv p))\<rparr>) = Some (0, drv q)"
    using arm_when_synced_ends [OF assms(4-7), where wait = 60000 and s = p] by (auto simp: Let_def)
  have tr: "trace (drv p) = Sleep_ms 15000 # trace (drv (pps s))"
    "(drv p)\<lparr>trace := h\<rparr> = (drv (pps s))\<lparr>trace := h\<rparr>" for h
    by (simp_all add: p_def act_def)
  have up: "uptime (lan_of B) h \<le> uptime (lan_of B) (slept n h)" for n h
  proof (induction n)
    case (Suc n)
    have "uptime (lan_of B) (slept n h) + int 500 \<le> uptime (lan_of B) (slept (Suc n) h)"
      using assms(6) by (simp only: sleeps_def slept_def replicate_Suc append_Cons)
    with Suc show ?case by linarith
  qed simp
  have "uptime (lan_of B) (trace (drv (pps s))) + int 15000 \<le> uptime (lan_of B) (trace (drv p))"
    using assms(6) by (simp only: sleeps_def tr)
  then have late: "uptime (lan_of B) (trace (drv (pps s))) + 15000 \<le> uptime (lan_of B) (slept n (trace (drv p)))"
    using up [of "trace (drv p)" n] by simp
  obtain r m where m: "stepper_mbox_init (mbox_of B) (client s) = (r, m)"
    by (rule prod.exhaust)
  define t where "t = \<lparr>net = fold (start_dhcpv4_client (net_of B)) (ifaces B)
      (noted (Option_callback DHCP_OPTION_NTP 4) (noted Mgmt_callback
        (log_if (r \<noteq> 0) ''Failed to init core1 mailbox'' (log_if False ''Failed to launch core1''
          (set_unique_hostname (net_of B) (noted (Log_inf ''Run dhcpv4 client'' []) (net s))))))),
      launcher = c, client = m, pps = q\<rparr>"
  have "main_boot B s = Some t"
    by (simp add: main_boot_def c m q [unfolded p_def] t_def Let_def)
  moreover have "filter is_start (nlog (net t)) = map Dhcp_start (rev (ifaces B)) @
      [Option_callback 42 4, Mgmt_callback] @ filter is_start (nlog (net s))"
    by (simp add: t_def starts_dhcp log_if_def DHCP_OPTION_NTP_def starts_hostname)
  moreover have "launcher t = c" "pps t = q" by (simp_all add: t_def)
  ultimately show ?thesis using c arm late unfolding Let_def tr
    by (intro exI [of _ t] exI [of _ n]) simp
qed

text \<open>A board whose parts answer.\<close>

definition good_board :: board_env where
  "good_board = \<lparr>net_of = stack, hw_of = echo_bench, proc1_bits = 1, blob = [],
     mbox_of = prompt_env 0, ptp_of = app, lan_of = slow_chip, ifaces = [1, 2]\<rparr>"

definition board0 :: board where
  "board0 = \<lparr>net = net_app_init, launcher = \<lparr>hist = [], core1_ram = replicate 16 0\<rparr>,
     client = \<lparr>reply_sem = 0, last_reply = 0, slog = []\<rparr>, pps = ptp_sh0\<rparr>"

lemma main_reaches_idle_witness:
  "\<exists>t. main_boot good_board board0 = Some t \<and>
    filter is_start (nlog (net t)) = [Dhcp_start 2, Dhcp_start 1, Option_callback 42 4, Mgmt_callback]"
  using main_reaches_idle [of good_board board0 chip_time] echo_bench_ok slow_chip_ok(2-4)
  by (auto simp: good_board_def board0_def app_def net_app_init_def)

section \<open>Core1 must answer\<close>

text \<open>A wait for a bit that never shows does not end.\<close>

lemma wait_bit_never:
  assumes "\<forall>h. reg_val E r h AND msk = 0"
  shows "wait_bit E r msk (s :: 'a bus_scheme) = None"
proof (rule ccontr)
  assume "wait_bit E r msk s \<noteq> None"
  then obtain t where t: "wait_bit E r msk s = Some t" by blast
  have "\<exists>h. reg_val E r h AND msk \<noteq> 0"
  proof (rule wait_bit.raw_induct [where P = "\<lambda>E r msk (s :: 'a bus_scheme) t.
      \<exists>h. reg_val E r h AND msk \<noteq> 0", OF _ t])
    fix f E r msk and s t :: "'a bus_scheme"
    assume "\<And>E r msk (s :: 'a bus_scheme) t. f E r msk s = Some t \<Longrightarrow> \<exists>h. reg_val E r h AND msk \<noteq> 0"
      and "(let (v, s1) = reg_rd E r s in if v AND msk \<noteq> 0 then Some s1 else f E r msk s1) = Some t"
    then show "\<exists>h. reg_val E r h AND msk \<noteq> 0"
      by (auto simp: reg_rd_def Let_def split: if_splits)
  qed
  with assms show False by blast
qed

text \<open>
  Without core1 there is no network. If core1's side of the FIFO never delivers a word, \<open>core1_launch\<close>
  does not return, and so \<open>main\<close> never registers its handlers, starts DHCP or arms the pulse output: its
  error message for a failed launch is never reached.
\<close>

lemma main_needs_core1:
  assumes "\<forall>h. reg_val (hw_of B) SIO_FIFO_ST h AND SIO_FIFO_ST_VLD_BITS (hw_of B) = 0"
  shows "main_boot B s = None"
proof -
  have "core1_reset (hw_of B) (proc1_bits B) c = None" for c
    by (simp add: core1_reset_def wait_bit_never [OF assms] Let_def split: bind_splits)
  then show ?thesis by (simp add: main_boot_def core1_launch_def)
qed

lemma main_needs_core1_example:
  "main_boot (good_board\<lparr>hw_of := (bench [])\<lparr>reg_val := \<lambda>r h. if r = SIO_FIFO_ST then 0 else 0xFFFFFFFF\<rparr>\<rparr>)
    board0 = None"
  by (rule main_needs_core1) simp

text \<open>And a launch never reports failure.\<close>

lemma core1_launch_no_error: "core1_launch E b img s = Some (ret, t) \<Longrightarrow> ret = 0"
  by (auto simp: core1_launch_def Let_def split: bind_splits)

end
