(* ===== verification/Reset_Shell.thy ===== *)
theory Reset_Shell
  imports Prelude
begin

text \<open>
  \<open>src/bootloader_shell.c\<close>: the commands that leave the running program, \<open>bootloader\<close> by a call of
  the boot ROM and \<open>reset\<close> by way of the watchdog. Register accesses, calls and printed lines are
  recorded newest first; what a register holds when it is read is a function of the record.
\<close>

section \<open>The code\<close>

datatype reset_ev =
    Sys_read u32 | Sys_write u32 u32       \<comment> \<open>the value, then the address\<close>
  | Shell_line string | Rom_reset_usb_boot u32 u32

text \<open>A command returns a value or ends in an endless loop.\<close>

datatype outcome = Returns int | Spins

definition WATCHDOG_BASE :: u32 where [dev_eval]: "WATCHDOG_BASE = 0x400d8000"
definition WATCHDOG_CTRL_OFFSET :: u32 where [dev_eval]: "WATCHDOG_CTRL_OFFSET = 0x00"
definition WATCHDOG_CTRL_TRIGGER_BITS :: u32 where [dev_eval]: "WATCHDOG_CTRL_TRIGGER_BITS = 0x80000000"
definition WATCHDOG_CTRL_ENABLE_BITS :: u32 where [dev_eval]: "WATCHDOG_CTRL_ENABLE_BITS = 0x40000000"
definition WATCHDOG_SCRATCH4_OFFSET :: u32 where [dev_eval]: "WATCHDOG_SCRATCH4_OFFSET = 0x1c"
definition PSM_BASE :: u32 where [dev_eval]: "PSM_BASE = 0x40018000"
definition PSM_WDSEL_OFFSET :: u32 where [dev_eval]: "PSM_WDSEL_OFFSET = 0x08"
definition PSM_WDSEL_BITS :: u32 where [dev_eval]: "PSM_WDSEL_BITS = 0x01ffffff"
definition PSM_WDSEL_ROSC_BITS :: u32 where [dev_eval]: "PSM_WDSEL_ROSC_BITS = 0x00000004"
definition PSM_WDSEL_XOSC_BITS :: u32 where [dev_eval]: "PSM_WDSEL_XOSC_BITS = 0x00000008"

definition sys_set_bits :: "(reset_ev list \<Rightarrow> u32) \<Rightarrow> u32 \<Rightarrow> u32 \<Rightarrow> reset_ev list \<Rightarrow> reset_ev list" where
  "sys_set_bits R addr m h = (let h1 = Sys_read addr # h in Sys_write (R h1 OR m) addr # h1)"

definition sys_clear_bits :: "(reset_ev list \<Rightarrow> u32) \<Rightarrow> u32 \<Rightarrow> u32 \<Rightarrow> reset_ev list \<Rightarrow> reset_ev list" where
  "sys_clear_bits R addr m h = (let h1 = Sys_read addr # h in Sys_write (R h1 AND NOT m) addr # h1)"

definition cmd_bootloader :: "reset_ev list \<Rightarrow> outcome \<times> reset_ev list" where
  "cmd_bootloader h =
    (Returns 0, Rom_reset_usb_boot 0 0 # Shell_line ''Rebooting into USB bootloader (RPI-RP2)...'' # h)"

definition cmd_reset :: "(reset_ev list \<Rightarrow> u32) \<Rightarrow> reset_ev list \<Rightarrow> outcome \<times> reset_ev list" where
  "cmd_reset R h =
    (let h1 = Shell_line ''Resetting...'' # h;
         h2 = sys_clear_bits R (WATCHDOG_BASE + WATCHDOG_CTRL_OFFSET) WATCHDOG_CTRL_ENABLE_BITS h1;
         h3 = sys_set_bits R (PSM_BASE + PSM_WDSEL_OFFSET)
           (PSM_WDSEL_BITS AND NOT (PSM_WDSEL_ROSC_BITS OR PSM_WDSEL_XOSC_BITS)) h2;
         h4 = Sys_write 0 (WATCHDOG_BASE + WATCHDOG_SCRATCH4_OFFSET) # h3;
         h5 = sys_set_bits R (WATCHDOG_BASE + WATCHDOG_CTRL_OFFSET) WATCHDOG_CTRL_TRIGGER_BITS h4
     in (Spins, h5))"

section \<open>The reset fires last and spares the oscillators\<close>

text \<open>The last value written to a register, if any.\<close>

fun last_write :: "u32 \<Rightarrow> reset_ev list \<Rightarrow> u32 option" where
  "last_write a (Sys_write v b # h) = (if a = b then Some v else last_write a h)"
| "last_write a (e # h) = last_write a h"
| "last_write a [] = None"

text \<open>A register holds what was written to it last.\<close>

definition holds_writes :: "(reset_ev list \<Rightarrow> u32) \<Rightarrow> bool" where
  "holds_writes R \<longleftrightarrow> (\<forall>a h v. last_write a h = Some v \<longrightarrow> R (Sys_read a # h) = v)"

definition stays_off :: "u32 \<Rightarrow> bool" where
  "stays_off v \<longleftrightarrow> v AND WATCHDOG_CTRL_ENABLE_BITS = 0 \<and> v AND WATCHDOG_CTRL_TRIGGER_BITS \<noteq> 0"

lemma cleared_then_set:
  "m AND k = 0 \<Longrightarrow> ((v AND NOT m) OR k) AND m = (0 :: u32)" "((v AND NOT m) OR k) AND k = (k :: u32)"
  by (simp_all add: bit_eq_iff bit_simps) blast+

lemma trigger_bits: "stays_off ((v AND NOT WATCHDOG_CTRL_ENABLE_BITS) OR WATCHDOG_CTRL_TRIGGER_BITS)"
proof -
  have "WATCHDOG_CTRL_ENABLE_BITS AND WATCHDOG_CTRL_TRIGGER_BITS = 0" "WATCHDOG_CTRL_TRIGGER_BITS \<noteq> 0"
    by (simp_all add: dev_eval)
  then show ?thesis by (simp add: stays_off_def cleared_then_set)
qed

text \<open>
  On registers that hold what is written, \<open>reset\<close> never returns; its last access sets the watchdog's
  trigger with the countdown disabled, after the scratch word that selects the normal boot path was
  cleared and every block but the oscillators selected for reset, whose bits stay as they were.
\<close>

lemma reset_fires_last:
  assumes "holds_writes R"
  shows "\<exists>v w h'. cmd_reset R h = (Spins, Sys_write v (WATCHDOG_BASE + WATCHDOG_CTRL_OFFSET) # h') \<and>
    stays_off v \<and> last_write (WATCHDOG_BASE + WATCHDOG_SCRATCH4_OFFSET) h' = Some 0 \<and>
    last_write (PSM_BASE + PSM_WDSEL_OFFSET) h' = Some w \<and>
    (\<exists>old. w = old OR (PSM_WDSEL_BITS AND NOT (PSM_WDSEL_ROSC_BITS OR PSM_WDSEL_XOSC_BITS)))"
proof -
  define ctrl where "ctrl = WATCHDOG_BASE + WATCHDOG_CTRL_OFFSET"
  define sel where "sel = PSM_BASE + PSM_WDSEL_OFFSET"
  define scratch where "scratch = WATCHDOG_BASE + WATCHDOG_SCRATCH4_OFFSET"
  have ne: "ctrl \<noteq> sel" "ctrl \<noteq> scratch" "sel \<noteq> scratch"
    by (simp_all add: ctrl_def sel_def scratch_def dev_eval)
  show ?thesis
    using assms ne trigger_bits
    unfolding ctrl_def [symmetric] sel_def [symmetric] scratch_def [symmetric]
    by (auto simp: cmd_reset_def sys_set_bits_def sys_clear_bits_def Let_def holds_writes_def
        ctrl_def [symmetric] sel_def [symmetric] scratch_def [symmetric])
qed

end
